(* ===== verification/Prelude.thy ===== *)
theory Prelude
  imports Main "HOL-Library.Monad_Syntax"
begin

text \<open>
  Shared vocabulary of the development: C++ arrays with checked access, the outcome of a
  call that may throw or run into undefined behaviour, singly linked chains over a
  \<open>next\<close> function, and the generic list lemmas the component theories use.

  \<^item> \<open>None\<close> of an \<open>option\<close> result stands for undefined behaviour (a null or dangling
    dereference, an access past the end of an array) or for a loop that never ends; every
    theorem that says a call returns proves \<open>Some\<close>.
  \<^item> \<open>outcome\<close> separates a normal return, a thrown exception and undefined behaviour where
    the difference matters.
\<close>

section \<open>Collections of facts\<close>

named_theorems array_simps "checked access to C++ arrays"
named_theorems chain_simps "linked chains over a next function"

section \<open>Outcomes of a call\<close>

datatype 'r outcome = Ret 'r | Throw string | Undef

fun returned :: "'r outcome \<Rightarrow> bool" where
  "returned (Ret _) = True"
| "returned (Throw _) = False"
| "returned Undef = False"

lemma returned_iff: "returned o1 \<longleftrightarrow> (\<exists>r. o1 = Ret r)"
  by (cases o1) auto

text \<open>Sequencing: an exception or undefined behaviour ends the call.\<close>

fun and_then :: "'a outcome \<Rightarrow> ('a \<Rightarrow> 'b outcome) \<Rightarrow> 'b outcome" where
  "and_then (Ret x) f = f x"
| "and_then (Throw e) f = Throw e"
| "and_then Undef f = Undef"

definition of_opt :: "'a option \<Rightarrow> 'a outcome" where
  "of_opt r = (case r of None \<Rightarrow> Undef | Some x \<Rightarrow> Ret x)"

lemma of_opt_simps [simp]: "of_opt None = Undef" "of_opt (Some x) = Ret x"
  by (simp_all add: of_opt_def)

lemma and_then_Ret: "and_then m f = Ret y \<longleftrightarrow> (\<exists>x. m = Ret x \<and> f x = Ret y)"
  by (cases m) auto

section \<open>Checked arrays\<close>

text \<open>Reading and writing \<open>a[i]\<close> of a C++ array: undefined past its end.\<close>

definition arr_get :: "'a list \<Rightarrow> nat \<Rightarrow> 'a option" where
  "arr_get xs i = (if i < length xs then Some (xs ! i) else None)"

definition arr_set :: "'a list \<Rightarrow> nat \<Rightarrow> 'a \<Rightarrow> 'a list option" where
  "arr_set xs i v = (if i < length xs then Some (xs[i := v]) else None)"

text \<open>An \<open>int\<close> subscript: a negative one is out of range too.\<close>

definition arr_geti :: "'a list \<Rightarrow> int \<Rightarrow> 'a option" where
  "arr_geti xs i = (if 0 \<le> i then arr_get xs (nat i) else None)"

definition arr_seti :: "'a list \<Rightarrow> int \<Rightarrow> 'a \<Rightarrow> 'a list option" where
  "arr_seti xs i v = (if 0 \<le> i then arr_set xs (nat i) v else None)"

lemma arr_get_in [array_simps]: "i < length xs \<Longrightarrow> arr_get xs i = Some (xs ! i)"
  by (simp add: arr_get_def)

lemma arr_get_out [array_simps]: "length xs \<le> i \<Longrightarrow> arr_get xs i = None"
  by (simp add: arr_get_def)

lemma arr_set_in [array_simps]: "i < length xs \<Longrightarrow> arr_set xs i v = Some (xs[i := v])"
  by (simp add: arr_set_def)

lemma arr_geti_in [array_simps]:
  "0 \<le> i \<Longrightarrow> i < int (length xs) \<Longrightarrow> arr_geti xs i = Some (xs ! nat i)"
  by (simp add: arr_geti_def arr_get_def nat_less_iff)

lemma arr_seti_in [array_simps]:
  "0 \<le> i \<Longrightarrow> i < int (length xs) \<Longrightarrow> arr_seti xs i v = Some (xs[nat i := v])"
  by (simp add: arr_seti_def arr_set_def nat_less_iff)

lemma arr_get_Some: "arr_get xs i = Some v \<longleftrightarrow> i < length xs \<and> v = xs ! i"
  by (auto simp: arr_get_def)

lemma arr_geti_Some:
  "arr_geti xs i = Some v \<longleftrightarrow> 0 \<le> i \<and> i < int (length xs) \<and> v = xs ! nat i"
  by (auto simp: arr_geti_def arr_get_def nat_less_iff)

lemma arr_seti_Some:
  "arr_seti xs i v = Some ys \<longleftrightarrow> 0 \<le> i \<and> i < int (length xs) \<and> ys = xs[nat i := v]"
  by (auto simp: arr_seti_def arr_set_def nat_less_iff)

text \<open>\<open>erase(begin(), begin() + k)\<close> and the loop \<open>for(int j = k; j < v.size(); ++j)\<close>, whose
  comparison is unsigned, so that a negative \<open>j\<close> ends it at once.\<close>

definition erase_front :: "'a list \<Rightarrow> int \<Rightarrow> 'a list option" where
  "erase_front xs k = (if 0 \<le> k \<and> k \<le> int (length xs) then Some (drop (nat k) xs) else None)"

definition from_index :: "'a list \<Rightarrow> int \<Rightarrow> 'a list" where
  "from_index xs j = (if j < 0 then [] else drop (nat j) xs)"

section \<open>Linked chains\<close>

text \<open>
  \<open>linked f p xs\<close>: from pointer \<open>p\<close>, following \<open>f\<close> visits exactly the addresses \<open>xs\<close>
  and then the null pointer.
\<close>

primrec linked :: "('a \<Rightarrow> 'a option) \<Rightarrow> 'a option \<Rightarrow> 'a list \<Rightarrow> bool" where
  "linked f p [] \<longleftrightarrow> p = None"
| "linked f p (x # xs) \<longleftrightarrow> p = Some x \<and> linked f (f x) xs"

lemma linked_cong:
  "(\<And>x. x \<in> set xs \<Longrightarrow> f x = g x) \<Longrightarrow> linked f p xs = linked g p xs"
  by (induction xs arbitrary: p) auto

lemma linked_upd [chain_simps]: "a \<notin> set xs \<Longrightarrow> linked (f(a := q)) p xs = linked f p xs"
  by (rule linked_cong) auto

lemma linked_next: "linked f (f h) (A @ x # B) \<Longrightarrow> f (last (h # A)) = Some x"
  by (induction A arbitrary: h) auto

lemma linked_end: "linked f (f h) A \<Longrightarrow> f (last (h # A)) = None"
  by (induction A arbitrary: h) auto

lemma linked_tail: "linked f (f h) (A @ x # B) \<Longrightarrow> linked f (f x) B"
  by (induction A arbitrary: h) auto

lemma linked_from: "linked f (f h) (A @ B) \<Longrightarrow> linked f (f (last (h # A))) B"
  by (induction A arbitrary: h) auto

lemma linked_insert:
  assumes "linked f (f h) (A @ B)" and "distinct (h # A @ B)" and "a \<notin> set (h # A @ B)"
    and "p = last (h # A)" and "g = f(a := f p, p := Some a)"
  shows "linked g (g h) (A @ a # B)"
  using assms
proof (induction A arbitrary: h)
  case Nil
  then have "linked g (f h) B = linked f (f h) B" by (intro linked_cong) auto
  with Nil show ?case by simp
next
  case (Cons x A)
  then have "linked g (g x) (A @ a # B)" by (simp split: if_splits)
  moreover have "g h = Some x" using Cons.prems by (auto split: if_splits)
  ultimately show ?case by simp
qed

lemma linked_delete:
  assumes "linked f (f h) (A @ r # B)" and "distinct (h # A @ r # B)"
    and "p = last (h # A)" and "g = f(p := f r)"
  shows "linked g (g h) (A @ B)"
  using assms
proof (induction A arbitrary: h)
  case Nil
  then have "linked g (f r) B = linked f (f r) B" by (intro linked_cong) auto
  with Nil show ?case by simp
next
  case (Cons x A)
  then have "linked g (g x) (A @ B)" by (simp split: if_splits)
  moreover have "g h = Some x" using Cons.prems by (auto split: if_splits)
  ultimately show ?case by simp
qed

section \<open>Lists\<close>

lemma last_Cons_in: "last (h # A) \<in> insert h (set A)"
  by (cases "A = []") auto

lemma last_filter_mem:
  "(\<And>x. P x \<Longrightarrow> Q x) \<Longrightarrow> last (h # filter P A) \<in> insert h (set (filter Q A))"
  using last_Cons_in [of h "filter P A"] by auto

text \<open>Splitting a strictly sorted list at a key.\<close>

lemma sorted_split_filter:
  fixes f :: "'a \<Rightarrow> 'k::linorder"
  assumes "sorted_wrt (<) (map f xs)"
  shows "xs = filter (\<lambda>x. f x < k) xs @ filter (\<lambda>x. \<not> f x < k) xs"
  using assms
proof (induction xs)
  case (Cons x xs)
  show ?case
  proof (cases "f x < k")
    case True
    with Cons show ?thesis by simp
  next
    case False
    with Cons.prems have "\<And>y. y \<in> set xs \<Longrightarrow> \<not> f y < k" by fastforce
    with False show ?thesis by (simp add: filter_empty_conv)
  qed
qed simp

lemma map_of_sorted_split:
  fixes k :: "'k::linorder"
  assumes "\<forall>(a, b) \<in> set A. a < k" and "\<forall>(a, b) \<in> set B. k < a"
  shows "map_of (A @ (k, v) # B) = (map_of (A @ B))(k \<mapsto> v)"
    and "map_of (A @ B) k = None"
proof -
  have A: "map_of A k = None" and B: "map_of B k = None"
    using assms by (fastforce simp: map_of_eq_None_iff)+
  then show "map_of (A @ B) k = None" by (simp add: map_add_None)
  show "map_of (A @ (k, v) # B) = (map_of (A @ B))(k \<mapsto> v)"
    using A by (auto simp: fun_eq_iff map_add_def split: option.splits)
qed

section \<open>Loops over a list\<close>

text \<open>\<open>for(auto &x: xs) s = f(x, s);\<close> where the body may be undefined.\<close>

primrec fold_opt :: "('a \<Rightarrow> 's \<Rightarrow> 's option) \<Rightarrow> 'a list \<Rightarrow> 's \<Rightarrow> 's option" where
  "fold_opt f [] s = Some s"
| "fold_opt f (x # xs) s = do { s \<leftarrow> f x s; fold_opt f xs s }"

lemma fold_opt_inv:
  assumes "I s" and "\<And>x s. x \<in> set xs \<Longrightarrow> I s \<Longrightarrow> \<exists>t. f x s = Some t \<and> I t"
  shows "\<exists>t. fold_opt f xs s = Some t \<and> I t"
  using assms
proof (induction xs arbitrary: s)
  case (Cons x xs)
  obtain t where "f x s = Some t" "I t" using Cons.prems by (meson list.set_intros(1))
  moreover have "\<exists>u. fold_opt f xs t = Some u \<and> I u"
    by (rule Cons.IH [OF \<open>I t\<close>]) (use Cons.prems(2) in auto)
  ultimately show ?case by simp
qed simp

end
