(* ===== verification/Archive.thy ===== *)
theory Archive
  imports Prelude
begin

text \<open>
  The serialisation libraries of the program (Boost text archives, protobuf) are not part
  of the repository. Where the code turns a value into a string and back, the model takes
  the two functions as parameters \<open>enc\<close> and \<open>dec\<close>, and what the code relies on is the
  predicate \<open>codec\<close>: reading back what was written gives the value, and nothing is
  written as the empty string (every Boost text archive starts with its signature).

  The second half builds one concrete, executable codec (unary length prefixes), so that
  theorems with that hypothesis can be applied to concrete data.
\<close>

section \<open>The documented behaviour of an archive\<close>

definition codec :: "('a \<Rightarrow> string) \<Rightarrow> (string \<Rightarrow> 'a option) \<Rightarrow> bool" where
  "codec enc dec \<longleftrightarrow> (\<forall>x. dec (enc x) = Some x \<and> enc x \<noteq> [])"

lemma codecD: "codec enc dec \<Longrightarrow> dec (enc x) = Some x" "codec enc dec \<Longrightarrow> enc x \<noteq> []"
  by (simp_all add: codec_def)

lemma codec_inj: "codec enc dec \<Longrightarrow> enc x = enc y \<Longrightarrow> x = y"
  by (metis codecD(1) option.inject)

section \<open>A concrete codec\<close>

text \<open>\<open>prefix_codec e d\<close>: the decoder reads exactly what the encoder wrote and hands back the rest.\<close>

definition prefix_codec :: "('a \<Rightarrow> string) \<Rightarrow> (string \<Rightarrow> ('a \<times> string) option) \<Rightarrow> bool" where
  "prefix_codec e d \<longleftrightarrow> (\<forall>x r. d (e x @ r) = Some (x, r) \<and> e x \<noteq> [])"

lemma prefix_codecD: "prefix_codec e d \<Longrightarrow> d (e x @ r) = Some (x, r)"
  by (simp add: prefix_codec_def)

fun put_nat :: "nat \<Rightarrow> string" where
  "put_nat 0 = ''.''"
| "put_nat (Suc n) = CHR ''1'' # put_nat n"

fun get_nat :: "string \<Rightarrow> (nat \<times> string) option" where
  "get_nat [] = None"
| "get_nat (c # s) =
     (if c = CHR ''.'' then Some (0, s)
      else if c = CHR ''1'' then map_option (\<lambda>(n, r). (Suc n, r)) (get_nat s) else None)"

definition put_int :: "int \<Rightarrow> string" where
  "put_int i = (if i < 0 then CHR ''-'' # put_nat (nat (- i)) else CHR ''+'' # put_nat (nat i))"

definition get_int :: "string \<Rightarrow> (int \<times> string) option" where
  "get_int s = (case s of [] \<Rightarrow> None
     | c # s \<Rightarrow> map_option (\<lambda>(n, r). (if c = CHR ''-'' then - int n else int n, r)) (get_nat s))"

definition put_str :: "string \<Rightarrow> string" where
  "put_str s = put_nat (length s) @ s"

definition get_str :: "string \<Rightarrow> (string \<times> string) option" where
  "get_str s = do {
     (n, r) \<leftarrow> get_nat s;
     if n \<le> length r then Some (take n r, drop n r) else None }"

primrec get_many :: "(string \<Rightarrow> ('a \<times> string) option) \<Rightarrow> nat \<Rightarrow> string \<Rightarrow> ('a list \<times> string) option" where
  "get_many d 0 s = Some ([], s)"
| "get_many d (Suc n) s = do { (x, r) \<leftarrow> d s; (xs, r) \<leftarrow> get_many d n r; Some (x # xs, r) }"

definition put_list :: "('a \<Rightarrow> string) \<Rightarrow> 'a list \<Rightarrow> string" where
  "put_list e xs = put_nat (length xs) @ concat (map e xs)"

definition get_list :: "(string \<Rightarrow> ('a \<times> string) option) \<Rightarrow> string \<Rightarrow> ('a list \<times> string) option" where
  "get_list d s = do { (n, r) \<leftarrow> get_nat s; get_many d n r }"

definition put_pair :: "('a \<Rightarrow> string) \<Rightarrow> ('b \<Rightarrow> string) \<Rightarrow> 'a \<times> 'b \<Rightarrow> string" where
  "put_pair e f p = e (fst p) @ f (snd p)"

definition get_pair ::
  "(string \<Rightarrow> ('a \<times> string) option) \<Rightarrow> (string \<Rightarrow> ('b \<times> string) option) \<Rightarrow> string
    \<Rightarrow> (('a \<times> 'b) \<times> string) option" where
  "get_pair d g s = do { (x, r) \<leftarrow> d s; (y, r) \<leftarrow> g r; Some ((x, y), r) }"

definition put_map :: "('b \<Rightarrow> 'a) \<Rightarrow> ('a \<Rightarrow> string) \<Rightarrow> 'b \<Rightarrow> string" where
  "put_map f e x = e (f x)"

definition get_map :: "('a \<Rightarrow> 'b) \<Rightarrow> (string \<Rightarrow> ('a \<times> string) option) \<Rightarrow> string \<Rightarrow> ('b \<times> string) option" where
  "get_map g d s = map_option (\<lambda>(x, r). (g x, r)) (d s)"

definition whole :: "(string \<Rightarrow> ('a \<times> string) option) \<Rightarrow> string \<Rightarrow> 'a option" where
  "whole d s = (case d s of Some (x, []) \<Rightarrow> Some x | _ \<Rightarrow> None)"

lemma get_put_nat [simp]: "get_nat (put_nat n @ r) = Some (n, r)"
  by (induction n) auto

lemma put_nat_nonempty [simp]: "put_nat n \<noteq> []"
  by (cases n) auto

lemma prefix_int: "prefix_codec put_int get_int"
  by (auto simp: prefix_codec_def put_int_def get_int_def)

lemma prefix_str: "prefix_codec put_str get_str"
  by (auto simp: prefix_codec_def put_str_def get_str_def)

lemma get_many_concat:
  "prefix_codec e d \<Longrightarrow> get_many d (length xs) (concat (map e xs) @ r) = Some (xs, r)"
  by (induction xs) (auto simp: prefix_codecD)

lemma prefix_list: "prefix_codec e d \<Longrightarrow> prefix_codec (put_list e) (get_list d)"
  by (auto simp: prefix_codec_def [of "put_list e"] put_list_def get_list_def get_many_concat)

lemma prefix_pair:
  "prefix_codec e d \<Longrightarrow> prefix_codec f g \<Longrightarrow> prefix_codec (put_pair e f) (get_pair d g)"
  by (auto simp: prefix_codec_def put_pair_def get_pair_def)

lemma prefix_map:
  "prefix_codec e d \<Longrightarrow> (\<And>x. g (f x) = x) \<Longrightarrow> prefix_codec (put_map f e) (get_map g d)"
  by (auto simp: prefix_codec_def put_map_def get_map_def)

lemma prefix_whole: "prefix_codec e d \<Longrightarrow> codec e (whole d)"
  unfolding prefix_codec_def codec_def whole_def
  by (metis (no_types, lifting) append_Nil2 case_prod_conv list.simps(4) option.simps(5))

lemmas prefix_codecs = prefix_int prefix_str prefix_list prefix_pair prefix_map

end
