(* ===== verification/KvSkipList.thy ===== *)
theory KvSkipList
  imports Prelude
begin

text \<open>
  The key-value skip list \<open>KVSkipList::kvskiplist\<close> of
  \<open>src/raft/include/core/kvSkipList.h\<close> (the same text as
  \<open>src/skipList/include/kvSkipList.h\<close>), on an explicit heap of nodes.

  A node is a cell of the heap \<open>cells\<close>, named by its address; \<open>forward\<close> is the
  array the constructor allocates, with \<open>None\<close> for \<open>nullptr\<close>. The template parameter
  \<open>_MaxLevel\<close> is the field \<open>max_level\<close>; the allocator hands out the address \<open>fresh\<close>;
  the results of \<open>rand() & 1\<close> are the stream \<open>coin\<close>, read from position \<open>tossed\<close>.
  Every operation reads and writes the heap in the order of the code; a dereference of a
  null, dangling or out-of-bounds pointer makes the result \<open>None\<close>.
\<close>

section \<open>State\<close>

type_synonym addr = nat

record ('k, 'v) sl_node =
  nkey :: 'k
  nvalue :: 'v
  nlevel :: nat
  forward :: "addr option list"

record ('k, 'v) skiplist =
  cells :: "addr \<Rightarrow> ('k, 'v) sl_node option"
  head :: addr
  level_now :: nat
  counter :: nat
  max_level :: nat
  fresh :: addr
  coin :: "nat \<Rightarrow> bool"
  tossed :: nat

type_synonym pre_array = "addr option list"

section \<open>Nodes\<close>

definition node_ctor :: "nat \<Rightarrow> 'k \<Rightarrow> 'v \<Rightarrow> ('k, 'v) sl_node option" where
  "node_ctor l k v =
     (if l = 0 then None
      else Some \<lparr>nkey = k, nvalue = v, nlevel = l, forward = replicate l None\<rparr>)"

definition get_forward :: "('k, 'v) skiplist \<Rightarrow> addr \<Rightarrow> nat \<Rightarrow> addr option option" where
  "get_forward sl p l = do { n \<leftarrow> cells sl p; arr_get (forward n) l }"

definition set_forward ::
  "('k, 'v) skiplist \<Rightarrow> addr \<Rightarrow> nat \<Rightarrow> addr option \<Rightarrow> ('k, 'v) skiplist option" where
  "set_forward sl p l q = do {
     n \<leftarrow> cells sl p;
     fs \<leftarrow> arr_set (forward n) l q;
     Some (sl\<lparr>cells := (cells sl)(p \<mapsto> n\<lparr>forward := fs\<rparr>)\<rparr>) }"

definition M_constructNode ::
  "nat \<Rightarrow> 'k \<Rightarrow> 'v \<Rightarrow> ('k, 'v) skiplist \<Rightarrow> (addr \<times> ('k, 'v) skiplist) option" where
  "M_constructNode l k v sl = do {
     n \<leftarrow> node_ctor l k v;
     Some (fresh sl, sl\<lparr>cells := (cells sl)(fresh sl \<mapsto> n), fresh := Suc (fresh sl)\<rparr>) }"

definition M_destroyNode :: "addr \<Rightarrow> ('k, 'v) skiplist \<Rightarrow> ('k, 'v) skiplist option" where
  "M_destroyNode p sl = do {
     n \<leftarrow> cells sl p;
     Some (sl\<lparr>cells := (cells sl)(p := None)\<rparr>) }"

text \<open>The constructor; \<open>dk\<close> and \<open>dv\<close> are \<open>key_type{}\<close> and \<open>value_type{}\<close>.\<close>

definition kvskiplist :: "nat \<Rightarrow> 'k \<Rightarrow> 'v \<Rightarrow> (nat \<Rightarrow> bool) \<Rightarrow> ('k, 'v) skiplist option" where
  "kvskiplist maxl dk dv c = do {
     let sl = \<lparr>cells = Map.empty, head = 0, level_now = 1, counter = 0, max_level = maxl,
               fresh = 0, coin = c, tossed = 0\<rparr>;
     (h, sl) \<leftarrow> M_constructNode maxl dk dv sl;
     Some (sl\<lparr>head := h\<rparr>) }"

section \<open>The random level of a new node\<close>

function M_randomLevel_loop :: "nat \<Rightarrow> (nat \<Rightarrow> bool) \<Rightarrow> nat \<Rightarrow> nat \<Rightarrow> nat \<times> nat" where
  "M_randomLevel_loop maxl c pos lvl =
     (if c pos \<and> lvl < maxl then M_randomLevel_loop maxl c (Suc pos) (Suc lvl)
      else (lvl, Suc pos))"
  by pat_completeness auto
termination
  by (relation "measure (\<lambda>(maxl, c, pos, lvl). maxl - lvl)") auto

declare M_randomLevel_loop.simps [simp del]

definition M_randomLevel :: "('k, 'v) skiplist \<Rightarrow> nat \<times> ('k, 'v) skiplist" where
  "M_randomLevel sl =
     (let (lvl, pos) = M_randomLevel_loop (max_level sl) (coin sl) (tossed sl) 1
      in (lvl, sl\<lparr>tossed := pos\<rparr>))"

section \<open>Searching\<close>

text \<open>
  The inner loop of \<open>_M_findPrecursors\<close> and \<open>find\<close>: move right while the next key is
  smaller (\<open>std::greater(k, next->key)\<close>).
\<close>

partial_function (option) advance ::
  "('k::linorder, 'v) skiplist \<Rightarrow> 'k \<Rightarrow> nat \<Rightarrow> addr \<Rightarrow> addr option" where
  "advance sl k l cur = do {
     nx \<leftarrow> get_forward sl cur l;
     (case nx of
        None \<Rightarrow> Some cur
      | Some q \<Rightarrow> do {
          n \<leftarrow> cells sl q;
          if k > nkey n then advance sl k l q else Some cur }) }"

declare advance.simps [code]

text \<open>The outer \<open>do ... while(l-- > 0)\<close> loop, filling \<open>pre\<close>.\<close>

primrec findPrecursors_loop ::
  "('k::linorder, 'v) skiplist \<Rightarrow> 'k \<Rightarrow> nat \<Rightarrow> addr \<Rightarrow> pre_array \<Rightarrow> pre_array option" where
  "findPrecursors_loop sl k 0 cur pre = do {
     cur \<leftarrow> advance sl k 0 cur;
     arr_set pre 0 (Some cur) }"
| "findPrecursors_loop sl k (Suc l) cur pre = do {
     cur \<leftarrow> advance sl k (Suc l) cur;
     pre \<leftarrow> arr_set pre (Suc l) (Some cur);
     findPrecursors_loop sl k l cur pre }"

definition M_findPrecursors ::
  "('k::linorder, 'v) skiplist \<Rightarrow> 'k \<Rightarrow> pre_array \<Rightarrow> pre_array option" where
  "M_findPrecursors sl k pre = findPrecursors_loop sl k (level_now sl - 1) (head sl) pre"

definition pre_at :: "pre_array \<Rightarrow> nat \<Rightarrow> addr option" where
  "pre_at pre l = do { p \<leftarrow> arr_get pre l; p }"

primrec find_loop ::
  "('k::linorder, 'v) skiplist \<Rightarrow> 'k \<Rightarrow> nat \<Rightarrow> addr \<Rightarrow> addr option" where
  "find_loop sl k 0 cur = advance sl k 0 cur"
| "find_loop sl k (Suc l) cur = do {
     cur \<leftarrow> advance sl k (Suc l) cur;
     find_loop sl k l cur }"

text \<open>Is the node at \<open>p\<close> absent, or beyond the key (so that the key is not in the list)?\<close>

definition no_match :: "('k::linorder, 'v) skiplist \<Rightarrow> addr option \<Rightarrow> 'k \<Rightarrow> bool option" where
  "no_match sl p k =
     (case p of
        None \<Rightarrow> Some True
      | Some q \<Rightarrow> do { n \<leftarrow> cells sl q; Some (nkey n > k) })"

text \<open>\<open>find\<close>: the iterator found, \<open>Some None\<close> for \<open>end()\<close>.\<close>

definition find_kv :: "('k::linorder, 'v) skiplist \<Rightarrow> 'k \<Rightarrow> addr option option" where
  "find_kv sl k = do {
     pre \<leftarrow> find_loop sl k (level_now sl - 1) (head sl);
     nx \<leftarrow> get_forward sl pre 0;
     b \<leftarrow> no_match sl nx k;
     Some (if b then None else nx) }"

section \<open>Iterators\<close>

definition begin_kv :: "('k, 'v) skiplist \<Rightarrow> addr option option" where
  "begin_kv sl = get_forward sl (head sl) 0"

definition end_kv :: "addr option" where
  "end_kv = None"

definition iter_next :: "('k, 'v) skiplist \<Rightarrow> addr \<Rightarrow> addr option option" where
  "iter_next sl p = get_forward sl p 0"

definition iter_deref :: "('k, 'v) skiplist \<Rightarrow> addr \<Rightarrow> ('k \<times> 'v) option" where
  "iter_deref sl p = do { n \<leftarrow> cells sl p; Some (nkey n, nvalue n) }"

definition size_kv :: "('k, 'v) skiplist \<Rightarrow> nat" where
  "size_kv sl = counter sl"

section \<open>Insertion\<close>

text \<open>\<open>for(l = _M_level_now; l < node_level; ++l) pre[l] = _M_head;\<close>\<close>

function raise_pre :: "addr \<Rightarrow> nat \<Rightarrow> nat \<Rightarrow> pre_array \<Rightarrow> pre_array option" where
  "raise_pre h l lvl pre =
     (if l < lvl then do { pre \<leftarrow> arr_set pre l (Some h); raise_pre h (Suc l) lvl pre }
      else Some pre)"
  by pat_completeness auto
termination
  by (relation "measure (\<lambda>(h, l, lvl, pre). lvl - l)") auto

declare raise_pre.simps [simp del]

text \<open>\<open>for(l = 0; l < node_level; ++l)\<close>: link the new node into every level it has.\<close>

function link_levels ::
  "pre_array \<Rightarrow> addr \<Rightarrow> nat \<Rightarrow> nat \<Rightarrow> ('k, 'v) skiplist \<Rightarrow> ('k, 'v) skiplist option" where
  "link_levels pre isrt l lvl sl =
     (if l < lvl then do {
        p \<leftarrow> pre_at pre l;
        q \<leftarrow> get_forward sl p l;
        sl \<leftarrow> set_forward sl isrt l q;
        sl \<leftarrow> set_forward sl p l (Some isrt);
        link_levels pre isrt (Suc l) lvl sl }
      else Some sl)"
  by pat_completeness auto
termination
  by (relation "measure (\<lambda>(pre, isrt, l, lvl, sl). lvl - l)") auto

declare link_levels.simps [simp del]

definition M_insert ::
  "pre_array \<Rightarrow> 'k \<Rightarrow> 'v \<Rightarrow> ('k, 'v) skiplist \<Rightarrow> (addr \<times> ('k, 'v) skiplist) option" where
  "M_insert pre k v sl = do {
     let (node_level, sl) = M_randomLevel sl;
     (isrt, sl) \<leftarrow> M_constructNode node_level k v sl;
     pre \<leftarrow> (if node_level > level_now sl
             then raise_pre (head sl) (level_now sl) node_level pre else Some pre);
     let sl = (if node_level > level_now sl then sl\<lparr>level_now := node_level\<rparr> else sl);
     sl \<leftarrow> link_levels pre isrt 0 node_level sl;
     Some (isrt, sl\<lparr>counter := Suc (counter sl)\<rparr>) }"

definition insert_kv ::
  "'k::linorder \<Rightarrow> 'v \<Rightarrow> ('k, 'v) skiplist \<Rightarrow> (addr option \<times> ('k, 'v) skiplist) option" where
  "insert_kv k v sl = do {
     pre \<leftarrow> M_findPrecursors sl k (replicate (max_level sl) None);
     p \<leftarrow> pre_at pre 0;
     nx \<leftarrow> get_forward sl p 0;
     b \<leftarrow> no_match sl nx k;
     (if b then do { (i, sl) \<leftarrow> M_insert pre k v sl; Some (Some i, sl) }
      else Some (None, sl)) }"

text \<open>
  \<open>operator[]\<close>: the address of the node whose value the returned reference denotes, a
  default value \<open>dv\<close> being inserted when the key is new.
\<close>

definition operator_index ::
  "'v \<Rightarrow> 'k::linorder \<Rightarrow> ('k, 'v) skiplist \<Rightarrow> (addr \<times> ('k, 'v) skiplist) option" where
  "operator_index dv k sl = do {
     pre \<leftarrow> M_findPrecursors sl k (replicate (max_level sl) None);
     p \<leftarrow> pre_at pre 0;
     nx \<leftarrow> get_forward sl p 0;
     b \<leftarrow> no_match sl nx k;
     sl \<leftarrow> (if b then do { (i, sl) \<leftarrow> M_insert pre k dv sl; Some sl } else Some sl);
     nx \<leftarrow> get_forward sl p 0;
     r \<leftarrow> nx;
     Some (r, sl) }"

text \<open>Assignment through that reference, as in \<open>_M_data[key] = value\<close>.\<close>

definition assign_value :: "addr \<Rightarrow> 'v \<Rightarrow> ('k, 'v) skiplist \<Rightarrow> ('k, 'v) skiplist option" where
  "assign_value p v sl = do {
     n \<leftarrow> cells sl p;
     Some (sl\<lparr>cells := (cells sl)(p \<mapsto> n\<lparr>nvalue := v\<rparr>)\<rparr>) }"

definition index_assign ::
  "'v \<Rightarrow> 'k::linorder \<Rightarrow> 'v \<Rightarrow> ('k, 'v) skiplist \<Rightarrow> ('k, 'v) skiplist option" where
  "index_assign dv k v sl = do {
     (p, sl) \<leftarrow> operator_index dv k sl;
     assign_value p v sl }"

section \<open>Removal\<close>

text \<open>\<open>for(l = 0; l < _M_level_now; ++l){ if(pre[l]->forward[l] != rm) break; ... }\<close>\<close>

function unlink_levels ::
  "pre_array \<Rightarrow> addr \<Rightarrow> nat \<Rightarrow> nat \<Rightarrow> ('k, 'v) skiplist \<Rightarrow> ('k, 'v) skiplist option" where
  "unlink_levels pre rm l lvl sl =
     (if l < lvl then do {
        p \<leftarrow> pre_at pre l;
        q \<leftarrow> get_forward sl p l;
        (if q \<noteq> Some rm then Some sl
         else do {
           q \<leftarrow> get_forward sl rm l;
           sl \<leftarrow> set_forward sl p l q;
           unlink_levels pre rm (Suc l) lvl sl }) }
      else Some sl)"
  by pat_completeness auto
termination
  by (relation "measure (\<lambda>(pre, rm, l, lvl, sl). lvl - l)") auto

declare unlink_levels.simps [simp del]

text \<open>\<open>while(_M_level_now > 1 && nullptr == _M_head->forward[_M_level_now-1]) --_M_level_now;\<close>\<close>

fun shrink_level :: "('k, 'v) skiplist \<Rightarrow> nat \<Rightarrow> nat option" where
  "shrink_level sl (Suc (Suc n)) = do {
     q \<leftarrow> get_forward sl (head sl) (Suc n);
     if q = None then shrink_level sl (Suc n) else Some (Suc (Suc n)) }"
| "shrink_level sl n = Some n"

definition remove_kv :: "'k::linorder \<Rightarrow> ('k, 'v) skiplist \<Rightarrow> ('k, 'v) skiplist option" where
  "remove_kv k sl = do {
     pre \<leftarrow> M_findPrecursors sl k (replicate (max_level sl) None);
     p \<leftarrow> pre_at pre 0;
     rm \<leftarrow> get_forward sl p 0;
     b \<leftarrow> no_match sl rm k;
     (if b then Some sl
      else do {
        r \<leftarrow> rm;
        sl \<leftarrow> unlink_levels pre r 0 (level_now sl) sl;
        let sl = sl\<lparr>counter := counter sl - 1\<rparr>;
        lvl \<leftarrow> shrink_level sl (level_now sl);
        M_destroyNode r (sl\<lparr>level_now := lvl\<rparr>) }) }"

definition remove_iter :: "addr \<Rightarrow> ('k::linorder, 'v) skiplist \<Rightarrow> ('k, 'v) skiplist option" where
  "remove_iter p sl = do { (k, v) \<leftarrow> iter_deref sl p; remove_kv k sl }"

text \<open>\<open>clear\<close>: the upper levels of the head are reset, the bottom chain is freed.\<close>

function fill_null :: "nat \<Rightarrow> nat \<Rightarrow> ('k, 'v) skiplist \<Rightarrow> ('k, 'v) skiplist option" where
  "fill_null l lvl sl =
     (if l < lvl then do { sl \<leftarrow> set_forward sl (head sl) l None; fill_null (Suc l) lvl sl }
      else Some sl)"
  by pat_completeness auto
termination
  by (relation "measure (\<lambda>(l, lvl, sl). lvl - l)") auto

declare fill_null.simps [simp del]

partial_function (option) drain :: "('k, 'v) skiplist \<Rightarrow> ('k, 'v) skiplist option" where
  "drain sl = do {
     q \<leftarrow> get_forward sl (head sl) 0;
     (case q of
        None \<Rightarrow> Some sl
      | Some rm \<Rightarrow> do {
          nx \<leftarrow> get_forward sl rm 0;
          sl \<leftarrow> set_forward sl (head sl) 0 nx;
          drain (sl\<lparr>cells := (cells sl)(rm := None)\<rparr>) }) }"

declare drain.simps [code]

definition clear_kv :: "('k, 'v) skiplist \<Rightarrow> ('k, 'v) skiplist option" where
  "clear_kv sl = do {
     sl \<leftarrow> (if level_now sl > 1 then fill_null 1 (level_now sl) sl else Some sl);
     sl \<leftarrow> drain sl;
     Some (sl\<lparr>level_now := 1, counter := 0\<rparr>) }"

section \<open>Dump and load\<close>

text \<open>
  \<open>dumper\<close> holds the keys and the values in two vectors. The Boost text archive that
  turns it into a string and back is not part of the repository: it is the parameter
  \<open>enc\<close>/\<open>dec\<close> (\<open>dec\<close> answers \<open>None\<close> where Boost throws).
\<close>

record ('k, 'v) dumper =
  dkeys :: "'k list"
  dvalues :: "'v list"

definition dumper_push :: "('k, 'v) sl_node \<Rightarrow> ('k, 'v) dumper \<Rightarrow> ('k, 'v) dumper" where
  "dumper_push n d = d\<lparr>dkeys := dkeys d @ [nkey n], dvalues := dvalues d @ [nvalue n]\<rparr>"

definition dumper_clear :: "('k, 'v) dumper" where
  "dumper_clear = \<lparr>dkeys = [], dvalues = []\<rparr>"

partial_function (option) dump_loop ::
  "('k, 'v) skiplist \<Rightarrow> addr option \<Rightarrow> ('k, 'v) dumper \<Rightarrow> ('k, 'v) dumper option" where
  "dump_loop sl p d =
     (case p of
        None \<Rightarrow> Some d
      | Some a \<Rightarrow> do {
          n \<leftarrow> cells sl a;
          q \<leftarrow> arr_get (forward n) 0;
          dump_loop sl q (dumper_push n d) })"

declare dump_loop.simps [code]

definition dump_kv :: "(('k, 'v) dumper \<Rightarrow> string) \<Rightarrow> ('k, 'v) skiplist \<Rightarrow> string option" where
  "dump_kv enc sl = do {
     p \<leftarrow> get_forward sl (head sl) 0;
     d \<leftarrow> dump_loop sl p dumper_clear;
     Some (enc d) }"

function load_loop ::
  "('k::linorder, 'v) dumper \<Rightarrow> nat \<Rightarrow> ('k, 'v) skiplist \<Rightarrow> ('k, 'v) skiplist option" where
  "load_loop d i sl =
     (if i < length (dkeys d) then do {
        v \<leftarrow> arr_get (dvalues d) i;
        (r, sl) \<leftarrow> insert_kv (dkeys d ! i) v sl;
        load_loop d (Suc i) sl }
      else Some sl)"
  by pat_completeness auto
termination
  by (relation "measure (\<lambda>(d, i, sl). length (dkeys d) - i)") auto

declare load_loop.simps [simp del]

definition load_kv ::
  "(string \<Rightarrow> ('k::linorder, 'v) dumper option) \<Rightarrow> string \<Rightarrow> ('k, 'v) skiplist
    \<Rightarrow> ('k, 'v) skiplist option" where
  "load_kv dec str sl =
     (if str = [] then Some sl else do { d \<leftarrow> dec str; load_loop d 0 sl })"

end
