(* ===== verification/KvSkipListInv.thy ===== *)
theory KvSkipListInv
  imports KvSkipList
begin

text \<open>
  The representation invariant of the skip list and the facts about its loops.
  \<open>repr sl xs\<close> says that the heap of \<open>sl\<close> holds the nodes \<open>xs\<close>, strictly sorted by key,
  and that following \<open>forward[l]\<close> from the head visits exactly the nodes of \<open>xs\<close> whose
  level exceeds \<open>l\<close>, for every level of the head.
\<close>

section \<open>Views of the heap\<close>

definition nxt :: "('k, 'v) skiplist \<Rightarrow> nat \<Rightarrow> addr \<Rightarrow> addr option" where
  "nxt sl l p =
     (case cells sl p of None \<Rightarrow> None
      | Some n \<Rightarrow> if l < length (forward n) then forward n ! l else None)"

definition shape :: "('k, 'v) skiplist \<Rightarrow> addr \<Rightarrow> ('k \<times> 'v \<times> nat \<times> nat) option" where
  "shape sl p = map_option (\<lambda>n. (nkey n, nvalue n, nlevel n, length (forward n))) (cells sl p)"

definition keyof :: "('k, 'v) skiplist \<Rightarrow> addr \<Rightarrow> 'k" where
  "keyof sl p = fst (the (shape sl p))"

definition valof :: "('k, 'v) skiplist \<Rightarrow> addr \<Rightarrow> 'v" where
  "valof sl p = fst (snd (the (shape sl p)))"

definition levof :: "('k, 'v) skiplist \<Rightarrow> addr \<Rightarrow> nat" where
  "levof sl p = fst (snd (snd (the (shape sl p))))"

text \<open>\<open>slots sl p n\<close>: a node lives at \<open>p\<close>, its level is \<open>n\<close> and so is its array's length.\<close>

definition slots :: "('k, 'v) skiplist \<Rightarrow> addr \<Rightarrow> nat \<Rightarrow> bool" where
  "slots sl p n \<longleftrightarrow> (\<exists>k v. shape sl p = Some (k, v, n, n))"

definition same_shape :: "('k, 'v) skiplist \<Rightarrow> ('k, 'v) skiplist \<Rightarrow> bool" where
  "same_shape s t \<longleftrightarrow> shape t = shape s \<and> head t = head s \<and> level_now t = level_now s
     \<and> counter t = counter s \<and> max_level t = max_level s \<and> fresh t = fresh s"

definition at_level :: "('k, 'v) skiplist \<Rightarrow> nat \<Rightarrow> addr list \<Rightarrow> addr list" where
  "at_level sl l xs = filter (\<lambda>x. l < levof sl x) xs"

definition contents :: "('k, 'v) skiplist \<Rightarrow> addr list \<Rightarrow> ('k \<times> 'v) list" where
  "contents sl xs = map (\<lambda>x. (keyof sl x, valof sl x)) xs"

lemma same_shape_refl [simp]: "same_shape s s"
  by (simp add: same_shape_def)

lemma same_shape_trans: "same_shape s t \<Longrightarrow> same_shape t u \<Longrightarrow> same_shape s u"
  by (simp add: same_shape_def)

lemma same_shape_views:
  assumes "same_shape s t"
  shows "keyof t = keyof s" "valof t = valof s" "levof t = levof s" "slots t = slots s"
    and "at_level t = at_level s" "contents t = contents s"
proof -
  have e: "shape t = shape s" using assms by (simp add: same_shape_def)
  show k: "keyof t = keyof s" and v: "valof t = valof s" and l: "levof t = levof s"
    by (intro ext, simp add: keyof_def valof_def levof_def e)+
  show "slots t = slots s" by (intro ext) (simp add: slots_def e)
  show "at_level t = at_level s" by (intro ext) (simp add: at_level_def l)
  show "contents t = contents s" by (intro ext) (simp add: contents_def k v)
qed

lemma slots_cells:
  assumes "slots sl p n"
  obtains c where "cells sl p = Some c" "length (forward c) = n" "nlevel c = n"
    "nkey c = keyof sl p" "nvalue c = valof sl p" "levof sl p = n"
proof -
  obtain k v where s: "shape sl p = Some (k, v, n, n)" using assms by (auto simp: slots_def)
  then obtain c where c: "cells sl p = Some c" "length (forward c) = n" "nlevel c = n"
    "nkey c = k" "nvalue c = v"
    by (auto simp: shape_def)
  have "nkey c = keyof sl p" "nvalue c = valof sl p" "levof sl p = n"
    using s c by (simp_all add: keyof_def valof_def levof_def)
  with c(1-3) show thesis by (rule that)
qed

lemma slots_levof: "slots sl p n \<Longrightarrow> levof sl p = n"
  by (auto elim: slots_cells)

lemma get_forward_slots [array_simps]:
  "slots sl p n \<Longrightarrow> l < n \<Longrightarrow> get_forward sl p l = Some (nxt sl l p)"
  by (erule slots_cells) (simp add: get_forward_def nxt_def arr_get_def)

lemma set_forward_slots:
  assumes "slots sl p n" "l < n"
  obtains t where "set_forward sl p l q = Some t" "same_shape sl t"
    "nxt t l = (nxt sl l)(p := q)" "\<And>j. j \<noteq> l \<Longrightarrow> nxt t j = nxt sl j"
proof -
  obtain c where c: "cells sl p = Some c" "length (forward c) = n"
    using assms(1) by (rule slots_cells)
  let ?t = "sl\<lparr>cells := (cells sl)(p \<mapsto> c\<lparr>forward := (forward c)[l := q]\<rparr>)\<rparr>"
  have "set_forward sl p l q = Some ?t"
    using c assms(2) by (simp add: set_forward_def arr_set_def)
  moreover have "same_shape sl ?t"
    using c by (auto simp: same_shape_def shape_def fun_eq_iff)
  moreover have "nxt ?t l = (nxt sl l)(p := q)"
    using c assms(2) by (auto simp: nxt_def fun_eq_iff)
  moreover have "nxt ?t j = nxt sl j" if "j \<noteq> l" for j
    using c that by (auto simp: nxt_def fun_eq_iff)
  ultimately show thesis by (rule that)
qed

section \<open>The invariant\<close>

definition repr :: "('k::linorder, 'v) skiplist \<Rightarrow> addr list \<Rightarrow> bool" where
  "repr sl xs \<longleftrightarrow>
     1 \<le> level_now sl \<and> level_now sl \<le> max_level sl
     \<and> slots sl (head sl) (max_level sl)
     \<and> (\<forall>x \<in> set xs. \<exists>n. slots sl x n \<and> 1 \<le> n \<and> n \<le> level_now sl)
     \<and> distinct (head sl # xs)
     \<and> (\<forall>a \<ge> fresh sl. cells sl a = None)
     \<and> (\<forall>l < max_level sl. linked (nxt sl l) (nxt sl l (head sl)) (at_level sl l xs))
     \<and> sorted_wrt (<) (map (keyof sl) xs)
     \<and> counter sl = length xs
     \<and> (1 < level_now sl \<longrightarrow> (\<exists>x \<in> set xs. levof sl x = level_now sl))"

definition sl_inv :: "('k::linorder, 'v) skiplist \<Rightarrow> bool" where
  "sl_inv sl \<longleftrightarrow> (\<exists>xs. repr sl xs)"

text \<open>The abstract map: what iterating from \<open>begin()\<close> to \<open>end()\<close> finds.\<close>

definition entries :: "('k, 'v) skiplist \<Rightarrow> ('k \<times> 'v) list option" where
  "entries sl = do {
     p \<leftarrow> begin_kv sl;
     d \<leftarrow> dump_loop sl p dumper_clear;
     Some (zip (dkeys d) (dvalues d)) }"

definition abs_kv :: "('k, 'v) skiplist \<Rightarrow> 'k \<Rightarrow> 'v option" where
  "abs_kv sl = (case entries sl of None \<Rightarrow> Map.empty | Some es \<Rightarrow> map_of es)"

lemma repr_levels:
  assumes "repr sl xs"
  shows "1 \<le> level_now sl" "level_now sl \<le> max_level sl" "0 < max_level sl"
    "slots sl (head sl) (max_level sl)"
  using assms by (auto simp: repr_def)

lemma repr_node:
  assumes "repr sl xs" "x \<in> set xs"
  shows "slots sl x (levof sl x)" "1 \<le> levof sl x" "levof sl x \<le> level_now sl"
proof -
  obtain n where "slots sl x n" "1 \<le> n" "n \<le> level_now sl"
    using assms by (auto simp: repr_def)
  then show "slots sl x (levof sl x)" "1 \<le> levof sl x" "levof sl x \<le> level_now sl"
    by (simp_all add: slots_levof)
qed

lemma repr_linked:
  "repr sl xs \<Longrightarrow> l < max_level sl
    \<Longrightarrow> linked (nxt sl l) (nxt sl l (head sl)) (at_level sl l xs)"
  by (simp add: repr_def)

lemma repr_level0: "repr sl xs \<Longrightarrow> at_level sl 0 xs = xs"
  using repr_node(2) by (fastforce simp: at_level_def filter_id_conv)

lemma repr_bottom: "repr sl xs \<Longrightarrow> linked (nxt sl 0) (nxt sl 0 (head sl)) xs"
  using repr_linked [of sl xs 0] repr_levels(3) repr_level0 by metis

lemma repr_head: "repr sl xs \<Longrightarrow> head sl \<notin> set xs" "repr sl xs \<Longrightarrow> distinct xs"
  by (auto simp: repr_def)

lemma at_level_append: "at_level sl l (A @ B) = at_level sl l A @ at_level sl l B"
  by (simp add: at_level_def)

lemma at_level_set: "set (at_level sl l A) = {x \<in> set A. l < levof sl x}"
  by (simp add: at_level_def)

lemma repr_slot:
  assumes "repr sl xs" "l < max_level sl" "x = head sl \<or> x \<in> set (at_level sl l xs)"
  obtains n where "slots sl x n" "l < n"
  using assms repr_levels(4) repr_node(1) by (fastforce simp: at_level_set)

section \<open>The search loops\<close>

text \<open>The nodes before a key, and the last of them at a level (the precursor).\<close>

definition before :: "('k::linorder, 'v) skiplist \<Rightarrow> 'k \<Rightarrow> addr list \<Rightarrow> addr list" where
  "before sl k xs = filter (\<lambda>x. keyof sl x < k) xs"

definition from_key :: "('k::linorder, 'v) skiplist \<Rightarrow> 'k \<Rightarrow> addr list \<Rightarrow> addr list" where
  "from_key sl k xs = filter (\<lambda>x. \<not> keyof sl x < k) xs"

definition precursor :: "('k::linorder, 'v) skiplist \<Rightarrow> 'k \<Rightarrow> addr list \<Rightarrow> nat \<Rightarrow> addr" where
  "precursor sl k xs l = last (head sl # at_level sl l (before sl k xs))"

lemma repr_split: "repr sl xs \<Longrightarrow> xs = before sl k xs @ from_key sl k xs"
  unfolding before_def from_key_def repr_def by (rule sorted_split_filter) blast

lemma before_key: "x \<in> set (before sl k xs) \<Longrightarrow> keyof sl x < k"
  and before_sub: "x \<in> set (before sl k xs) \<Longrightarrow> x \<in> set xs"
  and from_key_key: "x \<in> set (from_key sl k xs) \<Longrightarrow> \<not> keyof sl x < k"
  and from_key_sub: "x \<in> set (from_key sl k xs) \<Longrightarrow> x \<in> set xs"
  by (auto simp: before_def from_key_def)

lemma advance_chain:
  assumes "linked (nxt sl l) (nxt sl l cur) (S @ T)"
    and "\<And>x. x \<in> set (cur # S @ T) \<Longrightarrow> \<exists>n. slots sl x n \<and> l < n"
    and "\<And>x. x \<in> set S \<Longrightarrow> keyof sl x < k"
    and "\<And>y ys. T = y # ys \<Longrightarrow> \<not> keyof sl y < k"
  shows "advance sl k l cur = Some (last (cur # S))"
  using assms
proof (induction S arbitrary: cur)
  case Nil
  obtain n where n: "slots sl cur n" "l < n" using Nil.prems(2) [of cur] by auto
  show ?case
  proof (cases T)
    case Nil
    with \<open>linked _ _ ([] @ T)\<close> n show ?thesis
      by (subst advance.simps) (simp add: get_forward_slots)
  next
    case (Cons y ys)
    obtain m where "slots sl y m" using Nil.prems(2) [of y] Cons by auto
    then obtain c where c: "cells sl y = Some c" "nkey c = keyof sl y" by (rule slots_cells)
    have "nxt sl l cur = Some y" using Nil.prems(1) Cons by simp
    moreover have "\<not> keyof sl y < k" using Nil.prems(4) Cons by simp
    ultimately show ?thesis
      using n c by (subst advance.simps) (simp add: get_forward_slots)
  qed
next
  case (Cons x S)
  obtain n where n: "slots sl cur n" "l < n" using Cons.prems(2) [of cur] by auto
  obtain m where "slots sl x m" using Cons.prems(2) [of x] by auto
  then obtain c where c: "cells sl x = Some c" "nkey c = keyof sl x" by (rule slots_cells)
  have "advance sl k l x = Some (last (x # S))"
    by (rule Cons.IH) (use Cons.prems in auto)
  moreover have "nxt sl l cur = Some x" "keyof sl x < k" using Cons.prems by auto
  ultimately show ?case
    using n c by (subst advance.simps) (simp add: get_forward_slots)
qed

lemma advance_repr:
  assumes R: "repr sl xs" and l: "l < max_level sl"
    and cur: "cur = head sl \<or> cur \<in> set (at_level sl l (before sl k xs))"
  shows "advance sl k l cur = Some (precursor sl k xs l)"
proof -
  let ?A = "at_level sl l (before sl k xs)" and ?B = "at_level sl l (from_key sl k xs)"
  have AB: "at_level sl l xs = ?A @ ?B"
    using repr_split [OF R, of k] at_level_append by metis
  have lnk: "linked (nxt sl l) (nxt sl l (head sl)) (?A @ ?B)"
    using repr_linked [OF R l] AB by simp
  have sl: "\<exists>n. slots sl x n \<and> l < n" if "x = head sl \<or> x \<in> set (?A @ ?B)" for x
    using that repr_slot [OF R l, of x] AB by (metis)
  have A: "\<And>x. x \<in> set ?A \<Longrightarrow> keyof sl x < k"
    using before_key by (fastforce simp: at_level_set)
  have B: "\<not> keyof sl y < k" if "?B = y # ys" for y ys
  proof -
    from that have "y \<in> set ?B" by simp
    then show ?thesis using from_key_key by (fastforce simp: at_level_set)
  qed
  show ?thesis
  proof (cases "cur = head sl")
    case True
    show ?thesis unfolding precursor_def True
      by (rule advance_chain [of sl l "head sl" ?A ?B]) (use lnk sl A B in auto)
  next
    case False
    with cur obtain S1 S2 where S: "?A = S1 @ cur # S2" by (meson split_list)
    have "linked (nxt sl l) (nxt sl l cur) (S2 @ ?B)"
      using lnk S linked_tail [of "nxt sl l" "head sl" S1 cur "S2 @ ?B"] by simp
    then have "advance sl k l cur = Some (last (cur # S2))"
      by (rule advance_chain [of sl l cur S2 ?B]) (use sl A B S in auto)
    moreover have "last (cur # S2) = precursor sl k xs l"
      by (simp add: precursor_def S)
    ultimately show ?thesis by simp
  qed
qed

lemma precursor_lower:
  "precursor sl k xs (Suc l) = head sl \<or> precursor sl k xs (Suc l) \<in> set (at_level sl l (before sl k xs))"
  using last_Cons_in [of "head sl" "at_level sl (Suc l) (before sl k xs)"]
  by (auto simp: precursor_def at_level_set)

lemma findPrecursors_loop_repr:
  assumes "repr sl xs" "l < max_level sl" "l < length pre"
    and "cur = head sl \<or> cur \<in> set (at_level sl l (before sl k xs))"
  shows "\<exists>pre'. findPrecursors_loop sl k l cur pre = Some pre' \<and> length pre' = length pre
           \<and> (\<forall>j \<le> l. pre' ! j = Some (precursor sl k xs j))
           \<and> (\<forall>j > l. pre' ! j = pre ! j)"
  using assms
proof (induction l arbitrary: cur pre)
  case 0
  then show ?case by (simp add: advance_repr arr_set_def)
next
  case (Suc l)
  let ?p = "precursor sl k xs (Suc l)" and ?pre = "pre[Suc l := Some (precursor sl k xs (Suc l))]"
  have step: "findPrecursors_loop sl k (Suc l) cur pre = findPrecursors_loop sl k l ?p ?pre"
    using Suc.prems by (simp add: advance_repr arr_set_def)
  have "l < max_level sl" "l < length ?pre" using Suc.prems by simp_all
  from Suc.IH [OF Suc.prems(1) this precursor_lower]
  obtain pre' where pre': "findPrecursors_loop sl k l ?p ?pre = Some pre'"
    "length pre' = length ?pre" "\<forall>j \<le> l. pre' ! j = Some (precursor sl k xs j)"
    "\<forall>j > l. pre' ! j = ?pre ! j"
    by blast
  have "pre' ! j = Some (precursor sl k xs j)" if "j \<le> Suc l" for j
  proof (cases "j = Suc l")
    case True
    then show ?thesis using pre'(4) Suc.prems(3) by simp
  next
    case False
    then show ?thesis using pre'(3) that by simp
  qed
  moreover have "pre' ! j = pre ! j" if "j > Suc l" for j
    using pre'(4) that by simp
  ultimately show ?case using step pre'(1,2) by auto
qed

lemma M_findPrecursors_array:
  assumes R: "repr sl xs" and n: "level_now sl \<le> n"
  obtains pre where "M_findPrecursors sl k (replicate n None) = Some pre"
    "length pre = n" "\<And>j. j < level_now sl \<Longrightarrow> pre_at pre j = Some (precursor sl k xs j)"
proof -
  have "level_now sl - 1 < max_level sl" "level_now sl - 1 < length (replicate n None)"
    using repr_levels [OF R] n by simp_all
  from findPrecursors_loop_repr [OF R this, of "head sl" k]
  obtain pre where "M_findPrecursors sl k (replicate n None) = Some pre"
    "length pre = n" "\<forall>j \<le> level_now sl - 1. pre ! j = Some (precursor sl k xs j)"
    by (auto simp: M_findPrecursors_def)
  then show thesis
    using that repr_levels [OF R] n by (auto simp: pre_at_def arr_get_def)
qed

lemma M_findPrecursors_repr:
  assumes R: "repr sl xs"
  obtains pre where "M_findPrecursors sl k (replicate (max_level sl) None) = Some pre"
    "length pre = max_level sl"
    "\<And>j. j < level_now sl \<Longrightarrow> pre_at pre j = Some (precursor sl k xs j)"
  using M_findPrecursors_array [OF R repr_levels(2) [OF R]] by blast

lemma find_loop_repr:
  assumes "repr sl xs" "l < max_level sl"
    and "cur = head sl \<or> cur \<in> set (at_level sl l (before sl k xs))"
  shows "find_loop sl k l cur = Some (precursor sl k xs 0)"
  using assms
proof (induction l arbitrary: cur)
  case 0
  then show ?case by (simp add: advance_repr)
next
  case (Suc l)
  then show ?case using precursor_lower [of sl k xs l] by (simp add: advance_repr)
qed

text \<open>What follows the bottom-level precursor: the first node not before the key.\<close>

definition first_of :: "addr list \<Rightarrow> addr option" where
  "first_of xs = (case xs of [] \<Rightarrow> None | x # _ \<Rightarrow> Some x)"

lemma precursor_next:
  assumes R: "repr sl xs" and l: "l < max_level sl"
  shows "get_forward sl (precursor sl k xs l) l = Some (first_of (at_level sl l (from_key sl k xs)))"
    and "nxt sl l (precursor sl k xs l) = first_of (at_level sl l (from_key sl k xs))"
proof -
  let ?A = "at_level sl l (before sl k xs)" and ?B = "at_level sl l (from_key sl k xs)"
  have AB: "at_level sl l xs = ?A @ ?B"
    using repr_split [OF R, of k] at_level_append by metis
  then have "linked (nxt sl l) (nxt sl l (precursor sl k xs l)) ?B"
    using repr_linked [OF R l] linked_from [of "nxt sl l" "head sl" ?A ?B]
    by (simp add: precursor_def)
  then show n: "nxt sl l (precursor sl k xs l) = first_of ?B"
    by (cases ?B) (auto simp: first_of_def)
  have "precursor sl k xs l = head sl \<or> precursor sl k xs l \<in> set (at_level sl l xs)"
    using last_Cons_in [of "head sl" ?A] AB by (auto simp: precursor_def)
  then obtain m where "slots sl (precursor sl k xs l) m" "l < m"
    by (rule repr_slot [OF R l])
  then show "get_forward sl (precursor sl k xs l) l = Some (first_of ?B)"
    using n by (simp add: get_forward_slots)
qed

lemma at_level0_sub: "repr sl xs \<Longrightarrow> set ys \<subseteq> set xs \<Longrightarrow> at_level sl 0 ys = ys"
  using repr_node(2) by (fastforce simp: at_level_def filter_id_conv)

lemma bottom_next:
  assumes R: "repr sl xs"
  shows "get_forward sl (precursor sl k xs 0) 0 = Some (first_of (from_key sl k xs))"
proof -
  have "set (from_key sl k xs) \<subseteq> set xs" using from_key_sub by fast
  then show ?thesis
    using precursor_next(1) [OF R repr_levels(3) [OF R], of k] at_level0_sub [OF R] by simp
qed

lemma no_match_repr:
  assumes R: "repr sl xs"
  shows "no_match sl (first_of (from_key sl k xs)) k
           = Some (\<forall>x ys. from_key sl k xs = x # ys \<longrightarrow> keyof sl x \<noteq> k)"
proof (cases "from_key sl k xs")
  case Nil
  then show ?thesis by (simp add: no_match_def first_of_def)
next
  case (Cons x ys)
  then have x: "x \<in> set xs" "\<not> keyof sl x < k" using from_key_sub [of x sl k xs] from_key_key [of x sl k xs]
    by simp_all
  obtain c where "cells sl x = Some c" "nkey c = keyof sl x"
    using repr_node(1) [OF R x(1)] by (rule slots_cells)
  then show ?thesis using Cons x by (auto simp: no_match_def first_of_def)
qed

end
