(* ===== verification/KvSkipListUpd.thy ===== *)
theory KvSkipListUpd
  imports KvSkipListInv
begin

text \<open>
  The updating operations of the skip list keep its representation invariant: linking a
  new node, unlinking one, overwriting a value and clearing the list.
\<close>

section \<open>The random level\<close>

lemma M_randomLevel_loop_bounds:
  "lvl \<le> maxl \<Longrightarrow>
    lvl \<le> fst (M_randomLevel_loop maxl c pos lvl) \<and> fst (M_randomLevel_loop maxl c pos lvl) \<le> maxl"
proof (induction maxl c pos lvl rule: M_randomLevel_loop.induct)
  case (1 maxl c pos lvl)
  show ?case
  proof (cases "c pos \<and> lvl < maxl")
    case True
    with 1 show ?thesis by (subst (1 2) M_randomLevel_loop.simps) auto
  next
    case False
    with "1.prems" show ?thesis by (subst (1 2) M_randomLevel_loop.simps) auto
  qed
qed

lemma M_randomLevel_cases:
  assumes "0 < max_level sl"
  obtains lvl n where "M_randomLevel sl = (lvl, sl\<lparr>tossed := n\<rparr>)" "1 \<le> lvl" "lvl \<le> max_level sl"
proof -
  obtain lvl n where "M_randomLevel_loop (max_level sl) (coin sl) (tossed sl) 1 = (lvl, n)"
    by (cases "M_randomLevel_loop (max_level sl) (coin sl) (tossed sl) 1")
  then show thesis
    using that [of lvl n] M_randomLevel_loop_bounds [of 1 "max_level sl" "coin sl" "tossed sl"] assms
    by (auto simp: M_randomLevel_def)
qed

section \<open>Linking and unlinking level by level\<close>

lemma raise_pre_ok:
  assumes "length pre = m" "lvl \<le> m" "l \<le> lvl"
  obtains pre' where "raise_pre h l lvl pre = Some pre'" "length pre' = m"
    "\<And>j. j < l \<Longrightarrow> pre_at pre' j = pre_at pre j"
    "\<And>j. l \<le> j \<Longrightarrow> j < lvl \<Longrightarrow> pre_at pre' j = Some h"
proof -
  have "\<exists>pre'. raise_pre h l lvl pre = Some pre' \<and> length pre' = m
    \<and> (\<forall>j < l. pre_at pre' j = pre_at pre j) \<and> (\<forall>j. l \<le> j \<longrightarrow> j < lvl \<longrightarrow> pre_at pre' j = Some h)"
    using assms
  proof (induction h l lvl pre rule: raise_pre.induct)
    case (1 h l lvl pre)
    show ?case
    proof (cases "l < lvl")
      case True
      let ?pre = "pre[l := Some h]"
      have set: "arr_set pre l (Some h) = Some ?pre" using True "1.prems" by (simp add: arr_set_def)
      from "1.IH" [OF True set] "1.prems" True
      obtain q where q: "raise_pre h (Suc l) lvl ?pre = Some q" "length q = m"
        "\<forall>j < Suc l. pre_at q j = pre_at ?pre j"
        "\<forall>j. Suc l \<le> j \<longrightarrow> j < lvl \<longrightarrow> pre_at q j = Some h" by auto
      have "pre_at q j = Some h" if "l \<le> j" "j < lvl" for j
        using q that "1.prems" True by (cases "j = l") (auto simp: pre_at_def arr_get_def)
      moreover have "pre_at q j = pre_at pre j" if "j < l" for j
        using q that by (auto simp: pre_at_def arr_get_def)
      ultimately show ?thesis using q set True by (subst raise_pre.simps) auto
    next
      case False
      with "1.prems" show ?thesis by (subst raise_pre.simps) auto
    qed
  qed
  then show thesis using that by blast
qed

lemma link_levels_ok:
  assumes "\<And>j. l \<le> j \<Longrightarrow> j < lvl \<Longrightarrow> pre_at pre j = Some (p j)"
    and "\<And>j. l \<le> j \<Longrightarrow> j < lvl \<Longrightarrow> \<exists>n. slots s (p j) n \<and> j < n"
    and "slots s a lvl" and "\<And>j. l \<le> j \<Longrightarrow> j < lvl \<Longrightarrow> p j \<noteq> a"
  shows "\<exists>t. link_levels pre a l lvl s = Some t \<and> same_shape s t
     \<and> (\<forall>j. nxt t j = (if l \<le> j \<and> j < lvl then (nxt s j)(a := nxt s j (p j), p j := Some a)
                       else nxt s j))"
  using assms
proof (induction pre a l lvl s rule: link_levels.induct)
  case (1 pre a l lvl s)
  show ?case
  proof (cases "l < lvl")
    case False
    then show ?thesis by (subst link_levels.simps) auto
  next
    case True
    obtain n where n: "slots s (p l) n" "l < n" using "1.prems"(2) True by blast
    have g: "pre_at pre l = Some (p l)" "get_forward s (p l) l = Some (nxt s l (p l))"
      using "1.prems"(1) True n by (auto simp: get_forward_slots)
    obtain s1 where s1: "set_forward s a l (nxt s l (p l)) = Some s1" "same_shape s s1"
      "nxt s1 l = (nxt s l)(a := nxt s l (p l))" "\<And>j. j \<noteq> l \<Longrightarrow> nxt s1 j = nxt s j"
      using set_forward_slots [OF "1.prems"(3) True] by metis
    have n1: "slots s1 (p l) n" using n s1(2) same_shape_views(4) by metis
    obtain s2 where s2: "set_forward s1 (p l) l (Some a) = Some s2" "same_shape s1 s2"
      "nxt s2 l = (nxt s1 l)(p l := Some a)" "\<And>j. j \<noteq> l \<Longrightarrow> nxt s2 j = nxt s1 j"
      using set_forward_slots [OF n1 n(2)] by metis
    have sh: "same_shape s s2" using s1(2) s2(2) by (rule same_shape_trans)
    then have "slots s2 = slots s" by (rule same_shape_views)
    then have "\<exists>t. link_levels pre a (Suc l) lvl s2 = Some t \<and> same_shape s2 t
      \<and> (\<forall>j. nxt t j = (if Suc l \<le> j \<and> j < lvl then (nxt s2 j)(a := nxt s2 j (p j), p j := Some a)
                        else nxt s2 j))"
      using "1.IH" [OF True g s1(1) s2(1)] "1.prems" by simp
    then obtain t where t: "link_levels pre a (Suc l) lvl s2 = Some t" "same_shape s2 t"
      "\<And>j. nxt t j = (if Suc l \<le> j \<and> j < lvl then (nxt s2 j)(a := nxt s2 j (p j), p j := Some a)
                      else nxt s2 j)"
      by blast
    have "nxt t j = (if l \<le> j \<and> j < lvl then (nxt s j)(a := nxt s j (p j), p j := Some a)
                     else nxt s j)" for j
      using t(3) [of j] s1(3,4) s2(3,4) True by (cases "j = l") auto
    then show ?thesis
      using True g s1(1) s2(1) t sh same_shape_trans
      by (subst link_levels.simps) auto
  qed
qed

lemma unlink_levels_ok:
  assumes "l \<le> lr" "lr \<le> lvl"
    and "\<And>j. l \<le> j \<Longrightarrow> j < lvl \<Longrightarrow> pre_at pre j = Some (p j)"
    and "\<And>j. l \<le> j \<Longrightarrow> j < lvl \<Longrightarrow> \<exists>n. slots s (p j) n \<and> j < n"
    and "slots s rm lr"
    and "\<And>j. l \<le> j \<Longrightarrow> j < lr \<Longrightarrow> nxt s j (p j) = Some rm"
    and "lr < lvl \<Longrightarrow> nxt s lr (p lr) \<noteq> Some rm"
  shows "\<exists>t. unlink_levels pre rm l lvl s = Some t \<and> same_shape s t
     \<and> (\<forall>j. nxt t j = (if l \<le> j \<and> j < lr then (nxt s j)(p j := nxt s j rm) else nxt s j))"
  using assms
proof (induction pre rm l lvl s rule: unlink_levels.induct)
  case (1 pre rm l lvl s)
  show ?case
  proof (cases "l < lvl")
    case False
    with "1.prems" show ?thesis by (subst unlink_levels.simps) auto
  next
    case True
    obtain n where n: "slots s (p l) n" "l < n" using "1.prems"(4) True by blast
    have g: "pre_at pre l = Some (p l)" "get_forward s (p l) l = Some (nxt s l (p l))"
      using "1.prems"(3) True n by (auto simp: get_forward_slots)
    show ?thesis
    proof (cases "l < lr")
      case False
      then have "l = lr" using "1.prems"(1) by simp
      with "1.prems"(7) True g show ?thesis by (subst unlink_levels.simps) auto
    next
      case lr: True
      have q: "\<not> nxt s l (p l) \<noteq> Some rm" and gr: "get_forward s rm l = Some (nxt s l rm)"
        using "1.prems"(5,6) lr by (auto simp: get_forward_slots)
      obtain s1 where s1: "set_forward s (p l) l (nxt s l rm) = Some s1" "same_shape s s1"
        "nxt s1 l = (nxt s l)(p l := nxt s l rm)" "\<And>j. j \<noteq> l \<Longrightarrow> nxt s1 j = nxt s j"
        using set_forward_slots [OF n] by metis
      have sl: "slots s1 = slots s" using s1(2) by (rule same_shape_views)
      have "\<exists>t. unlink_levels pre rm (Suc l) lvl s1 = Some t \<and> same_shape s1 t
        \<and> (\<forall>j. nxt t j = (if Suc l \<le> j \<and> j < lr then (nxt s1 j)(p j := nxt s1 j rm) else nxt s1 j))"
        using "1.IH" [OF True g q gr s1(1)] "1.prems" lr s1(4) sl by simp
      then obtain t where t: "unlink_levels pre rm (Suc l) lvl s1 = Some t" "same_shape s1 t"
        "\<And>j. nxt t j = (if Suc l \<le> j \<and> j < lr then (nxt s1 j)(p j := nxt s1 j rm) else nxt s1 j)"
        by blast
      have "nxt t j = (if l \<le> j \<and> j < lr then (nxt s j)(p j := nxt s j rm) else nxt s j)" for j
        using t(3) [of j] s1(3,4) lr by (cases "j = l") auto
      moreover have "unlink_levels pre rm l lvl s = unlink_levels pre rm (Suc l) lvl s1"
        using True g q gr s1(1) by (subst unlink_levels.simps) auto
      ultimately show ?thesis using t s1(2) same_shape_trans by metis
    qed
  qed
qed

section \<open>Insertion\<close>

text \<open>Facts about a view that differs from \<open>sl\<close> by one cell.\<close>

lemma shape_upd_views:
  assumes "shape t = (shape sl)(a := c)"
  shows "x \<noteq> a \<Longrightarrow> keyof t x = keyof sl x" "x \<noteq> a \<Longrightarrow> valof t x = valof sl x"
    "x \<noteq> a \<Longrightarrow> levof t x = levof sl x" "x \<noteq> a \<Longrightarrow> slots t x n = slots sl x n"
    "a \<notin> set ys \<Longrightarrow> at_level t l ys = at_level sl l ys"
    "a \<notin> set ys \<Longrightarrow> contents t ys = contents sl ys"
    "a \<notin> set ys \<Longrightarrow> map (keyof t) ys = map (keyof sl) ys"
proof -
  show k: "keyof t x = keyof sl x" and v: "valof t x = valof sl x"
    and l: "levof t x = levof sl x" if "x \<noteq> a" for x
    using that by (simp_all add: keyof_def valof_def levof_def assms)
  show "slots t x n = slots sl x n" if "x \<noteq> a" using that by (simp add: slots_def assms)
  show "at_level t l ys = at_level sl l ys" if "a \<notin> set ys"
    unfolding at_level_def by (rule filter_cong) (use l that in metis)+
  show "contents t ys = contents sl ys" if "a \<notin> set ys"
    unfolding contents_def by (rule map_cong [OF refl]) (use k v that in metis)
  show "map (keyof t) ys = map (keyof sl) ys" if "a \<notin> set ys"
    by (rule map_cong [OF refl]) (use k that in metis)
qed

lemma slots_mapped: "slots sl x n \<Longrightarrow> cells sl x \<noteq> None"
  by (auto simp: slots_def shape_def)

lemma shape_None: "shape sl x = None \<longleftrightarrow> cells sl x = None"
  by (simp add: shape_def)

lemma repr_fresh:
  assumes "repr sl xs"
  shows "fresh sl \<notin> set xs" "fresh sl \<noteq> head sl"
proof -
  have "cells sl (fresh sl) = None" using assms by (simp add: repr_def)
  then show "fresh sl \<notin> set xs" "fresh sl \<noteq> head sl"
    using repr_node(1) [OF assms] repr_levels(4) [OF assms] slots_mapped by fastforce+
qed

lemma precursor_top:
  assumes "repr sl xs" "level_now sl \<le> l"
  shows "precursor sl k xs l = head sl"
proof -
  have "\<not> l < levof sl x" if "x \<in> set (before sl k xs)" for x
    using repr_node(3) [OF assms(1) before_sub [OF that]] assms(2) by simp
  then show ?thesis by (simp add: precursor_def at_level_def filter_False)
qed

lemma before_sorted_insert:
  assumes "repr sl xs" and "\<And>x. x \<in> set xs \<Longrightarrow> keyof sl x \<noteq> k"
  shows "sorted_wrt (<) (map (keyof sl) (before sl k xs) @ k # map (keyof sl) (from_key sl k xs))"
proof -
  have "sorted_wrt (<) (map (keyof sl) (before sl k xs) @ map (keyof sl) (from_key sl k xs))"
    using assms(1) repr_split [OF assms(1), of k] unfolding repr_def by (metis map_append)
  moreover have "k < keyof sl x" if "x \<in> set (from_key sl k xs)" for x
    using from_key_key [OF that] assms(2) [OF from_key_sub [OF that]] by simp
  ultimately show ?thesis by (auto simp: sorted_wrt_append dest: before_key)
qed

lemma repr_insert:
  assumes R: "repr sl xs" and new: "\<And>x. x \<in> set xs \<Longrightarrow> keyof sl x \<noteq> k"
    and lvl: "1 \<le> lvl" "lvl \<le> max_level sl" and a: "a = fresh sl"
    and t: "head t = head sl" "max_level t = max_level sl" "level_now t = max (level_now sl) lvl"
      "counter t = Suc (counter sl)" "fresh t = Suc a" "shape t = (shape sl)(a \<mapsto> (k, v, lvl, lvl))"
    and n: "\<And>j. nxt t j = (if j < lvl then (nxt sl j)(a := nxt sl j (precursor sl k xs j),
                               precursor sl k xs j := Some a) else nxt sl j)"
  shows "repr t (before sl k xs @ a # from_key sl k xs)"
    and "contents t (before sl k xs @ a # from_key sl k xs)
           = contents sl (before sl k xs) @ (k, v) # contents sl (from_key sl k xs)"
proof -
  let ?A = "before sl k xs" and ?B = "from_key sl k xs"
  note L = repr_levels [OF R] and V = shape_upd_views [OF t(6)]
  have xs: "xs = ?A @ ?B" using R by (rule repr_split)
  then have mem: "x \<in> set xs" if "x \<in> set ?A \<union> set ?B" for x using that by (metis set_append)
  have aA: "a \<notin> set ?A" "a \<notin> set ?B" "a \<noteq> head sl"
    using repr_fresh [OF R] a mem by auto
  have new_a: "keyof t a = k" "valof t a = v" "levof t a = lvl" "slots t a lvl"
    by (simp_all add: keyof_def valof_def levof_def slots_def t(6))
  show "contents t (?A @ a # ?B) = contents sl ?A @ (k, v) # contents sl ?B"
    using V(6) aA new_a by (simp add: contents_def)
  have links: "linked (nxt t l) (nxt t l (head t)) (at_level t l (?A @ a # ?B))"
    if "l < max_level t" for l
  proof -
    have l: "l < max_level sl" using that t by simp
    have al: "at_level t l (?A @ a # ?B)
        = at_level sl l ?A @ (if l < lvl then [a] else []) @ at_level sl l ?B"
      using V(5) aA new_a by (simp add: at_level_def)
    have old: "linked (nxt sl l) (nxt sl l (head sl)) (at_level sl l ?A @ at_level sl l ?B)"
      using repr_linked [OF R l] xs at_level_append by metis
    have d: "distinct (head sl # at_level sl l ?A @ at_level sl l ?B)"
      "a \<notin> set (head sl # at_level sl l ?A @ at_level sl l ?B)"
      using repr_head [OF R] aA xs unfolding at_level_def
      by (metis (no_types, lifting) distinct.simps(2) distinct_filter filter_append filter_is_subset in_mono,
          auto)
    show ?thesis
    proof (cases "l < lvl")
      case True
      with n [of l] have "nxt t l = (nxt sl l)(a := nxt sl l (precursor sl k xs l),
          precursor sl k xs l := Some a)" by simp
      from linked_insert [OF old d, OF precursor_def this] True al t(1)
      show ?thesis by simp
    next
      case False
      with old al n [of l] t(1) show ?thesis by simp
    qed
  qed
  have srt: "sorted_wrt (<) (map (keyof t) (?A @ a # ?B))"
    using before_sorted_insert [OF R new] V(7) [OF aA(1)] V(7) [OF aA(2)] new_a
    by (simp del: map_eq_conv)
  have "\<exists>m. slots t x m \<and> 1 \<le> m \<and> m \<le> level_now t" if "x \<in> set (?A @ a # ?B)" for x
  proof (cases "x = a")
    case True
    then show ?thesis using new_a lvl t by auto
  next
    case False
    then have "x \<in> set xs" using that xs mem by auto
    from repr_node [OF R this] show ?thesis using V(4) False t(3) by fastforce
  qed
  moreover have "cells t b = None" if "fresh t \<le> b" for b
  proof -
    have "cells sl b = None" "b \<noteq> a" using that t(5) a R by (auto simp: repr_def)
    then show ?thesis using t(6) by (simp flip: shape_None)
  qed
  moreover have "distinct (head t # ?A @ a # ?B)"
  proof -
    have "distinct (head sl # ?A @ ?B)" using R xs by (metis repr_def)
    then show ?thesis using aA t(1) by auto
  qed
  moreover have "counter t = length (?A @ a # ?B)"
  proof -
    have "counter sl = length (?A @ ?B)" using R xs by (metis repr_def)
    then show ?thesis using t(4) by simp
  qed
  moreover have "\<exists>x \<in> set (?A @ a # ?B). levof t x = level_now t" if "1 < level_now t"
  proof (cases "level_now sl \<le> lvl")
    case True
    then show ?thesis using new_a t(3) by auto
  next
    case False
    then have "1 < level_now sl" using lvl by simp
    then obtain x where "x \<in> set xs" "levof sl x = level_now sl" using R by (auto simp: repr_def)
    moreover have "x \<noteq> a" using \<open>x \<in> set xs\<close> repr_fresh [OF R] a by auto
    ultimately show ?thesis using V(3) False t(3) xs by (metis (no_types, lifting) UnCI UnE
        list.set_intros(2) max.absorb3 not_le_imp_less set_append)
  qed
  ultimately show "repr t (?A @ a # ?B)"
    unfolding repr_def using links srt L lvl t V(4) aA by auto
qed

lemma M_insert_repr:
  assumes R: "repr sl xs" and new: "\<And>x. x \<in> set xs \<Longrightarrow> keyof sl x \<noteq> k"
    and pre: "length pre = max_level sl"
      "\<And>j. j < level_now sl \<Longrightarrow> pre_at pre j = Some (precursor sl k xs j)"
  obtains a t where "M_insert pre k v sl = Some (a, t)"
    "repr t (before sl k xs @ a # from_key sl k xs)"
    "contents t (before sl k xs @ a # from_key sl k xs)
       = contents sl (before sl k xs) @ (k, v) # contents sl (from_key sl k xs)"
    "get_forward t (precursor sl k xs 0) 0 = Some (Some a)" "max_level t = max_level sl"
proof -
  note L = repr_levels [OF R]
  obtain lvl n where lvl: "M_randomLevel sl = (lvl, sl\<lparr>tossed := n\<rparr>)" "1 \<le> lvl" "lvl \<le> max_level sl"
    using M_randomLevel_cases [OF L(3)] .
  let ?P = "precursor sl k xs" and ?a = "fresh sl"
  let ?node = "\<lparr>nkey = k, nvalue = v, nlevel = lvl, forward = replicate lvl None\<rparr>"
  let ?s2 = "sl\<lparr>tossed := n, cells := (cells sl)(fresh sl \<mapsto> ?node), fresh := Suc (fresh sl)\<rparr>"
  let ?s3 = "if lvl > level_now sl then ?s2\<lparr>level_now := lvl\<rparr> else ?s2"
  have con: "M_constructNode lvl k v (sl\<lparr>tossed := n\<rparr>) = Some (?a, ?s2)"
    using lvl(2) by (simp add: M_constructNode_def node_ctor_def)
  obtain pre' where pre': "(if lvl > level_now sl
      then raise_pre (head sl) (level_now sl) lvl pre else Some pre) = Some pre'"
    "\<And>j. j < lvl \<Longrightarrow> pre_at pre' j = Some (?P j)"
  proof (cases "lvl > level_now sl")
    case True
    then have "level_now sl \<le> lvl" by simp
    from raise_pre_ok [OF pre(1) lvl(3) this]
    obtain q where "raise_pre (head sl) (level_now sl) lvl pre = Some q"
      "\<And>j. j < level_now sl \<Longrightarrow> pre_at q j = pre_at pre j"
      "\<And>j. level_now sl \<le> j \<Longrightarrow> j < lvl \<Longrightarrow> pre_at q j = Some (head sl)"
      by blast
    moreover from this have "pre_at q j = Some (?P j)" if "j < lvl" for j
      using that pre(2) precursor_top [OF R, of j k] by (cases "j < level_now sl") auto
    ultimately show ?thesis using that True by auto
  next
    case False
    then show ?thesis using that pre(2) by auto
  qed
  have none: "cells sl ?a = None" using R by (simp add: repr_def)
  have sh3: "shape ?s3 = (shape sl)(?a \<mapsto> (k, v, lvl, lvl))"
    by (auto simp: shape_def fun_eq_iff)
  have nx3: "nxt ?s3 j = nxt sl j" for j
    using none by (auto simp: nxt_def fun_eq_iff)
  have Pj: "\<exists>m. slots sl (?P j) m \<and> j < m" "?P j \<noteq> ?a" if "j < lvl" for j
  proof -
    have j: "j < max_level sl" using that lvl(3) by simp
    have "?P j = head sl \<or> ?P j \<in> set (at_level sl j xs)"
      using last_Cons_in [of "head sl" "at_level sl j (before sl k xs)"] before_sub
      by (fastforce simp: precursor_def at_level_set)
    then show "\<exists>m. slots sl (?P j) m \<and> j < m" using repr_slot [OF R j] by metis
    then show "?P j \<noteq> ?a" using none slots_mapped by metis
  qed
  have "\<exists>t. link_levels pre' ?a 0 lvl ?s3 = Some t \<and> same_shape ?s3 t
     \<and> (\<forall>j. nxt t j = (if 0 \<le> j \<and> j < lvl then (nxt ?s3 j)(?a := nxt ?s3 j (?P j), ?P j := Some ?a)
                       else nxt ?s3 j))"
  proof (rule link_levels_ok)
    show "\<exists>m. slots ?s3 (?P j) m \<and> j < m" if "0 \<le> j" "j < lvl" for j
      using Pj [OF that(2)] shape_upd_views(4) [OF sh3] by metis
    show "slots ?s3 ?a lvl" using sh3 by (simp add: slots_def)
  qed (use pre'(2) Pj in auto)
  then obtain t0 where t0: "link_levels pre' ?a 0 lvl ?s3 = Some t0" "same_shape ?s3 t0"
    "\<And>j. nxt t0 j = (if j < lvl then (nxt sl j)(?a := nxt sl j (?P j), ?P j := Some ?a)
                       else nxt sl j)"
    unfolding nx3 by auto
  let ?t = "t0\<lparr>counter := Suc (counter t0)\<rparr>"
  have shp: "shape t0 = (shape sl)(?a \<mapsto> (k, v, lvl, lvl))"
    using t0(2) sh3 by (simp add: same_shape_def)
  have flds: "head t0 = head sl" "max_level t0 = max_level sl" "level_now t0 = max (level_now sl) lvl"
    "counter t0 = counter sl" "fresh t0 = Suc ?a"
    using t0(2) by (auto simp: same_shape_def)
  have "M_insert pre k v sl = Some (?a, ?t)"
    using lvl(1) con pre'(1) t0(1) by (auto simp: M_insert_def Let_def)
  moreover have "shape ?t = shape t0" "\<And>j. nxt ?t j = nxt t0 j"
    by (simp_all add: shape_def nxt_def fun_eq_iff)
  note new_t = repr_insert [OF R new lvl(2,3) refl, of ?t v, simplified this, simplified,
      OF flds shp t0(3)]
  moreover have "get_forward ?t (?P 0) 0 = Some (Some ?a)"
  proof -
    obtain m where m: "slots sl (?P 0) m" "0 < m" "?P 0 \<noteq> ?a" using Pj [of 0] lvl(2) by auto
    have "slots ?t (?P 0) m"
      using shape_upd_views(4) [OF shp] m \<open>shape ?t = shape t0\<close> by (simp add: slots_def)
    moreover have "nxt ?t 0 (?P 0) = Some ?a"
      using t0(3) [of 0] lvl(2) \<open>\<And>j. nxt ?t j = nxt t0 j\<close> by simp
    ultimately show ?thesis using m by (simp add: get_forward_slots)
  qed
  ultimately show thesis using that flds by simp
qed

end
