(* ===== verification/KvSkipListCorrect.thy ===== *)
theory KvSkipListCorrect
  imports KvSkipListUpd
begin

text \<open>
  Functional correctness of the skip list: every operation returns (no undefined
  behaviour, no endless loop) on a list that satisfies the invariant, keeps the
  invariant, and acts on the abstract map \<open>abs_kv\<close> as the corresponding map operation.
\<close>

section \<open>The abstract map\<close>

lemma dump_loop_linked:
  assumes "linked (nxt sl 0) p xs" and "\<And>x. x \<in> set xs \<Longrightarrow> \<exists>n. slots sl x n \<and> 0 < n"
  shows "dump_loop sl p d = Some (d\<lparr>dkeys := dkeys d @ map (keyof sl) xs,
                                   dvalues := dvalues d @ map (valof sl) xs\<rparr>)"
  using assms
proof (induction xs arbitrary: p d)
  case Nil
  then show ?case by (subst dump_loop.simps) simp
next
  case (Cons x xs)
  obtain n where "slots sl x n" "0 < n" using Cons.prems(2) by auto
  then obtain c where c: "cells sl x = Some c" "length (forward c) = n" "nkey c = keyof sl x"
    "nvalue c = valof sl x" by (auto elim: slots_cells)
  have "arr_get (forward c) 0 = Some (nxt sl 0 x)"
    using c \<open>0 < n\<close> by (auto simp: arr_get_def nxt_def)
  moreover have "p = Some x" using Cons.prems by simp
  moreover have "dump_loop sl (nxt sl 0 x) (dumper_push c d)
      = Some ((dumper_push c d)\<lparr>dkeys := dkeys (dumper_push c d) @ map (keyof sl) xs,
                                dvalues := dvalues (dumper_push c d) @ map (valof sl) xs\<rparr>)"
    using Cons.IH [of "nxt sl 0 x" "dumper_push c d"] Cons.prems by simp
  ultimately show ?case using c
    by (subst dump_loop.simps) (simp add: dumper_push_def)
qed

lemma repr_begin: "repr sl xs \<Longrightarrow> begin_kv sl = Some (nxt sl 0 (head sl))"
  using repr_levels [of sl xs] by (simp add: begin_kv_def get_forward_slots)

lemma dump_loop_repr:
  assumes "repr sl xs"
  shows "dump_loop sl (nxt sl 0 (head sl)) dumper_clear
           = Some \<lparr>dkeys = map (keyof sl) xs, dvalues = map (valof sl) xs\<rparr>"
proof -
  have "\<exists>n. slots sl x n \<and> 0 < n" if "x \<in> set xs" for x
    using repr_node(1,2) [OF assms that] by (meson less_le_trans zero_less_one)
  from dump_loop_linked [OF repr_bottom [OF assms] this, of dumper_clear]
  show ?thesis by (simp add: dumper_clear_def)
qed

lemma entries_repr: "repr sl xs \<Longrightarrow> entries sl = Some (contents sl xs)"
  by (simp add: entries_def repr_begin dump_loop_repr contents_def zip_map_map zip_same_conv_map)

lemma abs_repr: "repr sl xs \<Longrightarrow> abs_kv sl = map_of (contents sl xs)"
  by (simp add: abs_kv_def entries_repr)

lemma contents_append: "contents sl (A @ B) = contents sl A @ contents sl B"
  by (simp add: contents_def)

lemma before_contents: "\<forall>(a, b) \<in> set (contents sl (before sl k xs)). a < k"
  by (auto simp: contents_def dest: before_key)

lemma sorted_tail_greater:
  assumes "repr sl xs" "from_key sl k xs = x # ys" "y \<in> set ys"
  shows "keyof sl x < keyof sl y"
proof -
  have "sorted_wrt (<) (map (keyof sl) (before sl k xs @ x # ys))"
    using assms(1,2) repr_split [OF assms(1), of k] by (metis repr_def)
  then show ?thesis using assms(3) by (auto simp: sorted_wrt_append)
qed

lemma from_contents_greater:
  assumes "repr sl xs" and "\<And>x. x \<in> set xs \<Longrightarrow> keyof sl x \<noteq> k"
  shows "\<forall>(a, b) \<in> set (contents sl (from_key sl k xs)). k < a"
proof -
  have "k < keyof sl x" if "x \<in> set (from_key sl k xs)" for x
    using from_key_key [OF that] from_key_sub [OF that] assms(2) [of x] by simp
  then show ?thesis by (auto simp: contents_def)
qed

text \<open>The two cases every operation distinguishes.\<close>

lemma repr_cases [consumes 1, case_names absent present]:
  assumes R: "repr sl xs"
  obtains "\<And>x. x \<in> set xs \<Longrightarrow> keyof sl x \<noteq> k" "abs_kv sl k = None"
      "no_match sl (first_of (from_key sl k xs)) k = Some True"
  | r B where "from_key sl k xs = r # B" "keyof sl r = k" "abs_kv sl k = Some (valof sl r)"
      "no_match sl (first_of (from_key sl k xs)) k = Some False" "r \<in> set xs"
proof (cases "\<exists>r B. from_key sl k xs = r # B \<and> keyof sl r = k")
  case True
  then obtain r B where r: "from_key sl k xs = r # B" "keyof sl r = k" by blast
  have xs: "xs = before sl k xs @ r # B" using repr_split [OF R, of k] r(1) by simp
  have A: "map_of (contents sl (before sl k xs)) k = None"
    using before_contents [of sl k xs] by (fastforce simp: map_of_eq_None_iff)
  have "contents sl xs = contents sl (before sl k xs) @ (k, valof sl r) # contents sl B"
    by (subst xs) (simp add: contents_append, simp add: contents_def r(2))
  with A have "abs_kv sl k = Some (valof sl r)"
    by (simp add: abs_repr [OF R] map_add_def)
  moreover have "r \<in> set xs" using from_key_sub r(1) by (metis list.set_intros(1))
  ultimately show ?thesis using that(2) r no_match_repr [OF R, of k] by simp
next
  case False
  have ne: "keyof sl x \<noteq> k" if "x \<in> set xs" for x
  proof
    assume k: "keyof sl x = k"
    then have "x \<in> set (from_key sl k xs)" using that by (simp add: from_key_def)
    then obtain r B where rB: "from_key sl k xs = r # B" "x = r \<or> x \<in> set B"
      by (cases "from_key sl k xs") auto
    moreover have "\<not> keyof sl r < k" using from_key_key rB(1) by (metis list.set_intros(1))
    ultimately show False using False k sorted_tail_greater [OF R rB(1), of x] by auto
  qed
  have "k \<notin> keyof sl ` set xs" using ne by blast
  then have "k \<notin> fst ` set (contents sl xs)" by (simp add: contents_def image_image)
  then have "abs_kv sl k = None"
    by (simp add: abs_repr [OF R] map_of_eq_None_iff)
  moreover have "no_match sl (first_of (from_key sl k xs)) k = Some True"
    using no_match_repr [OF R, of k] False by auto
  ultimately show ?thesis using that(1) ne by blast
qed

lemma abs_insert:
  assumes R: "repr sl xs" and new: "\<And>x. x \<in> set xs \<Longrightarrow> keyof sl x \<noteq> k"
    and Rt: "repr t (before sl k xs @ a # from_key sl k xs)"
    and ct: "contents t (before sl k xs @ a # from_key sl k xs)
       = contents sl (before sl k xs) @ (k, v) # contents sl (from_key sl k xs)"
  shows "abs_kv t = (abs_kv sl)(k \<mapsto> v)"
proof -
  have "contents sl xs = contents sl (before sl k xs) @ contents sl (from_key sl k xs)"
    using repr_split [OF R, of k] by (metis contents_append)
  then show ?thesis
    using map_of_sorted_split(1) [OF before_contents from_contents_greater [OF R new]]
    by (simp only: abs_repr [OF R] abs_repr [OF Rt] ct)
qed

section \<open>Construction and lookup\<close>

lemma kvskiplist_repr:
  assumes "0 < maxl"
  obtains sl where "kvskiplist maxl dk dv c = Some sl" "repr sl []" "max_level sl = maxl"
proof -
  let ?n = "\<lparr>nkey = dk, nvalue = dv, nlevel = maxl, forward = replicate maxl None\<rparr>"
  let ?sl = "\<lparr>cells = Map.empty(0 \<mapsto> ?n), head = 0, level_now = 1, counter = 0, max_level = maxl,
              fresh = Suc 0, coin = c, tossed = 0\<rparr>"
  have "kvskiplist maxl dk dv c = Some ?sl"
    using assms by (simp add: kvskiplist_def M_constructNode_def node_ctor_def)
  moreover have "repr ?sl []"
    using assms by (auto simp: repr_def slots_def shape_def nxt_def at_level_def)
  ultimately show thesis using that by simp
qed

theorem kvskiplist_empty:
  "0 < maxl \<Longrightarrow> \<exists>sl. kvskiplist maxl dk dv c = Some sl \<and> sl_inv sl \<and> max_level sl = maxl
     \<and> size_kv sl = 0 \<and> abs_kv sl = Map.empty"
proof -
  assume "0 < maxl"
  then obtain sl where sl: "kvskiplist maxl dk dv c = Some sl" "repr sl []" "max_level sl = maxl"
    by (rule kvskiplist_repr)
  moreover have "abs_kv sl = Map.empty" using abs_repr [OF sl(2)] by (simp add: contents_def)
  moreover have "size_kv sl = 0" using sl(2) by (simp add: size_kv_def repr_def)
  ultimately show ?thesis by (auto simp: sl_inv_def)
qed

lemma find_kv_repr:
  assumes R: "repr sl xs"
  shows "\<exists>r. find_kv sl k = Some r \<and>
    (case r of None \<Rightarrow> abs_kv sl k = None
     | Some p \<Rightarrow> iter_deref sl p = Some (k, the (abs_kv sl k)) \<and> abs_kv sl k \<noteq> None)"
proof -
  have "level_now sl - 1 < max_level sl" using repr_levels [OF R] by linarith
  then have loop: "find_loop sl k (level_now sl - 1) (head sl) = Some (precursor sl k xs 0)"
    by (intro find_loop_repr [OF R]) simp_all
  from R show ?thesis
  proof (cases rule: repr_cases [where k = k])
    case absent
    then show ?thesis using loop bottom_next [OF R] by (simp add: find_kv_def)
  next
    case (present r B)
    obtain c where "cells sl r = Some c" "nkey c = keyof sl r" "nvalue c = valof sl r"
      using repr_node(1) [OF R present(5)] by (rule slots_cells)
    then show ?thesis using present loop bottom_next [OF R, of k]
      by (simp add: find_kv_def first_of_def iter_deref_def)
  qed
qed

lemma find_kv_in:
  assumes R: "repr sl xs" and f: "find_kv sl k = Some (Some p)"
  shows "p \<in> set xs"
proof -
  have "level_now sl - 1 < max_level sl" using repr_levels [OF R] by linarith
  then have "find_loop sl k (level_now sl - 1) (head sl) = Some (precursor sl k xs 0)"
    by (intro find_loop_repr [OF R]) simp_all
  with f bottom_next [OF R, of k] no_match_repr [OF R, of k]
  have "first_of (from_key sl k xs) = Some p" by (auto simp: find_kv_def split: if_splits)
  then have "p \<in> set (from_key sl k xs)" by (auto simp: first_of_def split: list.splits)
  then show ?thesis by (rule from_key_sub)
qed

section \<open>Insertion\<close>

lemma insert_kv_repr:
  assumes R: "repr sl xs"
  obtains r t ys where "insert_kv k v sl = Some (r, t)" "repr t ys" "max_level t = max_level sl"
    "r = None \<longleftrightarrow> abs_kv sl k \<noteq> None"
    "abs_kv t = (if abs_kv sl k = None then (abs_kv sl)(k \<mapsto> v) else abs_kv sl)"
    "counter t = (if abs_kv sl k = None then Suc (counter sl) else counter sl)"
proof -
  obtain pre where pre: "M_findPrecursors sl k (replicate (max_level sl) None) = Some pre"
    "length pre = max_level sl"
    "\<And>j. j < level_now sl \<Longrightarrow> pre_at pre j = Some (precursor sl k xs j)"
    using M_findPrecursors_repr [OF R, of k] by blast
  have p0: "pre_at pre 0 = Some (precursor sl k xs 0)" using pre(3) repr_levels [OF R] by simp
  from R show thesis
  proof (cases rule: repr_cases [where k = k])
    case absent
    obtain a t where t: "M_insert pre k v sl = Some (a, t)"
      "repr t (before sl k xs @ a # from_key sl k xs)"
      "contents t (before sl k xs @ a # from_key sl k xs)
         = contents sl (before sl k xs) @ (k, v) # contents sl (from_key sl k xs)"
      "max_level t = max_level sl"
      by (rule M_insert_repr [OF R absent(1) pre(2,3)])
    have "insert_kv k v sl = Some (Some a, t)"
      using pre p0 bottom_next [OF R] absent t by (simp add: insert_kv_def)
    moreover have "counter t = Suc (counter sl)"
      using t(2) R repr_split [OF R, of k] by (metis add_Suc_right length_Cons length_append repr_def)
    ultimately show thesis
      using that [OF _ t(2,4)] abs_insert [OF R absent(1) t(2,3)] absent(2) by simp
  next
    case (present r B)
    then have "insert_kv k v sl = Some (None, sl)"
      using pre p0 bottom_next [OF R] by (simp add: insert_kv_def)
    then show thesis using that [OF _ R] present by simp
  qed
qed

lemma assign_value_repr:
  assumes R: "repr sl xs" and r: "r \<in> set xs"
  obtains t where "assign_value r v sl = Some t" "repr t xs" "max_level t = max_level sl"
    "abs_kv t = (abs_kv sl)(keyof sl r \<mapsto> v)" "counter t = counter sl"
proof -
  obtain c where c: "cells sl r = Some c" "nkey c = keyof sl r" "length (forward c) = levof sl r"
    "nlevel c = levof sl r"
    using repr_node(1) [OF R r] by (metis slots_cells)
  let ?t = "sl\<lparr>cells := (cells sl)(r \<mapsto> c\<lparr>nvalue := v\<rparr>)\<rparr>"
  have t: "assign_value r v sl = Some ?t" using c by (simp add: assign_value_def)
  have sh: "shape ?t = (shape sl)(r \<mapsto> (keyof sl r, v, levof sl r, levof sl r))"
    using c by (auto simp: shape_def fun_eq_iff)
  note V = shape_upd_views [OF sh]
  have nx: "nxt ?t = nxt sl" using c by (auto simp: nxt_def fun_eq_iff)
  have k: "keyof ?t = keyof sl" and l: "levof ?t = levof sl"
    using V sh by (auto simp: fun_eq_iff keyof_def levof_def)
  have s: "slots ?t x n = slots sl x n" for x n
    using sh repr_node(1) [OF R r] by (auto simp: slots_def dest: slots_levof)
  have al: "at_level ?t = at_level sl" by (simp add: at_level_def fun_eq_iff l)
  have "cells ?t b = None" if "fresh ?t \<le> b" for b
    using that R r repr_node(1) [OF R r] slots_mapped by (fastforce simp: repr_def)
  then have Rt: "repr ?t xs" using R unfolding repr_def k al nx s l by auto
  obtain A B where AB: "xs = A @ r # B" using r by (meson split_list)
  have d: "distinct (map (keyof sl) xs)"
    using R by (metis repr_def strict_sorted_iff)
  have "abs_kv ?t = (abs_kv sl)(keyof sl r \<mapsto> v)"
  proof -
    have "r \<notin> set A" "r \<notin> set B" using repr_head(2) [OF R] AB by auto
    then have "contents ?t xs = contents sl A @ (keyof sl r, v) # contents sl B"
      using V(6) AB k sh by (simp add: contents_def valof_def)
    moreover have "contents sl xs = contents sl A @ (keyof sl r, valof sl r) # contents sl B"
      by (simp add: AB contents_def)
    moreover have "map_of (contents sl A) (keyof sl r) = None"
      using d AB by (force simp: map_of_eq_None_iff contents_def)
    ultimately show ?thesis
      by (auto simp: abs_repr [OF R] abs_repr [OF Rt] fun_eq_iff map_add_def split: option.splits)
  qed
  then show thesis using that [OF t Rt] by simp
qed

lemma operator_index_repr:
  assumes R: "repr sl xs"
  obtains p t ys where "operator_index dv k sl = Some (p, t)" "repr t ys" "p \<in> set ys"
    "keyof t p = k" "max_level t = max_level sl"
    "abs_kv t = (if abs_kv sl k = None then (abs_kv sl)(k \<mapsto> dv) else abs_kv sl)"
    "counter t = (if abs_kv sl k = None then Suc (counter sl) else counter sl)"
proof -
  obtain pre where pre: "M_findPrecursors sl k (replicate (max_level sl) None) = Some pre"
    "length pre = max_level sl"
    "\<And>j. j < level_now sl \<Longrightarrow> pre_at pre j = Some (precursor sl k xs j)"
    using M_findPrecursors_repr [OF R, of k] by blast
  have p0: "pre_at pre 0 = Some (precursor sl k xs 0)" using pre(3) repr_levels [OF R] by simp
  from R show thesis
  proof (cases rule: repr_cases [where k = k])
    case absent
    obtain a t where t: "M_insert pre k dv sl = Some (a, t)"
      "repr t (before sl k xs @ a # from_key sl k xs)"
      "contents t (before sl k xs @ a # from_key sl k xs)
         = contents sl (before sl k xs) @ (k, dv) # contents sl (from_key sl k xs)"
      "get_forward t (precursor sl k xs 0) 0 = Some (Some a)" "max_level t = max_level sl"
      by (rule M_insert_repr [OF R absent(1) pre(2,3)])
    have "keyof t a = k"
    proof -
      have "length (contents t (before sl k xs)) = length (contents sl (before sl k xs))"
        by (simp add: contents_def)
      with t(3) show ?thesis by (simp add: contents_append) (simp add: contents_def)
    qed
    moreover have "operator_index dv k sl = Some (a, t)"
      using pre p0 bottom_next [OF R] absent t by (simp add: operator_index_def)
    moreover have "counter t = Suc (counter sl)"
      using t(2) R repr_split [OF R, of k] by (metis add_Suc_right length_Cons length_append repr_def)
    ultimately show thesis
      using that [OF _ t(2)] t(5) abs_insert [OF R absent(1) t(2,3)] absent(2) by simp
  next
    case (present r B)
    then have "operator_index dv k sl = Some (r, sl)"
      using pre p0 bottom_next [OF R, of k] by (simp add: operator_index_def first_of_def)
    then show thesis using that [OF _ R] present by simp
  qed
qed

lemma index_assign_repr:
  assumes R: "repr sl xs"
  obtains t ys where "index_assign dv k v sl = Some t" "repr t ys" "max_level t = max_level sl"
    "abs_kv t = (abs_kv sl)(k \<mapsto> v)"
    "counter t = (if abs_kv sl k = None then Suc (counter sl) else counter sl)"
proof -
  obtain p t ys where t: "operator_index dv k sl = Some (p, t)" "repr t ys" "p \<in> set ys"
    "keyof t p = k" "max_level t = max_level sl"
    "abs_kv t = (if abs_kv sl k = None then (abs_kv sl)(k \<mapsto> dv) else abs_kv sl)"
    "counter t = (if abs_kv sl k = None then Suc (counter sl) else counter sl)"
    by (rule operator_index_repr [OF R])
  obtain u where u: "assign_value p v t = Some u" "repr u ys" "max_level u = max_level t"
    "abs_kv u = (abs_kv t)(keyof t p \<mapsto> v)" "counter u = counter t"
    by (rule assign_value_repr [OF t(2,3)])
  show thesis
    by (rule that [of u ys]) (use t u in \<open>auto simp: index_assign_def\<close>)
qed

end
