(* ===== verification/KvSkipListRemove.thy ===== *)
theory KvSkipListRemove
  imports KvSkipListCorrect
begin

text \<open>
  Removal of a key, clearing, and the dump / load pair of the skip list: they return,
  keep the invariant and act on the abstract map as expected.
\<close>

section \<open>Removal\<close>

lemma shrink_level_ok:
  assumes "slots sl (head sl) m" "n \<le> m" "1 \<le> n"
  shows "\<exists>r. shrink_level sl n = Some r \<and> 1 \<le> r \<and> r \<le> n
    \<and> (\<forall>l. r \<le> l \<and> l < n \<longrightarrow> nxt sl l (head sl) = None)
    \<and> (1 < r \<longrightarrow> nxt sl (r - 1) (head sl) \<noteq> None)"
  using assms
proof (induction sl n rule: shrink_level.induct)
  case (1 sl n)
  let ?q = "nxt sl (Suc n) (head sl)"
  have q: "get_forward sl (head sl) (Suc n) = Some ?q"
    using "1.prems" by (simp add: get_forward_slots)
  show ?case
  proof (cases ?q)
    case None
    with "1.IH" [OF q] "1.prems" obtain r where "shrink_level sl (Suc n) = Some r" "1 \<le> r"
      "r \<le> Suc n" "\<forall>l. r \<le> l \<and> l < Suc n \<longrightarrow> nxt sl l (head sl) = None"
      "1 < r \<longrightarrow> nxt sl (r - 1) (head sl) \<noteq> None" by auto
    then show ?thesis using q None by (auto simp: less_Suc_eq)
  next
    case (Some a)
    then show ?thesis using q by auto
  qed
qed auto

text \<open>The state after unlinking \<open>r\<close>, shrinking and destroying: the invariant holds again.\<close>

lemma repr_unlink:
  assumes R: "repr sl xs" and xs: "xs = A @ r # B"
    and u: "head u = head sl" "max_level u = max_level sl" "fresh u = fresh sl"
      "counter u = counter sl - 1" "shape u = (shape sl)(r := None)"
    and n: "\<And>j x. x \<noteq> r \<Longrightarrow> nxt u j x = (if j < levof sl r
              then ((nxt sl j)(last (head sl # at_level sl j A) := nxt sl j r)) x else nxt sl j x)"
    and lev: "1 \<le> level_now u" "level_now u \<le> level_now sl"
      "\<And>l. level_now u \<le> l \<Longrightarrow> l < level_now sl \<Longrightarrow> nxt u l (head sl) = None"
      "1 < level_now u \<Longrightarrow> nxt u (level_now u - 1) (head sl) \<noteq> None"
  shows "repr u (A @ B)" and "contents u (A @ B) = contents sl (A @ B)"
proof -
  note L = repr_levels [OF R] and V = shape_upd_views [OF u(5)]
  have d: "distinct (head sl # A @ r # B)" using R xs by (simp add: repr_def)
  then have rn: "r \<notin> set (A @ B)" "r \<noteq> head sl" by auto
  have al: "at_level u l (A @ B) = at_level sl l (A @ B)" for l
    by (rule V(5)) (rule rn)
  show "contents u (A @ B) = contents sl (A @ B)" by (rule V(6)) (rule rn)
  have links: "linked (nxt u l) (nxt u l (head sl)) (at_level sl l (A @ B))"
    if l: "l < max_level sl" for l
  proof -
    let ?A = "at_level sl l A" and ?B = "at_level sl l B"
    have old: "linked (nxt sl l) (nxt sl l (head sl)) (at_level sl l (A @ r # B))"
      using repr_linked [OF R l] xs by simp
    define g where "g = (if l < levof sl r
        then (nxt sl l)(last (head sl # ?A) := nxt sl l r) else nxt sl l)"
    have "linked g (g (head sl)) (?A @ ?B)"
    proof (cases "l < levof sl r")
      case True
      have "distinct (head sl # ?A @ r # ?B)" using d by (auto simp: at_level_def)
      moreover have "linked (nxt sl l) (nxt sl l (head sl)) (?A @ r # ?B)"
        using old True by (simp add: at_level_def)
      ultimately show ?thesis using linked_delete True g_def by fastforce
    next
      case False
      then show ?thesis using old by (simp add: g_def at_level_def)
    qed
    moreover have "g x = nxt u l x" if "x \<noteq> r" for x using n [OF that, of l] by (simp add: g_def)
    moreover have "r \<notin> set (?A @ ?B)" using rn by (auto simp: at_level_set)
    ultimately show ?thesis
      using linked_cong [of "?A @ ?B" g "nxt u l"] rn(2) by (metis at_level_append)
  qed
  have lvl: "levof sl x \<le> level_now u" if x: "x \<in> set (A @ B)" for x
  proof (rule ccontr)
    assume "\<not> levof sl x \<le> level_now u"
    then have gt: "level_now u \<le> levof sl x - 1" "levof sl x - 1 < levof sl x" by auto
    have le: "levof sl x \<le> level_now sl" "x \<in> set xs" using repr_node(3) [OF R] x xs by auto
    then have "levof sl x - 1 < max_level sl" "levof sl x - 1 < level_now sl" using L(2) gt(2) by auto
    then have "linked (nxt u (levof sl x - 1)) None (at_level sl (levof sl x - 1) (A @ B))"
      using links [of "levof sl x - 1"] lev(3) [OF gt(1)] by simp
    then have "at_level sl (levof sl x - 1) (A @ B) = []"
      by (cases "at_level sl (levof sl x - 1) (A @ B)") simp_all
    moreover have "x \<in> set (at_level sl (levof sl x - 1) (A @ B))"
      using x gt(2) unfolding at_level_set by blast
    ultimately show False by simp
  qed
  have "\<exists>m. slots u x m \<and> 1 \<le> m \<and> m \<le> level_now u" if x: "x \<in> set (A @ B)" for x
  proof -
    have "x \<noteq> r" "x \<in> set xs" using x rn xs by auto
    then show ?thesis using V(4) repr_node [OF R \<open>x \<in> set xs\<close>] lvl [OF x] by metis
  qed
  moreover have "cells u b = None" if "fresh u \<le> b" for b
  proof -
    have "cells sl b = None" using that u(3) R by (auto simp: repr_def)
    then show ?thesis using u(5) by (simp flip: shape_None)
  qed
  moreover have "\<exists>x \<in> set (A @ B). levof u x = level_now u" if t: "1 < level_now u"
  proof -
    have "level_now u - 1 < max_level sl" using lev(2) L(2) t by linarith
    from links [OF this] lev(4) [OF t] have "at_level sl (level_now u - 1) (A @ B) \<noteq> []"
      by (metis linked.simps(1))
    then obtain x ys where "at_level sl (level_now u - 1) (A @ B) = x # ys"
      by (meson neq_Nil_conv)
    then have "x \<in> set (at_level sl (level_now u - 1) (A @ B))" by simp
    then have x: "x \<in> set (A @ B)" "level_now u - 1 < levof sl x" by (auto simp: at_level_set)
    moreover from this have "levof sl x = level_now u" using lvl [OF x(1)] by linarith
    moreover have "x \<noteq> r" using x(1) rn(1) by auto
    ultimately show ?thesis using V(3) by metis
  qed
  moreover have "sorted_wrt (<) (map (keyof u) (A @ B))"
  proof -
    have "sorted_wrt (<) (map (keyof sl) (A @ B))"
      using R xs by (auto simp: repr_def sorted_wrt_append)
    then show ?thesis using V(7) [OF rn(1)] by metis
  qed
  moreover have "counter u = length (A @ B)" using R xs u(4) by (simp add: repr_def)
  ultimately show "repr u (A @ B)"
    unfolding repr_def using links al L lev u V(4) rn d by auto
qed

lemma remove_kv_repr:
  assumes R: "repr sl xs"
  obtains t ys where "remove_kv k sl = Some t" "repr t ys" "max_level t = max_level sl"
    "abs_kv t = (abs_kv sl)(k := None)"
    "counter t = (if abs_kv sl k = None then counter sl else counter sl - 1)"
proof -
  obtain pre where pre: "M_findPrecursors sl k (replicate (max_level sl) None) = Some pre"
    "length pre = max_level sl"
    "\<And>j. j < level_now sl \<Longrightarrow> pre_at pre j = Some (precursor sl k xs j)"
    using M_findPrecursors_repr [OF R, of k] by blast
  note L = repr_levels [OF R]
  have p0: "pre_at pre 0 = Some (precursor sl k xs 0)" using pre(3) L by simp
  from R show thesis
  proof (cases rule: repr_cases [where k = k])
    case absent
    then have "remove_kv k sl = Some sl"
      using pre p0 bottom_next [OF R] by (simp add: remove_kv_def)
    then show thesis using that [OF _ R] absent(2) by (metis fun_upd_triv)
  next
    case (present r B)
    let ?A = "before sl k xs" and ?P = "precursor sl k xs"
    have xs: "xs = ?A @ r # B" using repr_split [OF R, of k] present(1) by simp
    have d: "distinct (head sl # ?A @ r # B)" using R xs by (metis repr_def)
    note nr = repr_node [OF R present(5)]
    have nxP: "nxt sl j (?P j) = first_of (at_level sl j (r # B))" if "j < level_now sl" for j
      using precursor_next(2) [OF R, of j k] that L(2) present(1) by simp
    have Pj: "\<exists>m. slots sl (?P j) m \<and> j < m" if "j < level_now sl" for j
    proof -
      have j: "j < max_level sl" using that L(2) by simp
      have "?P j = head sl \<or> ?P j \<in> set (at_level sl j xs)"
        using last_Cons_in [of "head sl" "at_level sl j ?A"] before_sub
        by (fastforce simp: precursor_def at_level_set)
      then show ?thesis using repr_slot [OF R j] by metis
    qed
    have "\<exists>t. unlink_levels pre r 0 (level_now sl) sl = Some t \<and> same_shape sl t
      \<and> (\<forall>j. nxt t j = (if 0 \<le> j \<and> j < levof sl r then (nxt sl j)(?P j := nxt sl j r) else nxt sl j))"
    proof (rule unlink_levels_ok)
      show "nxt sl j (?P j) = Some r" if "j < levof sl r" for j
        using nxP [of j] nr(3) that by (simp add: at_level_def first_of_def)
      show "nxt sl (levof sl r) (?P (levof sl r)) \<noteq> Some r" if "levof sl r < level_now sl"
      proof -
        have "r \<notin> set (at_level sl (levof sl r) B)" using d by (auto simp: at_level_set)
        moreover have "at_level sl (levof sl r) (r # B) = at_level sl (levof sl r) B"
          by (simp add: at_level_def)
        ultimately show ?thesis using nxP [OF that]
          by (cases "at_level sl (levof sl r) B") (auto simp: first_of_def)
      qed
    qed (use pre(3) nr Pj in auto)
    then obtain t where t: "unlink_levels pre r 0 (level_now sl) sl = Some t" "same_shape sl t"
      "\<And>j. nxt t j = (if j < levof sl r then (nxt sl j)(?P j := nxt sl j r) else nxt sl j)"
      by auto
    let ?t1 = "t\<lparr>counter := counter t - 1\<rparr>"
    have f: "head t = head sl" "max_level t = max_level sl" "fresh t = fresh sl"
      "level_now t = level_now sl" "counter t = counter sl" "shape t = shape sl"
      using t(2) by (auto simp: same_shape_def)
    have n1: "nxt ?t1 j = nxt t j" for j by (simp add: nxt_def fun_eq_iff)
    have s1: "slots ?t1 (head ?t1) (max_level sl)"
      using L(4) f by (simp add: slots_def shape_def fun_eq_iff)
    obtain lv where lv: "shrink_level ?t1 (level_now ?t1) = Some lv" "1 \<le> lv" "lv \<le> level_now sl"
      "\<And>l. lv \<le> l \<Longrightarrow> l < level_now sl \<Longrightarrow> nxt t l (head sl) = None"
      "1 < lv \<Longrightarrow> nxt t (lv - 1) (head sl) \<noteq> None"
      using shrink_level_ok [OF s1, of "level_now sl"] L f n1 by auto
    let ?u = "?t1\<lparr>level_now := lv, cells := (cells t)(r := None)\<rparr>"
    have nu: "nxt ?u j x = nxt t j x" if "x \<noteq> r" for j x using that by (simp add: nxt_def)
    have hr: "head sl \<noteq> r" using d by auto
    have shp: "shape ?u = (shape sl)(r := None)" using f(6) by (auto simp: shape_def fun_eq_iff)
    have nx: "nxt ?u j x = (if j < levof sl r
        then ((nxt sl j)(last (head sl # at_level sl j ?A) := nxt sl j r)) x else nxt sl j x)"
      if "x \<noteq> r" for j x
      using t(3) [of j] nu [OF that] by (simp add: precursor_def)
    have flds: "head ?u = head sl" "max_level ?u = max_level sl" "fresh ?u = fresh sl"
      "counter ?u = counter sl - 1" "1 \<le> level_now ?u" "level_now ?u \<le> level_now sl"
      using f lv by simp_all
    have top: "nxt ?u l (head sl) = None" if "level_now ?u \<le> l" "l < level_now sl" for l
      using nu [OF hr] lv(4) [of l] that by simp
    have tight: "nxt ?u (level_now ?u - 1) (head sl) \<noteq> None" if "1 < level_now ?u"
      using nu [OF hr] lv(5) that by simp
    have res: "repr ?u (?A @ B)" "contents ?u (?A @ B) = contents sl (?A @ B)"
      using repr_unlink [OF R xs flds(1-4) shp nx flds(5,6) top tight] by metis+
    obtain c where c: "cells t r = Some c"
      using nr(1) f(6) by (metis same_shape_views(4) slots_cells t(2))
    have rm: "remove_kv k sl = Some ?u"
      using pre p0 bottom_next [OF R, of k] present t(1) lv(1) c
      by (simp add: remove_kv_def first_of_def M_destroyNode_def Let_def)
    have "abs_kv ?u = (abs_kv sl)(k := None)"
    proof -
      have "contents sl xs = contents sl ?A @ (k, valof sl r) # contents sl B"
        by (subst xs) (simp add: contents_append, simp add: contents_def present(2))
      moreover have "map_of (contents sl ?A) k = None" "map_of (contents sl B) k = None"
        using before_contents [of sl k xs] sorted_tail_greater [OF R present(1)] present(2)
        by (fastforce simp: map_of_eq_None_iff contents_def)+
      moreover have a: "abs_kv ?u = map_of (contents sl ?A @ contents sl B)"
        by (subst abs_repr [OF res(1)], subst res(2)) (simp only: contents_append)
      ultimately show ?thesis
        unfolding a abs_repr [OF R] by (auto simp: fun_eq_iff map_add_def split: option.splits)
    qed
    then show thesis using that [OF rm res(1)] f present(3) by simp
  qed
qed

section \<open>Clearing\<close>

lemma fill_null_ok:
  assumes "slots sl (head sl) m" "lvl \<le> m"
  shows "\<exists>t. fill_null l lvl sl = Some t \<and> same_shape sl t
    \<and> (\<forall>j. nxt t j = (if l \<le> j \<and> j < lvl then (nxt sl j)(head sl := None) else nxt sl j))"
  using assms
proof (induction l lvl sl rule: fill_null.induct)
  case (1 l lvl sl)
  show ?case
  proof (cases "l < lvl")
    case False
    then show ?thesis by (subst fill_null.simps) auto
  next
    case True
    with "1.prems" have "l < m" by simp
    obtain s1 where s1: "set_forward sl (head sl) l None = Some s1" "same_shape sl s1"
      "nxt s1 l = (nxt sl l)(head sl := None)" "\<And>j. j \<noteq> l \<Longrightarrow> nxt s1 j = nxt sl j"
      using set_forward_slots [OF "1.prems"(1) \<open>l < m\<close>] by metis
    have h: "head s1 = head sl" "slots s1 = slots sl"
      using s1(2) same_shape_views(4) [OF s1(2)] by (simp_all add: same_shape_def)
    with "1.IH" [OF True s1(1)] "1.prems"
    obtain t where t: "fill_null (Suc l) lvl s1 = Some t" "same_shape s1 t"
      "\<And>j. nxt t j = (if Suc l \<le> j \<and> j < lvl then (nxt s1 j)(head sl := None) else nxt s1 j)"
      by auto
    have "nxt t j = (if l \<le> j \<and> j < lvl then (nxt sl j)(head sl := None) else nxt sl j)" for j
      using t(3) [of j] s1(3,4) True by (cases "j = l") auto
    moreover have "fill_null l lvl sl = Some t" using True s1(1) t(1) by (subst fill_null.simps) simp
    ultimately show ?thesis using same_shape_trans [OF s1(2) t(2)] by blast
  qed
qed

lemma drain_ok:
  assumes "linked (nxt sl 0) (nxt sl 0 (head sl)) xs" "distinct (head sl # xs)"
    and "slots sl (head sl) m" "0 < m"
    and "\<And>x. x \<in> set xs \<Longrightarrow> \<exists>n. slots sl x n \<and> 0 < n"
  shows "\<exists>t. drain sl = Some t \<and> head t = head sl \<and> max_level t = max_level sl
    \<and> fresh t = fresh sl \<and> slots t (head sl) m \<and> nxt t 0 (head sl) = None
    \<and> (\<forall>j > 0. nxt t j (head sl) = nxt sl j (head sl))
    \<and> (\<forall>b. cells t b = None \<longleftrightarrow> cells sl b = None \<or> b \<in> set xs)"
  using assms
proof (induction xs arbitrary: sl)
  case Nil
  then show ?case by (subst drain.simps) (simp add: get_forward_slots)
next
  case (Cons x xs)
  have hx: "nxt sl 0 (head sl) = Some x" "linked (nxt sl 0) (nxt sl 0 x) xs" using Cons.prems by auto
  obtain n where n: "slots sl x n" "0 < n" using Cons.prems(5) [of x] by auto
  have g: "get_forward sl (head sl) 0 = Some (Some x)" "get_forward sl x 0 = Some (nxt sl 0 x)"
    using Cons.prems(3,4) n hx by (simp_all add: get_forward_slots)
  obtain s1 where s1: "set_forward sl (head sl) 0 (nxt sl 0 x) = Some s1" "same_shape sl s1"
    "nxt s1 0 = (nxt sl 0)(head sl := nxt sl 0 x)" "\<And>j. j \<noteq> 0 \<Longrightarrow> nxt s1 j = nxt sl j"
    using set_forward_slots [OF Cons.prems(3,4)] by metis
  let ?s2 = "s1\<lparr>cells := (cells s1)(x := None)\<rparr>"
  have xs: "x \<noteq> head sl" "x \<notin> set xs" "head sl \<notin> set xs" using Cons.prems(2) by auto
  have f: "head ?s2 = head sl" "max_level ?s2 = max_level sl" "fresh ?s2 = fresh sl"
    using s1(2) by (simp_all add: same_shape_def)
  have sh: "shape ?s2 = (shape sl)(x := None)"
    using s1(2) by (auto simp: same_shape_def shape_def fun_eq_iff)
  have nx: "nxt ?s2 j y = nxt s1 j y" if "y \<noteq> x" for j y using that by (simp add: nxt_def)
  have sl2: "slots ?s2 y k = slots sl y k" if "y \<noteq> x" for y k
    using that sh by (simp add: slots_def)
  have "linked (nxt ?s2 0) (nxt ?s2 0 (head ?s2)) xs"
  proof -
    have "nxt ?s2 0 (head ?s2) = nxt sl 0 x" using f nx xs s1(3) by simp
    moreover have "linked (nxt ?s2 0) (nxt sl 0 x) xs = linked (nxt sl 0) (nxt sl 0 x) xs"
    proof (rule linked_cong)
      fix y assume "y \<in> set xs"
      then have "y \<noteq> x" "y \<noteq> head sl" using xs by auto
      then show "nxt ?s2 0 y = nxt sl 0 y" using nx s1(3) by simp
    qed
    ultimately show ?thesis using hx by simp
  qed
  moreover have "\<exists>k. slots ?s2 y k \<and> 0 < k" if "y \<in> set xs" for y
    using Cons.prems(5) [of y] that sl2 [of y] xs by auto
  moreover have "slots ?s2 (head ?s2) m" "distinct (head ?s2 # xs)"
    using Cons.prems(2,3) sl2 f xs by auto
  ultimately obtain t where t: "drain ?s2 = Some t" "head t = head ?s2" "max_level t = max_level ?s2"
    "fresh t = fresh ?s2" "slots t (head ?s2) m" "nxt t 0 (head ?s2) = None"
    "\<forall>j > 0. nxt t j (head ?s2) = nxt ?s2 j (head ?s2)"
    "\<forall>b. cells t b = None \<longleftrightarrow> cells ?s2 b = None \<or> b \<in> set xs"
    using Cons.IH [of ?s2] Cons.prems(4) by blast
  have "drain sl = Some t" using g s1(1) t(1) by (subst drain.simps) simp
  moreover have "nxt ?s2 j (head sl) = nxt sl j (head sl)" if "0 < j" for j
    using nx [OF xs(1) [symmetric]] s1(4) that by simp
  moreover have "cells ?s2 b = None \<longleftrightarrow> cells sl b = None \<or> b = x" for b
  proof -
    have "shape ?s2 b = None \<longleftrightarrow> shape sl b = None \<or> b = x" by (subst sh) auto
    then show ?thesis unfolding shape_None .
  qed
  ultimately show ?case using t f by auto
qed

lemma clear_kv_repr:
  assumes R: "repr sl xs"
  obtains t where "clear_kv sl = Some t" "repr t []" "max_level t = max_level sl"
    "\<And>x. x \<in> set xs \<Longrightarrow> cells t x = None"
proof -
  note L = repr_levels [OF R]
  obtain s where s: "(if level_now sl > 1 then fill_null 1 (level_now sl) sl else Some sl) = Some s"
    "same_shape sl s"
    "\<And>j. nxt s j = (if 1 \<le> j \<and> j < level_now sl then (nxt sl j)(head sl := None) else nxt sl j)"
  proof (cases "level_now sl > 1")
    case True
    with fill_null_ok [OF L(4,2), of 1] that show ?thesis by auto
  next
    case False
    then have "\<not> (1 \<le> j \<and> j < level_now sl)" for j by linarith
    then have "nxt sl j = (if 1 \<le> j \<and> j < level_now sl then (nxt sl j)(head sl := None)
        else nxt sl j)" for j by (simp only: if_False)
    with that [of sl] False show ?thesis by simp
  qed
  have f: "head s = head sl" "max_level s = max_level sl" "fresh s = fresh sl" "shape s = shape sl"
    using s(2) by (simp_all add: same_shape_def)
  have sl: "slots s = slots sl" using s(2) by (rule same_shape_views)
  have n0: "nxt s 0 = nxt sl 0" using s(3) [of 0] by simp
  have "\<exists>t. drain s = Some t \<and> head t = head s \<and> max_level t = max_level s
    \<and> fresh t = fresh s \<and> slots t (head s) (max_level sl) \<and> nxt t 0 (head s) = None
    \<and> (\<forall>j > 0. nxt t j (head s) = nxt s j (head s))
    \<and> (\<forall>b. cells t b = None \<longleftrightarrow> cells s b = None \<or> b \<in> set xs)"
  proof (rule drain_ok)
    show "\<exists>n. slots s x n \<and> 0 < n" if "x \<in> set xs" for x
      using repr_node [OF R that] sl by (metis less_le_trans zero_less_one)
  qed (use repr_bottom [OF R] R L sl f n0 in \<open>auto simp: repr_def\<close>)
  then obtain t where t: "drain s = Some t" "head t = head sl" "max_level t = max_level sl"
    "fresh t = fresh sl" "slots t (head sl) (max_level sl)" "nxt t 0 (head sl) = None"
    "\<And>j. 0 < j \<Longrightarrow> nxt t j (head sl) = nxt s j (head sl)"
    "\<And>b. cells t b = None \<longleftrightarrow> cells s b = None \<or> b \<in> set xs"
    using f by auto
  let ?t = "t\<lparr>level_now := 1, counter := 0\<rparr>"
  have "nxt t j (head sl) = None" if "j < max_level sl" for j
  proof (cases "0 < j \<and> level_now sl \<le> j")
    case True
    then have "at_level sl j xs = []"
      using repr_node(3) [OF R] by (fastforce simp: at_level_def filter_empty_conv)
    then show ?thesis using repr_linked [OF R that] t(7) s(3) [of j] True by simp
  next
    case False
    then show ?thesis using t(6) t(7) s(3) [of j] by (cases "j = 0") auto
  qed
  moreover have "cells t b = None" if "fresh sl \<le> b" for b
    using t(8) [of b] that R f(4) by (auto simp: repr_def simp flip: shape_None)
  moreover have "nxt ?t j = nxt t j" "slots ?t p n = slots t p n" for j p n
    by (simp_all add: nxt_def slots_def shape_def fun_eq_iff)
  ultimately have "repr ?t []"
    using t L by (simp add: repr_def at_level_def)
  moreover have "clear_kv sl = Some ?t" using s(1) t(1) by (auto simp: clear_kv_def)
  ultimately show thesis using that t(3,8) by auto
qed

section \<open>Dump and load\<close>

lemma dump_kv_repr:
  "repr sl xs \<Longrightarrow> dump_kv enc sl
     = Some (enc \<lparr>dkeys = map (keyof sl) xs, dvalues = map (valof sl) xs\<rparr>)"
  using repr_levels [of sl xs] dump_loop_repr [of sl xs]
  by (simp add: dump_kv_def get_forward_slots)

lemma load_loop_repr:
  assumes "repr sl xs" and "length (dvalues d) = length (dkeys d)"
  shows "\<exists>t ys. load_loop d i sl = Some t \<and> repr t ys \<and> max_level t = max_level sl
    \<and> abs_kv t = map_of (drop i (zip (dkeys d) (dvalues d))) ++ abs_kv sl"
  using assms
proof (induction d i sl arbitrary: xs rule: load_loop.induct)
  case (1 d i sl)
  show ?case
  proof (cases "i < length (dkeys d)")
    case False
    then show ?thesis using "1.prems" by (subst load_loop.simps) auto
  next
    case True
    let ?k = "dkeys d ! i" and ?v = "dvalues d ! i"
    have v: "arr_get (dvalues d) i = Some ?v" using True "1.prems"(2) by (simp add: arr_get_def)
    obtain r s ys where s: "insert_kv ?k ?v sl = Some (r, s)" "repr s ys"
      "max_level s = max_level sl" "r = None \<longleftrightarrow> abs_kv sl ?k \<noteq> None"
      "abs_kv s = (if abs_kv sl ?k = None then (abs_kv sl)(?k \<mapsto> ?v) else abs_kv sl)"
      by (rule insert_kv_repr [OF "1.prems"(1)])
    from "1.IH" [OF True v s(1) refl s(2) "1.prems"(2)]
    obtain t zs where t: "load_loop d (Suc i) s = Some t" "repr t zs" "max_level t = max_level s"
      "abs_kv t = map_of (drop (Suc i) (zip (dkeys d) (dvalues d))) ++ abs_kv s" by auto
    have "drop i (zip (dkeys d) (dvalues d)) = (?k, ?v) # drop (Suc i) (zip (dkeys d) (dvalues d))"
      using True "1.prems"(2) by (simp add: Cons_nth_drop_Suc [symmetric])
    then have "abs_kv t = map_of (drop i (zip (dkeys d) (dvalues d))) ++ abs_kv sl"
      using t(4) s(5) by (auto simp: fun_eq_iff map_add_def split: option.splits)
    moreover have "load_loop d i sl = Some t" using True v s(1) t(1) by (subst load_loop.simps) simp
    ultimately show ?thesis using t(2,3) s(3) by auto
  qed
qed

end
