(* ===== verification/KvTable.thy ===== *)
theory KvTable
  imports KvSkipListRemove Archive
begin

text \<open>
  The interface through which the server uses its table: the locale \<open>kv_table\<close> is what
  \<open>find\<close>, \<open>operator[]\<close> with assignment and \<open>remove\<close> promise about the abstract map.
  The skip list provides it; its properties are stated over its own definitions.
\<close>

section \<open>The interface\<close>

locale kv_table =
  fixes look :: "'t \<Rightarrow> 'k \<Rightarrow> 'v option option"
    and store :: "'k \<Rightarrow> 'v \<Rightarrow> 't \<Rightarrow> 't option"
    and erase :: "'k \<Rightarrow> 't \<Rightarrow> 't option"
    and good :: "'t \<Rightarrow> bool"
    and absm :: "'t \<Rightarrow> 'k \<Rightarrow> 'v option"
  assumes look_ok: "good t \<Longrightarrow> look t k = Some (absm t k)"
    and store_ok: "good t \<Longrightarrow> \<exists>u. store k v t = Some u \<and> good u \<and> absm u = (absm t)(k \<mapsto> v)"
    and erase_ok: "good t \<Longrightarrow> \<exists>u. erase k t = Some u \<and> good u \<and> absm u = (absm t)(k := None)"
begin

lemma look_store:
  "good t \<Longrightarrow> store k v t = Some u \<Longrightarrow> look u j = (if j = k then Some (Some v) else look t j)"
  using store_ok [of t k v] look_ok [of t j] look_ok [of u j] by auto

lemma look_erase:
  "good t \<Longrightarrow> erase k t = Some u \<Longrightarrow> look u j = (if j = k then Some None else look t j)"
  using erase_ok [of t k] look_ok [of t j] look_ok [of u j] by auto

text \<open>A sequence of writes: the last write to a key wins.\<close>

lemma stores_ok:
  "good t \<Longrightarrow> \<exists>u. fold_opt (\<lambda>(k, v). store k v) ws t = Some u \<and> good u
     \<and> absm u = absm t ++ map_of (rev ws)"
proof (induction ws arbitrary: t)
  case (Cons w ws)
  obtain k v where w: "w = (k, v)" by fastforce
  obtain s where s: "store k v t = Some s" "good s" "absm s = (absm t)(k \<mapsto> v)"
    using store_ok [OF Cons.prems] by blast
  obtain u where "fold_opt (\<lambda>(k, v). store k v) ws s = Some u" "good u"
    "absm u = absm s ++ map_of (rev ws)" using Cons.IH [OF s(2)] by blast
  with s w show ?case by (auto simp: fun_eq_iff map_add_def split: option.splits)
qed simp

end

section \<open>The skip list provides it\<close>

text \<open>\<open>find\<close> followed by \<open>(*it).second\<close>, as the server reads its table.\<close>

definition lookup_value :: "('k::linorder, 'v) skiplist \<Rightarrow> 'k \<Rightarrow> 'v option option" where
  "lookup_value sl k = do {
     it \<leftarrow> find_kv sl k;
     (if it = end_kv then Some None
      else do { p \<leftarrow> it; (a, v) \<leftarrow> iter_deref sl p; Some (Some v) }) }"

lemma lookup_value_ok: "sl_inv sl \<Longrightarrow> lookup_value sl k = Some (abs_kv sl k)"
proof -
  assume "sl_inv sl"
  then obtain xs where "repr sl xs" by (auto simp: sl_inv_def)
  from find_kv_repr [OF this, of k] show ?thesis
    by (auto simp: lookup_value_def end_kv_def split: option.splits)
qed

lemma index_assign_ok:
  "sl_inv sl \<Longrightarrow> \<exists>t. index_assign dv k v sl = Some t \<and> sl_inv t \<and> abs_kv t = (abs_kv sl)(k \<mapsto> v)"
  unfolding sl_inv_def by (metis index_assign_repr)

lemma remove_kv_ok:
  "sl_inv sl \<Longrightarrow> \<exists>t. remove_kv k sl = Some t \<and> sl_inv t \<and> abs_kv t = (abs_kv sl)(k := None)"
  unfolding sl_inv_def by (metis remove_kv_repr)

lemma load_dump_ok:
  assumes "codec enc dec" "sl_inv src" "sl_inv dst"
  shows "\<exists>w t. dump_kv enc src = Some w \<and> load_kv dec w dst = Some t \<and> sl_inv t
     \<and> abs_kv t = abs_kv src ++ abs_kv dst"
proof -
  obtain xs ys where R: "repr src xs" "repr dst ys" using assms(2,3) by (auto simp: sl_inv_def)
  let ?d = "\<lparr>dkeys = map (keyof src) xs, dvalues = map (valof src) xs\<rparr>"
  obtain t zs where t: "load_loop ?d 0 dst = Some t" "repr t zs"
    "abs_kv t = map_of (zip (dkeys ?d) (dvalues ?d)) ++ abs_kv dst"
    using load_loop_repr [OF R(2), of ?d 0] by auto
  have "zip (dkeys ?d) (dvalues ?d) = contents src xs"
    by (simp add: contents_def zip_map_map zip_same_conv_map)
  with t show ?thesis
    using codecD [OF assms(1)] by (auto simp: dump_kv_repr [OF R(1)] load_kv_def sl_inv_def
        abs_repr [OF R(1)])
qed

interpretation skip_table: kv_table lookup_value "index_assign dv" remove_kv sl_inv abs_kv for dv
  by unfold_locales (auto simp: lookup_value_ok index_assign_ok remove_kv_ok)

section \<open>A concrete list\<close>

definition demo_list :: "(int, int) skiplist" where
  "demo_list = the (do {
     sl \<leftarrow> kvskiplist 4 0 0 (\<lambda>n. even n);
     sl \<leftarrow> index_assign 0 3 30 sl;
     index_assign 0 1 10 sl })"

lemma demo_list_ok: "sl_inv demo_list" "abs_kv demo_list = [3 \<mapsto> 30, 1 \<mapsto> 10]"
proof -
  obtain a :: "(int, int) skiplist" where a: "kvskiplist 4 0 0 (\<lambda>n. even n) = Some a" "repr a []"
    by (rule kvskiplist_repr [of 4 0 0 "\<lambda>n. even n"]) auto
  have a0: "sl_inv a" "abs_kv a = Map.empty"
    using a(2) by (auto simp: sl_inv_def abs_repr contents_def)
  obtain b where b: "index_assign 0 3 30 a = Some b" "sl_inv b" "abs_kv b = [3 \<mapsto> 30]"
    using index_assign_ok [OF a0(1), of 0 3 30] a0(2) by auto
  obtain c where c: "index_assign 0 1 10 b = Some c" "sl_inv c" "abs_kv c = [3 \<mapsto> 30, 1 \<mapsto> 10]"
    using index_assign_ok [OF b(2), of 0 1 10] b(3) by auto
  have "demo_list = c" by (simp add: demo_list_def a(1) b(1) c(1))
  with c show "sl_inv demo_list" "abs_kv demo_list = [3 \<mapsto> 30, 1 \<mapsto> 10]" by simp_all
qed

definition demo_put :: "(int, int) dumper \<Rightarrow> string" where
  "demo_put = put_map (\<lambda>d. (dkeys d, dvalues d)) (put_pair (put_list put_int) (put_list put_int))"

definition demo_get :: "string \<Rightarrow> (int, int) dumper option" where
  "demo_get = whole (get_map (\<lambda>(ks, vs). \<lparr>dkeys = ks, dvalues = vs\<rparr>)
     (get_pair (get_list get_int) (get_list get_int)))"

lemma demo_codec: "codec demo_put demo_get"
  unfolding demo_put_def demo_get_def by (intro prefix_whole prefix_codecs) simp

section \<open>Properties of the skip list\<close>

text \<open>
  C15. \<open>find\<close> on a well-formed skip list always returns without touching invalid memory: the
  iterator of the node holding the key and its value when the abstract map has the key,
  \<open>end()\<close> otherwise.
\<close>
theorem find_kv_correct:
  assumes "sl_inv sl"
  shows "\<exists>r. find_kv sl k = Some r \<and>
    (case r of None \<Rightarrow> abs_kv sl k = None
     | Some p \<Rightarrow> \<exists>v. iter_deref sl p = Some (k, v) \<and> abs_kv sl k = Some v)"
proof -
  obtain xs where "repr sl xs" using assms by (auto simp: sl_inv_def)
  from find_kv_repr [OF this, of k] show ?thesis by (auto split: option.splits)
qed

theorem find_kv_correct_witness:
  "\<exists>p. find_kv demo_list 3 = Some (Some p) \<and> iter_deref demo_list p = Some (3, 30)"
  using find_kv_correct [OF demo_list_ok(1), of 3] demo_list_ok(2) by (auto split: option.splits)

text \<open>
  C12. \<open>operator[](k) = v\<close> returns, keeps the representation invariant (sorted, correctly
  linked on every level, counter exact, top level tight), and makes the abstract map hold
  exactly the old bindings with \<open>k\<close> bound to \<open>v\<close>; the size grows by one exactly when
  the key is new.
\<close>
theorem index_assign_correct:
  assumes "sl_inv sl"
  shows "\<exists>t. index_assign dv k v sl = Some t \<and> sl_inv t \<and> abs_kv t = (abs_kv sl)(k \<mapsto> v)
    \<and> size_kv t = (if abs_kv sl k = None then Suc (size_kv sl) else size_kv sl)"
proof -
  obtain xs where R: "repr sl xs" using assms by (auto simp: sl_inv_def)
  show ?thesis
    by (rule index_assign_repr [OF R, of dv k v]) (auto simp: sl_inv_def size_kv_def)
qed

theorem index_assign_correct_witness:
  "\<exists>t. index_assign 0 1 11 demo_list = Some t \<and> sl_inv t \<and> abs_kv t = [3 \<mapsto> 30, 1 \<mapsto> 11]
    \<and> size_kv t = size_kv demo_list"
  using index_assign_correct [OF demo_list_ok(1), of 0 1 11] demo_list_ok(2) by auto

text \<open>
  C2. \<open>insert\<close> adds a binding only when the key is new; on an existing key it returns the
  null iterator and leaves the table as it was.
\<close>
theorem insert_kv_correct:
  assumes "sl_inv sl"
  shows "\<exists>r t. insert_kv k v sl = Some (r, t) \<and> sl_inv t \<and> (r = None \<longleftrightarrow> abs_kv sl k \<noteq> None)
    \<and> abs_kv t = (if abs_kv sl k = None then (abs_kv sl)(k \<mapsto> v) else abs_kv sl)"
proof -
  obtain xs where R: "repr sl xs" using assms by (auto simp: sl_inv_def)
  show ?thesis
    by (rule insert_kv_repr [OF R, of k v]) (auto simp: sl_inv_def)
qed

theorem insert_kv_correct_witness:
  "\<exists>t. insert_kv 1 99 demo_list = Some (None, t) \<and> abs_kv t 1 = Some 10"
  using insert_kv_correct [OF demo_list_ok(1), of 1 99] demo_list_ok(2) by auto

text \<open>
  C16. \<open>remove\<close> returns, keeps the invariant, deletes exactly the given key from the abstract
  map, and decrements the counter exactly when the key was there.
\<close>
theorem remove_kv_correct:
  assumes "sl_inv sl"
  shows "\<exists>t. remove_kv k sl = Some t \<and> sl_inv t \<and> abs_kv t = (abs_kv sl)(k := None)
    \<and> size_kv t = (if abs_kv sl k = None then size_kv sl else size_kv sl - 1)"
proof -
  obtain xs where R: "repr sl xs" using assms by (auto simp: sl_inv_def)
  show ?thesis
    by (rule remove_kv_repr [OF R, of k]) (auto simp: sl_inv_def size_kv_def)
qed

theorem remove_kv_correct_witness:
  "\<exists>t. remove_kv 3 demo_list = Some t \<and> sl_inv t \<and> abs_kv t = [1 \<mapsto> 10]"
  using remove_kv_correct [OF demo_list_ok(1), of 3] demo_list_ok(2) by auto

text \<open>
  \<open>clear\<close> returns, leaves an empty well-formed list, and releases the cell of every
  node that iteration could reach.
\<close>
lemma clear_kv_correct:
  assumes "sl_inv sl"
  shows "\<exists>t. clear_kv sl = Some t \<and> sl_inv t \<and> size_kv t = 0 \<and> abs_kv t = Map.empty
    \<and> (\<forall>p. p \<noteq> head sl \<and> (\<exists>k. find_kv sl k = Some (Some p)) \<longrightarrow> cells t p = None)"
proof -
  obtain xs where R: "repr sl xs" using assms by (auto simp: sl_inv_def)
  obtain t where t: "clear_kv sl = Some t" "repr t []" "\<And>x. x \<in> set xs \<Longrightarrow> cells t x = None"
    by (rule clear_kv_repr [OF R]) auto
  have "p \<in> set xs" if "find_kv sl k = Some (Some p)" for p k
    using that by (rule find_kv_in [OF R])
  then show ?thesis
    using t by (auto simp: sl_inv_def size_kv_def repr_def abs_repr [OF t(2)] contents_def)
qed

lemma clear_kv_correct_witness:
  "\<exists>t. clear_kv demo_list = Some t \<and> sl_inv t \<and> size_kv t = 0 \<and> abs_kv t = Map.empty"
  using clear_kv_correct [OF demo_list_ok(1)] by auto



text \<open>
  \<open>load(dump())\<close>, for any archive that reads back what it wrote: the loaded list is the
  dumped one overridden by what the receiving list already held. Into an empty list this
  is a round trip; a key already present keeps its old value, because \<open>load\<close> inserts
  and never overwrites or clears.
\<close>
theorem load_dump_merge:
  assumes "codec enc dec" "sl_inv src" "sl_inv dst"
  shows "\<exists>w t. dump_kv enc src = Some w \<and> load_kv dec w dst = Some t \<and> sl_inv t
    \<and> (\<forall>k. abs_kv t k = (case abs_kv dst k of None \<Rightarrow> abs_kv src k | Some v \<Rightarrow> Some v))"
  using load_dump_ok [OF assms] by (auto simp: map_add_def)

theorem load_dump_merge_witness:
  "\<exists>w t. dump_kv demo_put demo_list = Some w \<and> load_kv demo_get w demo_list = Some t
    \<and> abs_kv t 3 = Some 30"
  using load_dump_merge [OF demo_codec demo_list_ok(1) demo_list_ok(1)] demo_list_ok(2) by auto

end
