(* ===== verification/KvRuns.thy ===== *)
theory KvRuns
  imports KvTable Steps
begin

text \<open>
  The memory of the key-value skip list over any run of its operations: the cells of the
  nodes, none of which is ever lost, and the arrays \<open>forward\<close> that the constructor of a node
  allocates and its destructor gives back. \<open>clear\<close> frees the nodes without destroying them.
\<close>

section \<open>The cells an operation leaves\<close>

lemma set_forward_frame:
  "set_forward sl p l q = Some t \<Longrightarrow> dom (cells t) = dom (cells sl) \<and> counter t = counter sl \<and> fresh t = fresh sl
    \<and> head t = head sl"
  by (auto simp: set_forward_def Option.bind_eq_Some_conv split: if_splits)

lemma link_levels_frame:
  "link_levels pre a l lvl sl = Some t \<Longrightarrow> dom (cells t) = dom (cells sl) \<and> counter t = counter sl \<and> head t = head sl"
proof (induction pre a l lvl sl arbitrary: t rule: link_levels.induct)
  case (1 pre a l lvl sl)
  show ?case
  proof (cases "l < lvl")
    case True
    then have "\<exists>p q s1 s2. pre_at pre l = Some p \<and> get_forward sl p l = Some q \<and> set_forward sl a l q = Some s1
      \<and> set_forward s1 p l (Some a) = Some s2 \<and> link_levels pre a (Suc l) lvl s2 = Some t"
      using "1.prems" by (simp add: link_levels.simps [of pre a l lvl sl] Option.bind_eq_Some_conv)
    then obtain p q s1 s2 where s: "pre_at pre l = Some p" "get_forward sl p l = Some q" "set_forward sl a l q = Some s1"
      "set_forward s1 p l (Some a) = Some s2" "link_levels pre a (Suc l) lvl s2 = Some t" by blast
    from "1.IH" [OF True s] set_forward_frame [OF s(3)] set_forward_frame [OF s(4)] show ?thesis by simp
  next
    case False
    then show ?thesis using "1.prems" by (simp add: link_levels.simps [of pre a l lvl sl])
  qed
qed

lemma unlink_levels_frame:
  "unlink_levels pre a l lvl sl = Some t \<Longrightarrow> dom (cells t) = dom (cells sl) \<and> counter t = counter sl \<and> head t = head sl"
proof (induction pre a l lvl sl arbitrary: t rule: unlink_levels.induct)
  case (1 pre a l lvl sl)
  show ?case
  proof (cases "l < lvl")
    case True
    then have "\<exists>p q. pre_at pre l = Some p \<and> get_forward sl p l = Some q \<and> (if q \<noteq> Some a then Some sl
      else Option.bind (get_forward sl a l) (\<lambda>q. Option.bind (set_forward sl p l q) (unlink_levels pre a (Suc l) lvl))) = Some t"
      using "1.prems" by (simp add: unlink_levels.simps [of pre a l lvl sl] Option.bind_eq_Some_conv [of "pre_at pre l"]
          Option.bind_eq_Some_conv [of "get_forward sl p l" for p] cong: if_cong)
    then obtain p q where p: "pre_at pre l = Some p" "get_forward sl p l = Some q" and
      r: "(if q \<noteq> Some a then Some sl
        else Option.bind (get_forward sl a l) (\<lambda>q. Option.bind (set_forward sl p l q) (unlink_levels pre a (Suc l) lvl))) = Some t"
      by blast
    show ?thesis
    proof (cases "q = Some a")
      case eq: True
      with r obtain q' s1 where u: "get_forward sl a l = Some q'" "set_forward sl p l q' = Some s1"
        "unlink_levels pre a (Suc l) lvl s1 = Some t" by (auto simp: Option.bind_eq_Some_conv)
      from eq "1.IH" [OF True p _ u] set_forward_frame [OF u(2)] show ?thesis by simp
    next
      case False
      then show ?thesis using r by simp
    qed
  next
    case False
    then show ?thesis using "1.prems" by (simp add: unlink_levels.simps [of pre a l lvl sl])
  qed
qed

lemma fill_null_frame:
  "fill_null l lvl sl = Some t \<Longrightarrow> dom (cells t) = dom (cells sl) \<and> head t = head sl"
proof (induction l lvl sl arbitrary: t rule: fill_null.induct)
  case (1 l lvl sl)
  show ?case
  proof (cases "l < lvl")
    case True
    then have "\<exists>s. set_forward sl (head sl) l None = Some s \<and> fill_null (Suc l) lvl s = Some t"
      using "1.prems" by (simp add: fill_null.simps [of l lvl sl] Option.bind_eq_Some_conv)
    then obtain s where s: "set_forward sl (head sl) l None = Some s" "fill_null (Suc l) lvl s = Some t" by blast
    from "1.IH" [OF True s] set_forward_frame [OF s(1)] show ?thesis by simp
  next
    case False
    then show ?thesis using "1.prems" by (simp add: fill_null.simps [of l lvl sl])
  qed
qed

lemma drain_frame:
  fixes sl :: "('k, 'v) skiplist"
  shows "drain sl = Some t \<Longrightarrow> dom (cells t) \<subseteq> dom (cells sl) \<and> head t = head sl"
proof (rule drain.raw_induct [of "\<lambda>sl t. dom (cells t) \<subseteq> dom (cells sl) \<and> head t = head sl"])
  fix f :: "('k, 'v) skiplist \<Rightarrow> ('k, 'v) skiplist option" and sl t :: "('k, 'v) skiplist"
  assume IH: "\<And>sl t. f sl = Some t \<Longrightarrow> dom (cells t) \<subseteq> dom (cells sl) \<and> head t = head sl"
  assume *: "Option.bind (get_forward sl (head sl) 0) (\<lambda>q. case q of None \<Rightarrow> Some sl
    | Some rm \<Rightarrow> Option.bind (get_forward sl rm 0) (\<lambda>nx. Option.bind (set_forward sl (head sl) 0 nx)
        (\<lambda>sl. f (sl\<lparr>cells := (cells sl)(rm := None)\<rparr>)))) = Some t"
  show "dom (cells t) \<subseteq> dom (cells sl) \<and> head t = head sl"
  proof (cases "get_forward sl (head sl) 0 = Some None")
    case True
    then show ?thesis using * by simp
  next
    case False
    then obtain rm nx s where s: "set_forward sl (head sl) 0 nx = Some s" "f (s\<lparr>cells := (cells s)(rm := None)\<rparr>) = Some t"
      using * by (auto simp: Option.bind_eq_Some_conv split: option.splits)
    from IH [OF s(2)] set_forward_frame [OF s(1)] show ?thesis by auto
  qed
qed

lemma M_insert_frame:
  assumes "M_insert pre k v sl = Some (a, t)"
  shows "dom (cells t) = insert (fresh sl) (dom (cells sl)) \<and> counter t = Suc (counter sl)"
  using assms link_levels_frame
  by (fastforce simp: M_insert_def M_randomLevel_def M_constructNode_def node_ctor_def Let_def case_prod_beta
      Option.bind_eq_Some_conv split: if_splits)

lemma insert_kv_frame:
  assumes "insert_kv k v sl = Some (i, t)"
  shows "if i = None then dom (cells t) = dom (cells sl) \<and> counter t = counter sl
    else dom (cells t) = insert (fresh sl) (dom (cells sl)) \<and> counter t = Suc (counter sl)"
  using assms M_insert_frame by (fastforce simp: insert_kv_def Option.bind_eq_Some_conv split: if_splits)

lemma index_assign_frame:
  assumes "index_assign dv k v sl = Some t"
  shows "(dom (cells t) = dom (cells sl) \<and> counter t = counter sl)
    \<or> (dom (cells t) = insert (fresh sl) (dom (cells sl)) \<and> counter t = Suc (counter sl))"
proof -
  from assms obtain a s where s: "operator_index dv k sl = Some (a, s)" "assign_value a v s = Some t"
    by (auto simp: index_assign_def Option.bind_eq_Some_conv)
  have "dom (cells t) = dom (cells s) \<and> counter t = counter s"
    using s(2) by (auto simp: assign_value_def Option.bind_eq_Some_conv split: if_splits)
  moreover have "s = sl \<or> (\<exists>pre i. M_insert pre k dv sl = Some (i, s))"
    using s(1) by (auto simp: operator_index_def Option.bind_eq_Some_conv split: if_splits)
  ultimately show ?thesis using M_insert_frame by metis
qed

lemma remove_kv_frame:
  assumes "remove_kv k sl = Some t"
  shows "t = sl \<or> (\<exists>r \<in> dom (cells sl). dom (cells t) = dom (cells sl) - {r} \<and> counter t = counter sl - 1)"
proof (cases "t = sl")
  case False
  with assms obtain pre r s lvl where u: "unlink_levels pre r 0 (level_now sl) sl = Some s"
    and d: "M_destroyNode r (s\<lparr>counter := counter s - 1, level_now := lvl\<rparr>) = Some t"
    by (auto simp: remove_kv_def Option.bind_eq_Some_conv Let_def split: if_splits)
  then have "cells s r \<noteq> None" "dom (cells t) = dom (cells s) - {r}" "counter t = counter s - 1"
    by (auto simp: M_destroyNode_def Option.bind_eq_Some_conv split: if_splits)
  with unlink_levels_frame [OF u] show ?thesis by (intro disjI2 bexI [of _ r]) auto
qed simp

lemma clear_kv_frame:
  assumes "clear_kv sl = Some t"
  shows "dom (cells t) \<subseteq> dom (cells sl)" "head t = head sl" "counter t = 0"
proof -
  from assms obtain a b where a: "(if level_now sl > 1 then fill_null 1 (level_now sl) sl else Some sl) = Some a"
    and b: "drain a = Some b" "t = b\<lparr>level_now := 1, counter := 0\<rparr>"
    by (auto simp: clear_kv_def Option.bind_eq_Some_conv)
  have "dom (cells a) = dom (cells sl) \<and> head a = head sl"
    using a fill_null_frame [of 1 "level_now sl" sl a] by (cases "level_now sl > 1") simp_all
  with drain_frame [OF b(1)] b(2) show "dom (cells t) \<subseteq> dom (cells sl)" "head t = head sl" "counter t = 0" by simp_all
qed

section \<open>No cell is lost\<close>

definition no_leak :: "('k::linorder, 'v) skiplist \<Rightarrow> bool" where
  "no_leak sl \<longleftrightarrow> card (dom (cells sl)) = Suc (counter sl)"

lemma repr_cells:
  assumes "repr sl xs"
  shows "finite (dom (cells sl))" "insert (head sl) (set xs) \<subseteq> dom (cells sl)"
    "card (insert (head sl) (set xs)) = Suc (counter sl)" "fresh sl \<notin> dom (cells sl)"
proof -
  have "dom (cells sl) \<subseteq> {..<fresh sl}"
    using assms by (auto simp: repr_def domIff not_less [symmetric])
  then show "finite (dom (cells sl))" "fresh sl \<notin> dom (cells sl)" by (auto intro: finite_subset)
  show "insert (head sl) (set xs) \<subseteq> dom (cells sl)"
    using assms slots_mapped by (fastforce simp: repr_def)
  have "distinct (head sl # xs)" "counter sl = length xs" using assms by (simp_all add: repr_def)
  then show "card (insert (head sl) (set xs)) = Suc (counter sl)" by (simp add: distinct_card)
qed

lemma no_leak_iff: "repr sl xs \<Longrightarrow> no_leak sl \<longleftrightarrow> dom (cells sl) = insert (head sl) (set xs)"
  using repr_cells [of sl xs] by (metis card_subset_eq no_leak_def)

text \<open>The nodes of the list are what \<open>find\<close> finds.\<close>

lemma nodes_found:
  assumes R: "repr sl xs"
  shows "{a. \<exists>k. find_kv sl k = Some (Some a)} = set xs"
proof (intro equalityI subsetI)
  fix a assume "a \<in> {a. \<exists>k. find_kv sl k = Some (Some a)}"
  then show "a \<in> set xs" using find_kv_in [OF R] by blast
next
  fix a assume a: "a \<in> set xs"
  let ?k = "keyof sl a"
  have "abs_kv sl ?k \<noteq> None"
    using a by (simp add: abs_repr [OF R] contents_def map_of_eq_None_iff image_image)
  with find_kv_repr [OF R, of ?k] obtain p where p: "find_kv sl ?k = Some (Some p)" "iter_deref sl p = Some (?k, the (abs_kv sl ?k))"
    by (auto split: option.splits)
  have px: "p \<in> set xs" using find_kv_in [OF R p(1)] .
  have "keyof sl p = ?k"
    using p(2) repr_node(1) [OF R px] slots_cells by (fastforce simp: iter_deref_def Option.bind_eq_Some_conv)
  moreover have "distinct (map (keyof sl) xs)" using R by (metis repr_def strict_sorted_iff)
  ultimately have "p = a" using px a by (metis distinct_map inj_onD)
  with p(1) show "a \<in> {a. \<exists>k. find_kv sl k = Some (Some a)}" by blast
qed

section \<open>Runs\<close>

text \<open>The destructor of the list.\<close>

definition kv_dtor :: "('k, 'v) skiplist \<Rightarrow> ('k, 'v) skiplist option" where
  "kv_dtor sl = do { sl \<leftarrow> clear_kv sl; M_destroyNode (head sl) sl }"

text \<open>
  A list with the number of arrays \<open>forward\<close> that are allocated: the constructor of a node
  allocates one and its destructor, which only \<open>_M_destroyNode\<close> calls, gives it back.
  \<open>kr_lost\<close> counts the nodes that \<open>clear\<close> has freed.
\<close>

record ('k, 'v) kv_run =
  kr_list :: "('k, 'v) skiplist"
  kr_arrays :: nat
  kr_lost :: nat

inductive kv_step :: "('k::linorder, 'v) kv_run \<Rightarrow> ('k, 'v) kv_run \<Rightarrow> bool" where
  ins: "insert_kv k v (kr_list r) = Some (i, t) \<Longrightarrow>
    kv_step r (r\<lparr>kr_list := t, kr_arrays := kr_arrays r + (if i = None then 0 else 1)\<rparr>)"
| upd: "index_assign dv k v (kr_list r) = Some t \<Longrightarrow>
    kv_step r (r\<lparr>kr_list := t, kr_arrays := kr_arrays r + (counter t - counter (kr_list r))\<rparr>)"
| del: "remove_kv k (kr_list r) = Some t \<Longrightarrow>
    kv_step r (r\<lparr>kr_list := t, kr_arrays := kr_arrays r - (counter (kr_list r) - counter t)\<rparr>)"
| rmi: "remove_iter p (kr_list r) = Some t \<Longrightarrow>
    kv_step r (r\<lparr>kr_list := t, kr_arrays := kr_arrays r - (counter (kr_list r) - counter t)\<rparr>)"
| ldl: "load_kv dec str (kr_list r) = Some t \<Longrightarrow>
    kv_step r (r\<lparr>kr_list := t, kr_arrays := kr_arrays r + (counter t - counter (kr_list r))\<rparr>)"
| clr: "clear_kv (kr_list r) = Some t \<Longrightarrow>
    kv_step r (r\<lparr>kr_list := t, kr_lost := kr_lost r + counter (kr_list r)\<rparr>)"

definition kv_start :: "('k::linorder, 'v) kv_run \<Rightarrow> bool" where
  "kv_start r \<longleftrightarrow> (\<exists>maxl dk dv c. 0 < maxl \<and> kvskiplist maxl dk dv c = Some (kr_list r)) \<and> kr_arrays r = 1 \<and> kr_lost r = 0"

definition kv_mem :: "('k::linorder, 'v) kv_run \<Rightarrow> bool" where
  "kv_mem r \<longleftrightarrow> sl_inv (kr_list r) \<and> no_leak (kr_list r) \<and> kr_arrays r = Suc (counter (kr_list r)) + kr_lost r"

lemma grow_no_leak:
  assumes "sl_inv sl" "no_leak sl"
    and "dom (cells t) = insert (fresh sl) (dom (cells sl)) \<and> counter t = Suc (counter sl)"
  shows "no_leak t"
proof -
  obtain xs where "repr sl xs" using assms(1) by (auto simp: sl_inv_def)
  from repr_cells(1,4) [OF this] assms(2,3) show ?thesis by (simp add: no_leak_def)
qed

lemma clear_no_leak:
  assumes "sl_inv sl" "no_leak sl"
  shows "\<exists>t. clear_kv sl = Some t \<and> repr t [] \<and> dom (cells t) = {head sl} \<and> head t = head sl"
proof -
  obtain xs where R: "repr sl xs" using assms(1) by (auto simp: sl_inv_def)
  obtain t where t: "clear_kv sl = Some t" "repr t []" "\<And>x. x \<in> set xs \<Longrightarrow> cells t x = None"
    by (rule clear_kv_repr [OF R]) auto
  note F = clear_kv_frame [OF t(1)]
  have "dom (cells t) \<subseteq> {head sl}" using F(1) t(3) assms(2) by (auto simp: no_leak_iff [OF R])
  then show ?thesis using t F(2) repr_cells(2) [OF t(2)] by auto
qed

lemma insert_mem:
  assumes "sl_inv sl" "no_leak sl" "insert_kv k v sl = Some (i, t)"
  shows "sl_inv t" "no_leak t" "counter t = counter sl + (if i = None then 0 else 1)"
proof -
  obtain xs where "repr sl xs" using assms(1) by (auto simp: sl_inv_def)
  from insert_kv_repr [OF this, of k v] assms(3) show "sl_inv t" by (force simp: sl_inv_def)
  note F = insert_kv_frame [OF assms(3)]
  show "counter t = counter sl + (if i = None then 0 else 1)" using F by (simp split: if_splits)
  show "no_leak t"
  proof (cases "i = None")
    case True
    then show ?thesis using F assms(2) by (simp add: no_leak_def)
  next
    case False
    then show ?thesis using F grow_no_leak [OF assms(1,2), of t] by simp
  qed
qed

lemma load_loop_mem:
  "load_loop d i sl = Some t \<Longrightarrow> sl_inv sl \<Longrightarrow> no_leak sl \<Longrightarrow> sl_inv t \<and> no_leak t \<and> counter sl \<le> counter t"
proof (induction d i sl rule: load_loop.induct)
  case (1 d i sl)
  show ?case
  proof (cases "i < length (dkeys d)")
    case True
    then have "\<exists>v r s. arr_get (dvalues d) i = Some v \<and> insert_kv (dkeys d ! i) v sl = Some (r, s)
      \<and> load_loop d (Suc i) s = Some t"
      using "1.prems"(1) by (simp add: load_loop.simps [of d i sl] Option.bind_eq_Some_conv)
    then obtain v r s where s: "arr_get (dvalues d) i = Some v" "insert_kv (dkeys d ! i) v sl = Some (r, s)"
      "load_loop d (Suc i) s = Some t" by blast
    note M = insert_mem [OF "1.prems"(2,3) s(2)]
    from "1.IH" [OF True s(1,2) refl s(3) M(1,2)] M(3) show ?thesis by simp
  next
    case False
    then show ?thesis using "1.prems" by (simp add: load_loop.simps [of d i sl])
  qed
qed

lemma remove_mem:
  assumes "sl_inv sl" "no_leak sl" "remove_kv k sl = Some t"
  shows "sl_inv t" "no_leak t" "counter t \<le> counter sl"
proof -
  show t: "sl_inv t" using remove_kv_ok [OF assms(1), of k] assms(3) by simp
  obtain xs where R: "repr sl xs" using assms(1) by (auto simp: sl_inv_def)
  obtain ys where T: "repr t ys" using t by (auto simp: sl_inv_def)
  have "no_leak t \<and> counter t \<le> counter sl"
  proof (cases "t = sl")
    case True
    then show ?thesis using assms(2) by simp
  next
    case False
    with remove_kv_frame [OF assms(3)] obtain a where a: "a \<in> dom (cells sl)"
      "dom (cells t) = dom (cells sl) - {a}" "counter t = counter sl - 1" by blast
    then have c: "card (dom (cells t)) = counter sl" using assms(2) repr_cells(1) [OF R] by (simp add: no_leak_def)
    moreover have "Suc (counter t) \<le> card (dom (cells t))" using repr_cells(1-3) [OF T] by (metis card_mono)
    ultimately show ?thesis using a(3) by (simp add: no_leak_def)
  qed
  then show "no_leak t" "counter t \<le> counter sl" by simp_all
qed

lemma kv_step_mem: "kv_step r q \<Longrightarrow> kv_mem r \<Longrightarrow> kv_mem q"
proof (induction rule: kv_step.induct)
  case (ins k v r i t)
  then show ?case using insert_mem [OF _ _ ins(1)] by (simp add: kv_mem_def)
next
  case (upd dv k v r t)
  from upd(2) have I: "sl_inv (kr_list r)" "no_leak (kr_list r)" by (simp_all add: kv_mem_def)
  have "sl_inv t" using index_assign_ok [OF I(1), of dv k v] upd(1) by simp
  then show ?case using index_assign_frame [OF upd(1)] grow_no_leak [OF I, of t] upd(2)
    by (auto simp: kv_mem_def no_leak_def)
next
  case (del k r t)
  then show ?case using remove_mem [OF _ _ del(1)] by (simp add: kv_mem_def)
next
  case (rmi p r t)
  then obtain k where "remove_kv k (kr_list r) = Some t" by (auto simp: remove_iter_def Option.bind_eq_Some_conv)
  with rmi(2) show ?case using remove_mem [of "kr_list r" k t] by (simp add: kv_mem_def)
next
  case (ldl dec str r t)
  then have "t = kr_list r \<or> (\<exists>d. load_loop d 0 (kr_list r) = Some t)"
    by (auto simp: load_kv_def Option.bind_eq_Some_conv split: if_splits)
  with ldl(2) load_loop_mem [of _ 0 "kr_list r" t] show ?case by (auto simp: kv_mem_def)
next
  case (clr r t)
  from clr(2) have I: "sl_inv (kr_list r)" "no_leak (kr_list r)" by (simp_all add: kv_mem_def)
  from clear_no_leak [OF I] clr(1) have t: "repr t []" "dom (cells t) = {head (kr_list r)}" "head t = head (kr_list r)"
    by auto
  then have "counter t = 0" "sl_inv t" by (auto simp: repr_def sl_inv_def)
  then show ?case using clr(2) t(2) by (simp add: kv_mem_def no_leak_def)
qed

lemma kv_start_mem: "kv_start r \<Longrightarrow> kv_mem r"
proof -
  assume "kv_start r"
  then obtain maxl dk dv c where c: "0 < maxl" "kvskiplist maxl dk dv c = Some (kr_list r)"
    and n: "kr_arrays r = 1" "kr_lost r = 0" by (auto simp: kv_start_def)
  from kvskiplist_empty [OF c(1), of dk dv c] c(2) have "sl_inv (kr_list r)" "counter (kr_list r) = 0"
    by (auto simp: size_kv_def)
  moreover have "kr_list r = the (kvskiplist maxl dk dv c)" using c(2) by simp
  then have "dom (cells (kr_list r)) = {0}"
    using c(1) by (simp add: kvskiplist_def M_constructNode_def node_ctor_def)
  ultimately show ?thesis by (simp add: kv_mem_def no_leak_def n)
qed

interpretation kv_runs: step_invariant kv_start kv_step kv_mem
  by unfold_locales (blast intro: kv_start_mem kv_step_mem)+



end
