(* ===== verification/Utils.thy ===== *)
theory Utils
  imports Archive "HOL-Library.Word"
begin

text \<open>
  \<open>src/utils.h\<close>: the command \<open>op\<close> with its textual archive form, the blocking queue
  \<open>safequeue\<close>, the worker loop of \<open>threadPool\<close>, the port search and \<open>to_hex\<close>/\<open>format\<close>.

  Mutexes and condition variables appear as the atomic sections they delimit: one
  definition per critical section, and a blocking wait is a list of the wake-ups seen.
\<close>

section \<open>Commands\<close>

datatype operation_t = Invalid | Get | Put

definition operation2String :: "operation_t \<Rightarrow> string" where
  "operation2String opt = (case opt of Invalid \<Rightarrow> ''Invalid'' | Put \<Rightarrow> ''Put'' | Get \<Rightarrow> ''Get'')"

definition string2Operation :: "string \<Rightarrow> operation_t" where
  "string2Operation str = (if str = ''Put'' then Put else if str = ''Get'' then Get else Invalid)"

record op =
  operation :: operation_t
  okey :: string
  ovalue :: string
  oclientId :: string
  orequestId :: int

text \<open>What \<open>op::serialize\<close> hands to the archive, in its order, and takes back from it.\<close>

type_synonym op_fields = "string \<times> string \<times> string \<times> string \<times> int"

definition op_saving :: "op \<Rightarrow> op_fields" where
  "op_saving c = (operation2String (operation c), okey c, ovalue c, oclientId c, orequestId c)"

definition op_loading :: "op_fields \<Rightarrow> op" where
  "op_loading f = (case f of (str, k, v, cl, r) \<Rightarrow>
     \<lparr>operation = string2Operation str, okey = k, ovalue = v, oclientId = cl, orequestId = r\<rparr>)"

definition op_dump :: "(op_fields \<Rightarrow> string) \<Rightarrow> op \<Rightarrow> string" where
  "op_dump enc c = enc (op_saving c)"

text \<open>\<open>load\<close>: the result and the object afterwards; \<open>None\<close> where the archive throws.\<close>

definition op_load :: "(string \<Rightarrow> op_fields option) \<Rightarrow> op \<Rightarrow> string \<Rightarrow> (bool \<times> op) option" where
  "op_load dec c str =
     (if str = [] then Some (False, c) else do { f \<leftarrow> dec str; Some (True, op_loading f) })"

lemma operation_round: "string2Operation (operation2String opt) = opt"
  by (cases opt) (auto simp: string2Operation_def operation2String_def)

lemma op_load_dump: "codec enc dec \<Longrightarrow> op_load dec c (op_dump enc d) = Some (True, d)"
  by (simp add: op_load_def op_dump_def codecD op_loading_def op_saving_def operation_round)

section \<open>The blocking queue\<close>

type_synonym 'a safequeue = "'a list"

definition sq_push :: "'a \<Rightarrow> 'a safequeue \<Rightarrow> 'a safequeue" where
  "sq_push v q = q @ [v]"

text \<open>\<open>pop()\<close>: \<open>None\<close> while it blocks on an empty container.\<close>

definition sq_pop :: "'a safequeue \<Rightarrow> ('a \<times> 'a safequeue) option" where
  "sq_pop q = (case q of [] \<Rightarrow> None | v # r \<Rightarrow> Some (v, r))"

definition sq_empty :: "'a safequeue \<Rightarrow> bool" where
  "sq_empty q = (q = [])"

text \<open>
  \<open>pop(val, timeout)\<close>: each pass of the loop that finds the container empty waits once.
  \<open>ws\<close> lists what those waits return: \<open>None\<close> for \<open>cv_status::timeout\<close>, \<open>Some q\<close> for a
  wake-up that finds the container \<open>q\<close>.
\<close>

datatype 'a pop_result = Popped 'a "'a safequeue" | TimedOut | Waiting

fun sq_pop_for :: "'a safequeue \<Rightarrow> 'a safequeue option list \<Rightarrow> 'a pop_result" where
  "sq_pop_for (v # r) ws = Popped v r"
| "sq_pop_for [] [] = Waiting"
| "sq_pop_for [] (None # ws) = TimedOut"
| "sq_pop_for [] (Some q # ws) = sq_pop_for q ws"

text \<open>What every user of the queue relies on: first in, first out, nothing lost.\<close>

locale fifo =
  fixes enq :: "'a \<Rightarrow> 'q \<Rightarrow> 'q"
    and deq :: "'q \<Rightarrow> ('a \<times> 'q) option"
    and items :: "'q \<Rightarrow> 'a list"
  assumes items_enq: "items (enq x q) = items q @ [x]"
    and deq_nil: "items q = [] \<Longrightarrow> deq q = None"
    and deq_cons: "items q = x # xs \<Longrightarrow> \<exists>r. deq q = Some (x, r) \<and> items r = xs"
begin

lemma items_enqs: "items (fold enq xs q) = items q @ xs"
  by (induction xs arbitrary: q) (simp_all add: items_enq)

primrec drain_all :: "nat \<Rightarrow> 'q \<Rightarrow> 'a list \<times> 'q" where
  "drain_all 0 q = ([], q)"
| "drain_all (Suc n) q = (case deq q of None \<Rightarrow> ([], q)
     | Some (x, r) \<Rightarrow> (let (xs, s) = drain_all n r in (x # xs, s)))"

lemma drain_all_items: "fst (drain_all n q) = take n (items q)"
proof (induction n arbitrary: q)
  case (Suc n)
  show ?case
  proof (cases "items q")
    case Nil
    then show ?thesis using deq_nil by simp
  next
    case (Cons x xs)
    with deq_cons obtain r where "deq q = Some (x, r)" "items r = xs" by blast
    with Cons Suc.IH [of r] show ?thesis by (simp add: case_prod_beta)
  qed
qed simp

lemma delivered_in_order: "items q = [] \<Longrightarrow> fst (drain_all (length xs) (fold enq xs q)) = xs"
  by (simp add: drain_all_items items_enqs)

end

interpretation sq: fifo sq_push sq_pop "\<lambda>q. q"
  by unfold_locales (simp_all add: sq_push_def sq_pop_def)

lemma sq_pop_for_Popped: "sq_pop_for q ws = Popped v r \<Longrightarrow> v # r \<in> insert q (Some -` set ws)"
  by (induction q ws rule: sq_pop_for.induct) auto

section \<open>The worker loop of the thread pool\<close>

record 'task pool =
  tasks :: "'task list"
  stop :: bool

datatype 'task worker_action = Wait | Exit | Run 'task

text \<open>One pass of the lambda in \<open>run()\<close> under the lock: wait, return, or take a task.\<close>

definition worker_pass :: "'task pool \<Rightarrow> 'task worker_action \<times> 'task pool" where
  "worker_pass p =
     (if \<not> (stop p \<or> tasks p \<noteq> []) then (Wait, p)
      else if stop p \<and> tasks p = [] then (Exit, p)
      else (Run (hd (tasks p)), p\<lparr>tasks := tl (tasks p)\<rparr>))"

definition pool_push :: "'task \<Rightarrow> 'task pool \<Rightarrow> 'task pool" where
  "pool_push t p = p\<lparr>tasks := tasks p @ [t]\<rparr>"

definition pool_stop :: "'task pool \<Rightarrow> 'task pool" where
  "pool_stop p = p\<lparr>stop := True\<rparr>"

text \<open>The passes of all workers in the order they take the lock, until the first one exits.\<close>

function pool_drain :: "'task pool \<Rightarrow> 'task list \<times> 'task pool" where
  "pool_drain p = (case worker_pass p of
     (Run t, q) \<Rightarrow> (let (ts, r) = pool_drain q in (t # ts, r))
   | (_, q) \<Rightarrow> ([], q))"
  by pat_completeness auto
termination
  by (relation "measure (\<lambda>p. length (tasks p))") (auto simp: worker_pass_def split: if_splits)

declare pool_drain.simps [simp del]

lemma pool_drain_all: "pool_drain p = (tasks p, p\<lparr>tasks := []\<rparr>)"
proof (induction p rule: pool_drain.induct)
  case (1 p)
  then show ?case
    by (cases "tasks p") (auto simp: pool_drain.simps [of p] worker_pass_def)
qed

section \<open>Ports\<close>

text \<open>
  \<open>findAvailablePort\<close>, with the socket test \<open>availablePort\<close> as the parameter \<open>avail\<close>. The
  sum \<open>port + counter\<close> is an \<open>int\<close> that is cut back to 16 bits.
\<close>

function findPort_loop :: "(16 word \<Rightarrow> bool) \<Rightarrow> 16 word \<Rightarrow> nat \<Rightarrow> nat" where
  "findPort_loop avail port c =
     (if \<not> avail (word_of_int (uint port + int c)) \<and> c < 30 then findPort_loop avail port (Suc c)
      else c)"
  by pat_completeness auto
termination
  by (relation "measure (\<lambda>(avail, port, c). 30 - c)") auto

declare findPort_loop.simps [simp del]

definition findAvailablePort :: "(16 word \<Rightarrow> bool) \<Rightarrow> 16 word \<Rightarrow> bool \<times> 16 word" where
  "findAvailablePort avail port =
     (let c = findPort_loop avail port 0 in
      if c \<ge> 30 then (False, port) else (let c = c + c in (True, port)))"

lemma findPort_loop_found:
  assumes "c \<le> 30"
  shows "findPort_loop avail port c < 30 \<longleftrightarrow>
     (\<exists>d. c \<le> d \<and> d < 30 \<and> avail (word_of_int (uint port + int d)))"
  using assms
proof (induction "30 - c" arbitrary: c)
  case 0
  then have "c = 30" by simp
  then show ?case using findPort_loop.simps [of avail port 30] by auto
next
  case (Suc n)
  define ok where "ok d = avail (word_of_int (uint port + int d))" for d
  have c: "c < 30" using Suc.hyps(2) by simp
  have step: "findPort_loop avail port c = (if ok c then c else findPort_loop avail port (Suc c))"
    using findPort_loop.simps [of avail port c] c by (simp add: ok_def)
  have IH: "findPort_loop avail port (Suc c) < 30 \<longleftrightarrow> (\<exists>d. Suc c \<le> d \<and> d < 30 \<and> ok d)"
    unfolding ok_def by (rule Suc.hyps(1)) (use Suc.hyps(2) in simp_all)
  have split: "c \<le> d \<longleftrightarrow> d = c \<or> Suc c \<le> d" for d by linarith
  have "(\<exists>d. c \<le> d \<and> d < 30 \<and> ok d) \<longleftrightarrow> ok c \<or> (\<exists>d. Suc c \<le> d \<and> d < 30 \<and> ok d)"
    unfolding split using c by blast
  then have "findPort_loop avail port c < 30 \<longleftrightarrow> (\<exists>d. c \<le> d \<and> d < 30 \<and> ok d)"
    unfolding step using IH c by presburger
  then show ?case by (simp only: ok_def)
qed

section \<open>Strings\<close>

definition hex_digit :: "nat \<Rightarrow> char" where
  "hex_digit n = ''0123456789abcdef'' ! n"

text \<open>\<open>setw(2) << setfill('0') << hex << int(c)\<close> for an unsigned char.\<close>

definition to_hex :: "string \<Rightarrow> string" where
  "to_hex input = concat (map (\<lambda>c. let n = of_char c in [hex_digit (n div 16), hex_digit (n mod 16)]) input)"

text \<open>
  \<open>format\<close>, with the text \<open>snprintf\<close> produces as parameter (\<open>None\<close> where it reports an
  error): the string is built from the whole buffer, terminating NUL included.
\<close>

definition format :: "string option \<Rightarrow> string outcome" where
  "format printed = (case printed of
     None \<Rightarrow> Throw ''Failed to format string''
   | Some s \<Rightarrow> Ret (s @ [CHR 0x00]))"

end
