(* ===== verification/Persister.thy ===== *)
theory Persister
  imports Prelude
begin

text \<open>
  \<open>src/raft/include/core/persister.h\<close> and \<open>persister.cpp\<close>: the two files of a node. The
  file system is the map \<open>files\<close> from paths to contents; \<open>writable\<close> says which paths an
  \<open>ofstream\<close> can open (the code does not check). \<open>RAFT_FILE_DIR\<close> is the empty string.
\<close>

section \<open>Paths\<close>

fun dec_digits :: "nat \<Rightarrow> string" where
  "dec_digits n = (if n < 10 then [''0123456789'' ! n] else dec_digits (n div 10) @ [''0123456789'' ! (n mod 10)])"

declare dec_digits.simps [simp del]

lemma dec_digits_inj: "dec_digits m = dec_digits n \<Longrightarrow> m = n"
proof (induction m arbitrary: n rule: dec_digits.induct)
  case (1 m)
  have ne: "dec_digits k \<noteq> []" for k by (simp add: dec_digits.simps [of k])
  have dig: "a < 10 \<Longrightarrow> b < 10 \<Longrightarrow> ''0123456789'' ! a = ''0123456789'' ! b \<Longrightarrow> a = b" for a b :: nat
  proof -
    have d: "distinct ''0123456789''" by simp
    show "a < 10 \<Longrightarrow> b < 10 \<Longrightarrow> ''0123456789'' ! a = ''0123456789'' ! b \<Longrightarrow> a = b"
      using nth_eq_iff_index_eq [OF d, of a b] by simp
  qed
  show ?case
  proof (cases "m < 10"; cases "n < 10")
    assume "m < 10" "n < 10"
    then show ?thesis using 1(2) dig by (simp add: dec_digits.simps [of m] dec_digits.simps [of n])
  next
    assume "m < 10" "\<not> n < 10"
    then show ?thesis using 1(2) ne [of "n div 10"]
      by (auto simp: dec_digits.simps [of m] dec_digits.simps [of n])
  next
    assume "\<not> m < 10" "n < 10"
    then show ?thesis using 1(2) ne by (simp add: dec_digits.simps [of m] dec_digits.simps [of n])
  next
    assume mn: "\<not> m < 10" "\<not> n < 10"
    then have "dec_digits (m div 10) = dec_digits (n div 10)" "m mod 10 = n mod 10"
      using 1(2) dig by (simp_all add: dec_digits.simps [of m] dec_digits.simps [of n])
    with 1(1) mn(1) have "m div 10 = n div 10" by blast
    with \<open>m mod 10 = n mod 10\<close> show ?thesis by (metis div_mult_mod_eq)
  qed
qed

definition state_path :: "nat \<Rightarrow> string" where
  "state_path me = ''state_'' @ dec_digits me @ ''_persist.txt''"

definition snapshot_path :: "nat \<Rightarrow> string" where
  "snapshot_path me = ''snapshot_'' @ dec_digits me @ ''_persist.txt''"

lemma paths_differ [simp]: "state_path a \<noteq> snapshot_path b" "snapshot_path b \<noteq> state_path a"
  by (simp_all add: state_path_def snapshot_path_def)

section \<open>Streams\<close>

type_synonym files = "string \<Rightarrow> string option"

record persister =
  stateFile :: string
  snapshotFile :: string
  stateFileSize :: nat
  files :: files
  writable :: "string \<Rightarrow> bool"

text \<open>\<open>ofs.open(path, trunc); ofs << s;\<close>\<close>

definition write_file :: "(string \<Rightarrow> bool) \<Rightarrow> string \<Rightarrow> string \<Rightarrow> files \<Rightarrow> files" where
  "write_file w path s fs = (if w path then fs(path \<mapsto> s) else fs)"

text \<open>
  \<open>ifs >> s\<close>: skip white space, then take characters up to the next white space. The
  string is left alone when nothing can be read; the stream stays good only when the word
  ended at white space (reaching the end of the file sets \<open>eofbit\<close>).
\<close>

definition is_space :: "char \<Rightarrow> bool" where
  "is_space c = (c \<in> {CHR '' '', CHR 0x09, CHR 0x0A, CHR 0x0B, CHR 0x0C, CHR 0x0D})"

definition extract_word :: "string \<Rightarrow> string \<Rightarrow> bool \<times> string" where
  "extract_word content s =
     (let rest = dropWhile is_space content;
          word = takeWhile (\<lambda>c. \<not> is_space c) rest
      in if rest = [] then (False, s) else (length word < length rest, word))"

definition load_file :: "files \<Rightarrow> string \<Rightarrow> string \<Rightarrow> bool \<times> string" where
  "load_file fs path s = (case fs path of None \<Rightarrow> (False, s) | Some content \<Rightarrow> extract_word content s)"

section \<open>Operations\<close>

text \<open>The constructor opens both files for writing, which truncates them.\<close>

definition persister_ctor :: "files \<Rightarrow> (string \<Rightarrow> bool) \<Rightarrow> nat \<Rightarrow> persister" where
  "persister_ctor fs w me =
     (let fs = write_file w (state_path me) [] fs;
          fs = write_file w (snapshot_path me) [] fs
      in \<lparr>stateFile = state_path me, snapshotFile = snapshot_path me, stateFileSize = 0,
          files = fs, writable = w\<rparr>)"

definition M_persistState :: "string \<Rightarrow> persister \<Rightarrow> persister" where
  "M_persistState state p =
     p\<lparr>files := write_file (writable p) (stateFile p) state (files p), stateFileSize := length state\<rparr>"

definition M_persistSnapshot :: "string \<Rightarrow> persister \<Rightarrow> persister" where
  "M_persistSnapshot snapshot p =
     p\<lparr>files := write_file (writable p) (snapshotFile p) snapshot (files p)\<rparr>"

definition persist_state :: "string \<Rightarrow> persister \<Rightarrow> persister" where
  "persist_state state p = M_persistState state p"

definition persist_both :: "string \<Rightarrow> string \<Rightarrow> persister \<Rightarrow> persister" where
  "persist_both state snapshot p = M_persistSnapshot snapshot (M_persistState state p)"

definition loadStateSize :: "persister \<Rightarrow> nat" where
  "loadStateSize p = stateFileSize p"

definition loadSnapshot :: "persister \<Rightarrow> string \<Rightarrow> bool \<times> string" where
  "loadSnapshot p s = load_file (files p) (snapshotFile p) s"

definition loadState :: "persister \<Rightarrow> string \<Rightarrow> bool \<times> string" where
  "loadState p s = load_file (files p) (stateFile p) s"

section \<open>What a read gives back\<close>

definition one_word :: "string \<Rightarrow> bool" where
  "one_word s \<longleftrightarrow> s \<noteq> [] \<and> (\<forall>c \<in> set s. \<not> is_space c)"

lemma extract_one_word: "one_word s \<Longrightarrow> extract_word s t = (False, s)"
proof -
  assume a: "one_word s"
  then have d: "dropWhile is_space s = s" by (cases s) (auto simp: one_word_def)
  have t: "takeWhile (\<lambda>c. \<not> is_space c) s = s" using a by (simp add: one_word_def)
  show ?thesis unfolding extract_word_def Let_def d t using a by (simp add: one_word_def)
qed

lemma extract_first_word:
  "one_word w \<Longrightarrow> is_space c \<Longrightarrow> extract_word (w @ c # rest) t = (True, w)"
proof -
  assume a: "one_word w" "is_space c"
  then have "dropWhile is_space (w @ c # rest) = w @ c # rest" by (cases w) (auto simp: one_word_def)
  moreover have "takeWhile (\<lambda>c. \<not> is_space c) (w @ c # rest) = w"
    using a by (simp add: one_word_def takeWhile_append2)
  ultimately show ?thesis using a by (simp add: extract_word_def)
qed

definition own_files :: "nat \<Rightarrow> persister \<Rightarrow> bool" where
  "own_files me p \<longleftrightarrow> stateFile p = state_path me \<and> snapshotFile p = snapshot_path me
     \<and> writable p (state_path me) \<and> writable p (snapshot_path me)"

lemma load_after_persist:
  "own_files me p \<Longrightarrow> loadState (persist_both st sn p) t = extract_word st t"
  "own_files me p \<Longrightarrow> loadSnapshot (persist_both st sn p) t = extract_word sn t"
  "own_files me p \<Longrightarrow> loadState (persist_state st p) t = extract_word st t"
  by (simp_all add: own_files_def persist_both_def persist_state_def M_persistState_def
      M_persistSnapshot_def loadState_def loadSnapshot_def load_file_def write_file_def)

lemma persist_keeps_snapshot:
  "own_files me p \<Longrightarrow> loadSnapshot (persist_state st p) t = loadSnapshot p t"
  by (simp add: own_files_def persist_state_def M_persistState_def loadSnapshot_def load_file_def
      write_file_def)

lemma own_files_kept [simp]:
  "own_files me (persist_state st p) = own_files me p"
  "own_files me (persist_both st sn p) = own_files me p"
  by (simp_all add: own_files_def persist_both_def persist_state_def M_persistState_def
      M_persistSnapshot_def)

lemma ctor_empties:
  assumes "w (state_path me)" "w (snapshot_path me)"
  shows "own_files me (persister_ctor fs w me)"
    and "loadState (persister_ctor fs w me) t = (False, t)"
    and "loadSnapshot (persister_ctor fs w me) t = (False, t)"
  using assms by (simp_all add: own_files_def persister_ctor_def loadState_def loadSnapshot_def
      load_file_def write_file_def extract_word_def)

end
