(* ===== verification/RaftNode.thy ===== *)
theory RaftNode
  imports Utils Persister
begin

text \<open>
  One Raft node, \<open>src/raft/include/core/raft.h\<close> and \<open>src/raft/src/core/raft.cpp\<close>: its state
  and every member function. A function that takes the mutex is one atomic step on
  \<open>raft_state\<close>; where the code spawns a thread, the step returns the \<open>task\<close> the thread
  runs. Times are nanoseconds, \<open>now\<close> the clock reading the step makes.

  C++ \<open>int\<close>s are mathematical integers here (the code never guards against their
  overflow); \<open>size_t\<close> fields of a message are 64-bit words. \<open>S\<close> is the pair of serialisation
  libraries (protobuf for log entries, Boost for the node and the commands).
\<close>

section \<open>Messages\<close>

datatype net_state = DISCONNECTED | CONNECTED
datatype vote_state = KILLED | VOTED | EXPIRE | NORMAL

record log_entry =
  entry_command :: string
  entry_term :: int
  entry_index :: int

record append_args =
  aa_term :: int
  aa_leader_id :: int
  aa_prev_log_index :: int
  aa_prev_log_term :: int
  aa_entries :: "log_entry list"
  aa_leader_commit :: int

record append_reply =
  ar_term :: int
  ar_success :: bool
  ar_update_next_index :: int
  ar_state :: net_state

record vote_args =
  va_term :: int
  va_candidate_id :: int
  va_last_log_index :: int
  va_last_log_term :: int

record vote_reply =
  vr_term :: int
  vr_vote_granted :: bool
  vr_state :: vote_state

record snapshot_args =
  sa_leader_id :: int
  sa_term :: int
  sa_last_index :: int
  sa_last_term :: int
  sa_data :: string

record snapshot_reply =
  sr_term :: int

text \<open>A message without its fields set holds the defaults of proto3.\<close>

definition append_reply0 :: append_reply where
  "append_reply0 = \<lparr>ar_term = 0, ar_success = False, ar_update_next_index = 0, ar_state = DISCONNECTED\<rparr>"

definition vote_reply0 :: vote_reply where
  "vote_reply0 = \<lparr>vr_term = 0, vr_vote_granted = False, vr_state = KILLED\<rparr>"

definition snapshot_reply0 :: snapshot_reply where
  "snapshot_reply0 = \<lparr>sr_term = 0\<rparr>"

record apply_message =
  validCommand :: bool
  commandIndex :: "64 word"
  command :: string
  validSnapshot :: bool
  snapshotIndex :: "64 word"
  snapshotTerm :: "64 word"
  snapshot :: string

definition command_message :: "bool \<Rightarrow> 64 word \<Rightarrow> string \<Rightarrow> apply_message" where
  "command_message valid_cmd cmd_index cmd =
     \<lparr>validCommand = valid_cmd, commandIndex = cmd_index, command = cmd,
      validSnapshot = False, snapshotIndex = - 1, snapshotTerm = - 1, snapshot = []\<rparr>"

definition snapshot_message :: "bool \<Rightarrow> 64 word \<Rightarrow> 64 word \<Rightarrow> string \<Rightarrow> apply_message" where
  "snapshot_message valid_snapshot snapshot_index snapshot_term shot =
     \<lparr>validCommand = False, commandIndex = - 1, command = [],
      validSnapshot = valid_snapshot, snapshotIndex = snapshot_index,
      snapshotTerm = snapshot_term, snapshot = shot\<rparr>"

section \<open>State\<close>

datatype node_identity = FOLLOWER | CANDIDATE | LEADER

datatype match_log_result = WRONG_INDEX | MISMATCH | MATCH

record persist_node =
  pn_logs :: "string list"
  pn_term :: int
  pn_vote4 :: int
  pn_lastSnapshotIndex :: int
  pn_lastSnapshotTerm :: int

record serial =
  ser_entry :: "log_entry \<Rightarrow> string"
  par_entry :: "string \<Rightarrow> log_entry"
  out_node :: "persist_node \<Rightarrow> string"
  in_node :: "string \<Rightarrow> persist_node option"
  out_op :: "op_fields \<Rightarrow> string"
  in_op :: "string \<Rightarrow> op_fields option"

definition serial_ok :: "serial \<Rightarrow> bool" where
  "serial_ok S \<longleftrightarrow> (\<forall>e. par_entry S (ser_entry S e) = e) \<and> codec (out_node S) (in_node S)
     \<and> codec (out_op S) (in_op S)"

record raft_state =
  helpers_size :: nat
  logs :: "log_entry list"
  nextIndex :: "int list"
  matchIndex :: "int list"
  lastResetElectionTime :: int
  lastResetHeartBeatTime :: int
  pstr :: persister
  commitIndex :: int
  appliedIndex :: int
  lastSnapshotIndex :: int
  lastSnapshotTerm :: int
  me :: int
  cur_term :: int
  vote4 :: int
  identity :: node_identity

text \<open>The detached threads the node starts.\<close>

datatype task =
    SendAppendEntries nat append_args append_reply
  | SendRequestVote nat vote_args
  | SendSnapshot nat
  | HeartBeat
  | PushMessage apply_message

definition invalidUpdateNextIndex :: int where
  "invalidUpdateNextIndex = - 2"

section \<open>Log indices\<close>

definition M_valideIndex :: "int \<Rightarrow> int \<Rightarrow> int \<Rightarrow> bool" where
  "M_valideIndex lo index hi = (lo \<le> index \<and> index \<le> hi)"

definition M_getLastLogIndex :: "raft_state \<Rightarrow> int" where
  "M_getLastLogIndex s = (if logs s = [] then lastSnapshotIndex s else entry_index (last (logs s)))"

definition M_getLastLogTerm :: "raft_state \<Rightarrow> int" where
  "M_getLastLogTerm s = (if logs s = [] then lastSnapshotTerm s else entry_term (last (logs s)))"

definition M_getSlicesIndexFromLogIndex :: "raft_state \<Rightarrow> int \<Rightarrow> int" where
  "M_getSlicesIndexFromLogIndex s index = index - lastSnapshotIndex s - 1"

definition M_getNewCommandIndex :: "raft_state \<Rightarrow> int" where
  "M_getNewCommandIndex s = M_getLastLogIndex s + 1"

definition M_getLogTerm :: "raft_state \<Rightarrow> int \<Rightarrow> int option" where
  "M_getLogTerm s index =
     (if index = lastSnapshotIndex s then Some (lastSnapshotTerm s)
      else if \<not> M_valideIndex (lastSnapshotIndex s) index (M_getLastLogIndex s) then Some (- 2)
      else do {
        e \<leftarrow> arr_geti (logs s) (M_getSlicesIndexFromLogIndex s index);
        Some (entry_term e) })"

definition M_matchLogTerm :: "raft_state \<Rightarrow> int \<Rightarrow> int \<Rightarrow> match_log_result option" where
  "M_matchLogTerm s index t = do {
     lastTerm \<leftarrow> M_getLogTerm s index;
     Some (if lastTerm = - 2 then WRONG_INDEX else if lastTerm = t then MATCH else MISMATCH) }"

definition M_receiveVote :: "raft_state \<Rightarrow> int \<Rightarrow> int \<Rightarrow> bool" where
  "M_receiveVote s index t =
     (let lastLogIndex = M_getLastLogIndex s; lastLogTerm = M_getLastLogTerm s
      in t > lastLogTerm \<or> (t = lastLogTerm \<and> index \<ge> lastLogIndex))"

definition M_getPreviousLogInfo :: "raft_state \<Rightarrow> nat \<Rightarrow> (int \<times> int) option" where
  "M_getPreviousLogInfo s server = do {
     nx \<leftarrow> arr_get (nextIndex s) server;
     (if nx = lastSnapshotIndex s + 1 then Some (lastSnapshotIndex s, lastSnapshotTerm s)
      else do {
        let index = nx - 1;
        e \<leftarrow> arr_geti (logs s) (M_getSlicesIndexFromLogIndex s index);
        Some (index, entry_term e) }) }"

section \<open>Persistence and construction\<close>

definition M_dump :: "serial \<Rightarrow> raft_state \<Rightarrow> string" where
  "M_dump S s = out_node S
     \<lparr>pn_logs = map (ser_entry S) (logs s), pn_term = cur_term s, pn_vote4 = vote4 s,
      pn_lastSnapshotIndex = lastSnapshotIndex s, pn_lastSnapshotTerm = lastSnapshotTerm s\<rparr>"

definition M_persist :: "serial \<Rightarrow> raft_state \<Rightarrow> raft_state" where
  "M_persist S s = s\<lparr>pstr := persist_state (M_dump S s) (pstr s)\<rparr>"

definition M_load :: "serial \<Rightarrow> string \<Rightarrow> raft_state \<Rightarrow> raft_state outcome" where
  "M_load S data s =
     (if data = [] then Ret s
      else case in_node S data of
        None \<Rightarrow> Throw ''archive_exception''
      | Some node \<Rightarrow> Ret (s\<lparr>cur_term := pn_term node, vote4 := pn_vote4 node,
          lastSnapshotIndex := pn_lastSnapshotIndex node,
          lastSnapshotTerm := pn_lastSnapshotTerm node,
          logs := map (par_entry S) (pn_logs node)\<rparr>))"

definition M_identityChange ::
  "serial \<Rightarrow> node_identity \<Rightarrow> int \<Rightarrow> int \<Rightarrow> raft_state \<Rightarrow> raft_state" where
  "M_identityChange S iden t vote s =
     M_persist S (s\<lparr>identity := iden, cur_term := t, vote4 := vote\<rparr>)"

definition raft_ctor :: "serial \<Rightarrow> int \<Rightarrow> int \<Rightarrow> persister \<Rightarrow> nat \<Rightarrow> raft_state outcome" where
  "raft_ctor S now me0 p n =
     (let s = \<lparr>helpers_size = n, logs = [], nextIndex = replicate n 0, matchIndex = replicate n 0,
               lastResetElectionTime = now, lastResetHeartBeatTime = now, pstr = p,
               commitIndex = 0, appliedIndex = 0, lastSnapshotIndex = 0, lastSnapshotTerm = 0,
               me = me0, cur_term = 0, vote4 = - 1, identity = FOLLOWER\<rparr>;
          state = snd (loadState (pstr s) [])
      in and_then (M_load S state s) (\<lambda>s.
           Ret (if lastSnapshotIndex s > 0 then s\<lparr>appliedIndex := lastSnapshotIndex s\<rparr> else s)))"

section \<open>The interface of the application\<close>

definition getState :: "raft_state \<Rightarrow> int \<times> bool" where
  "getState s = (cur_term s, identity s = LEADER)"

text \<open>The size comes back as a \<open>long long\<close> and is cut to a 32-bit \<open>int\<close>.\<close>

definition getRaftStateSize :: "raft_state \<Rightarrow> int" where
  "getRaftStateSize s = sint (of_nat (loadStateSize (pstr s)) :: 32 word)"

definition raft_execute :: "serial \<Rightarrow> op \<Rightarrow> raft_state \<Rightarrow> (int \<times> int) \<times> raft_state" where
  "raft_execute S opt s =
     (if identity s = LEADER then
        let new_index = M_getNewCommandIndex s;
            entry = \<lparr>entry_command = op_dump (out_op S) opt, entry_term = cur_term s,
                     entry_index = new_index\<rparr>;
            s = M_persist S (s\<lparr>logs := logs s @ [entry]\<rparr>)
        in ((entry_index entry, entry_term entry), s)
      else ((- 1, - 1), s))"

definition raft_persist ::
  "serial \<Rightarrow> int \<Rightarrow> string \<Rightarrow> raft_state \<Rightarrow> (bool \<times> raft_state) option" where
  "raft_persist S index shot s =
     (if \<not> M_valideIndex (lastSnapshotIndex s + 1) index (commitIndex s) then Some (False, s)
      else do {
        let slices = M_getSlicesIndexFromLogIndex s index;
        let s = s\<lparr>lastSnapshotIndex := index\<rparr>;
        e \<leftarrow> arr_geti (logs s) slices;
        let s = s\<lparr>lastSnapshotTerm := entry_term e\<rparr>;
        rest \<leftarrow> (if int (length (logs s)) - 1 = slices then Some []
                 else erase_front (logs s) (slices + 1));
        let s = s\<lparr>logs := rest\<rparr>;
        let s = (if index > commitIndex s then s\<lparr>commitIndex := index\<rparr> else s);
        let s = (if index > appliedIndex s then s\<lparr>appliedIndex := index\<rparr> else s);
        Some (True, s\<lparr>pstr := persist_both (M_dump S s) shot (pstr s)\<rparr>) })"

text \<open>
  \<open>waitApplied\<close>: \<open>s\<close> is the state when the call takes the lock, \<open>obs\<close> the states seen at
  each wake-up of the condition variable, the last one at the timeout.
\<close>

fun waitApplied_loop :: "int \<Rightarrow> raft_state \<Rightarrow> raft_state list \<Rightarrow> bool" where
  "waitApplied_loop wait4 s obs =
     (if appliedIndex s \<ge> wait4 then True
      else case obs of [] \<Rightarrow> False | t # ts \<Rightarrow> waitApplied_loop wait4 t ts)"

declare waitApplied_loop.simps [simp del]

definition waitApplied :: "raft_state \<Rightarrow> raft_state list \<Rightarrow> bool" where
  "waitApplied s obs = waitApplied_loop (commitIndex s) s obs"

section \<open>Applying committed entries\<close>

function getApply_loop ::
  "raft_state \<Rightarrow> apply_message list \<Rightarrow> (apply_message list \<times> raft_state) option" where
  "getApply_loop s msgs =
     (if appliedIndex s < commitIndex s then do {
        let s = s\<lparr>appliedIndex := appliedIndex s + 1\<rparr>;
        e \<leftarrow> arr_geti (logs s) (M_getSlicesIndexFromLogIndex s (appliedIndex s));
        getApply_loop s
          (msgs @ [command_message True (word_of_int (appliedIndex s)) (entry_command e)]) }
      else Some (msgs, s))"
  by pat_completeness auto
termination
  by (relation "measure (\<lambda>(s, msgs). nat (commitIndex s - appliedIndex s))") auto

declare getApply_loop.simps [simp del]

definition M_getApplyMessages :: "raft_state \<Rightarrow> (apply_message list \<times> raft_state) outcome" where
  "M_getApplyMessages s =
     (if commitIndex s > M_getLastLogIndex s then Throw ''commitIndex > lastLogIndex''
      else if appliedIndex s > commitIndex s then Throw ''appliedIndex > commitIndex''
      else of_opt (getApply_loop s []))"

text \<open>One round of \<open>_L_applierTicker\<close>, with the channel of the application.\<close>

definition L_applierTicker ::
  "raft_state \<Rightarrow> apply_message safequeue \<Rightarrow> (apply_message safequeue \<times> raft_state) outcome" where
  "L_applierTicker s chan =
     and_then (M_getApplyMessages s) (\<lambda>(msgs, s).
       Ret (if msgs \<noteq> [] then fold sq_push msgs chan else chan, s))"

definition M_pushMessage :: "apply_message \<Rightarrow> apply_message safequeue \<Rightarrow> apply_message safequeue" where
  "M_pushMessage msg chan = sq_push msg chan"

end
