(* ===== verification/RaftHandlers.thy ===== *)
theory RaftHandlers
  imports RaftNode
begin

text \<open>
  The protocol steps of \<open>raft.cpp\<close>: the heartbeat and election rounds, the handling of the
  replies they bring, and the three remote calls. Every definition is one critical section
  under \<open>_M_mutex\<close>.
\<close>

section \<open>Sending\<close>

text \<open>
  \<open>_L_heartBeat\<close>, the body of the loop for one peer. The counter \<open>appendNum\<close> shared by the
  round's threads starts at 1; it is an argument of \<open>L_sendAppendEntries\<close>.
\<close>

definition heartBeat_task :: "raft_state \<Rightarrow> nat \<Rightarrow> task option" where
  "heartBeat_task s i = do {
     nx \<leftarrow> arr_get (nextIndex s) i;
     (if nx \<le> lastSnapshotIndex s then Some (SendSnapshot i)
      else do {
        (prevLogIndex, prevLogTerm) \<leftarrow> M_getPreviousLogInfo s i;
        let entries = (if prevLogIndex = lastSnapshotIndex s then logs s
                       else from_index (logs s) (M_getSlicesIndexFromLogIndex s prevLogIndex + 1));
        Some (SendAppendEntries i
          \<lparr>aa_term = cur_term s, aa_leader_id = me s, aa_prev_log_index = prevLogIndex,
           aa_prev_log_term = prevLogTerm, aa_entries = entries,
           aa_leader_commit = commitIndex s\<rparr>
          (append_reply0\<lparr>ar_state := DISCONNECTED\<rparr>)) }) }"

primrec heartBeat_loop :: "raft_state \<Rightarrow> nat list \<Rightarrow> task list option" where
  "heartBeat_loop s [] = Some []"
| "heartBeat_loop s (i # is) =
     (if int i = me s then heartBeat_loop s is
      else do { t \<leftarrow> heartBeat_task s i; ts \<leftarrow> heartBeat_loop s is; Some (t # ts) })"

definition L_heartBeat :: "int \<Rightarrow> raft_state \<Rightarrow> (task list \<times> raft_state) option" where
  "L_heartBeat now s =
     (if identity s = LEADER then do {
        ts \<leftarrow> heartBeat_loop s [0..<helpers_size s];
        Some (ts, s\<lparr>lastResetHeartBeatTime := now\<rparr>) }
      else Some ([], s))"

definition L_stand4Election :: "serial \<Rightarrow> int \<Rightarrow> raft_state \<Rightarrow> task list \<times> raft_state" where
  "L_stand4Election S now s =
     (if identity s \<noteq> LEADER then
        let s = M_identityChange S CANDIDATE (cur_term s + 1) (me s) s;
            s = s\<lparr>lastResetElectionTime := now\<rparr>;
            ts = map (\<lambda>i. SendRequestVote i
                   \<lparr>va_term = cur_term s, va_candidate_id = me s,
                    va_last_log_index = M_getLastLogIndex s, va_last_log_term = M_getLastLogTerm s\<rparr>)
                 (filter (\<lambda>i. int i \<noteq> me s) [0..<helpers_size s])
        in (ts, s)
      else ([], s))"

section \<open>Handling replies\<close>

text \<open>More than half of the nodes: \<open>(_M_helpers.size() >> 1) + 1\<close>.\<close>

definition over_half :: "raft_state \<Rightarrow> int" where
  "over_half s = int (drop_bit 1 (helpers_size s)) + 1"

text \<open>
  \<open>rpc\<close> is what the remote call brings back: \<open>None\<close> when it failed. The result is the
  returned boolean, the shared counter and the state.
\<close>

definition L_sendAppendEntries ::
  "serial \<Rightarrow> int \<Rightarrow> nat \<Rightarrow> append_args \<Rightarrow> append_reply option \<Rightarrow> int \<Rightarrow> raft_state
    \<Rightarrow> (bool \<times> int \<times> raft_state) outcome" where
  "L_sendAppendEntries S now server args rpc appendNum s = (case rpc of
     None \<Rightarrow> Ret (False, appendNum, s)
   | Some reply \<Rightarrow>
     if ar_state reply = DISCONNECTED then Ret (True, appendNum, s)
     else if ar_term reply > cur_term s then
       Ret (True, appendNum,
         (M_identityChange S FOLLOWER (ar_term reply) (- 1) s)\<lparr>lastResetElectionTime := now\<rparr>)
     else if ar_term reply < cur_term s \<or> identity s \<noteq> LEADER then Ret (True, appendNum, s)
     else if \<not> ar_success reply then
       (if ar_update_next_index reply \<noteq> invalidUpdateNextIndex then
          and_then (of_opt (arr_set (nextIndex s) server (ar_update_next_index reply)))
            (\<lambda>nx. Ret (True, appendNum, s\<lparr>nextIndex := nx\<rparr>))
        else Ret (True, appendNum, s))
     else
       let appendNum = appendNum + 1; sent = aa_prev_log_index args + int (length (aa_entries args)) in
       and_then (of_opt (do {
           m \<leftarrow> arr_get (matchIndex s) server;
           mi \<leftarrow> arr_set (matchIndex s) server (max m sent);
           nx \<leftarrow> arr_set (nextIndex s) server (max m sent + 1);
           Some (max m sent + 1, s\<lparr>matchIndex := mi, nextIndex := nx\<rparr>) })) (\<lambda>(nx, s).
       let lastLogIndex = M_getLastLogIndex s in
       if nx > lastLogIndex + 1 then Throw ''nextIndex > lastLogIndex + 1''
       else
         let (appendNum, s) =
           (if appendNum \<ge> over_half s then
              (0, if aa_entries args \<noteq> [] \<and> entry_term (last (aa_entries args)) = cur_term s
                  then s\<lparr>commitIndex := max (commitIndex s) sent\<rparr> else s)
            else (appendNum, s))
         in if commitIndex s > lastLogIndex then Throw ''commitIndex > lastLogIndex''
            else Ret (True, appendNum, s)))"

definition L_sendRequestVote ::
  "serial \<Rightarrow> nat \<Rightarrow> vote_args \<Rightarrow> vote_reply option \<Rightarrow> int \<Rightarrow> raft_state
    \<Rightarrow> (bool \<times> int \<times> task list \<times> raft_state) option" where
  "L_sendRequestVote S server args rpc voteNum s = (case rpc of
     None \<Rightarrow> Some (False, voteNum, [], s)
   | Some reply \<Rightarrow>
     if vr_term reply > cur_term s then
       Some (True, voteNum, [], M_identityChange S FOLLOWER (vr_term reply) (- 1) s)
     else if vr_term reply < cur_term s \<or> \<not> vr_vote_granted reply then Some (True, voteNum, [], s)
     else
       let voteNum = voteNum + 1 in
       if voteNum \<ge> over_half s then
         (let voteNum = 0 in
          if identity s = LEADER then Some (True, voteNum, [], s)
          else do {
            let s = s\<lparr>identity := LEADER\<rparr>;
            let lastLogIndex = M_getLastLogIndex s;
            let s = s\<lparr>nextIndex := replicate (helpers_size s) (lastLogIndex + 1)\<rparr>;
            mi \<leftarrow> arr_seti (replicate (helpers_size s) 0) (me s) lastLogIndex;
            let s = s\<lparr>matchIndex := mi\<rparr>;
            Some (True, voteNum, [HeartBeat], M_persist S s) })
       else Some (True, voteNum, [], s))"

text \<open>\<open>_L_sendSnapshot\<close>: the arguments built under the lock, then the reply.\<close>

definition sendSnapshot_args :: "raft_state \<Rightarrow> snapshot_args" where
  "sendSnapshot_args s =
     \<lparr>sa_leader_id = me s, sa_term = cur_term s, sa_last_index = lastSnapshotIndex s,
      sa_last_term = lastSnapshotTerm s, sa_data = snd (loadSnapshot (pstr s) [])\<rparr>"

definition sendSnapshot_reply ::
  "serial \<Rightarrow> int \<Rightarrow> nat \<Rightarrow> snapshot_args \<Rightarrow> snapshot_reply option \<Rightarrow> raft_state \<Rightarrow> raft_state option" where
  "sendSnapshot_reply S now server args rpc s = (case rpc of
     None \<Rightarrow> Some s
   | Some reply \<Rightarrow>
     if sr_term reply > cur_term s then
       Some ((M_identityChange S FOLLOWER (sr_term reply) (- 1) s)\<lparr>lastResetElectionTime := now\<rparr>)
     else if identity s \<noteq> LEADER \<or> sa_term args \<noteq> cur_term s then Some s
     else do {
       mi \<leftarrow> arr_set (matchIndex s) server (sa_last_index args);
       m \<leftarrow> arr_get mi server;
       nx \<leftarrow> arr_set (nextIndex s) server (m + 1);
       Some (s\<lparr>matchIndex := mi, nextIndex := nx\<rparr>) })"

section \<open>The remote calls\<close>

text \<open>
  The search for the first entry of the term at \<open>prev_log_index\<close>:
  \<open>for(index = prev; index >= _M_lastSnapshotIndex; --index)\<close>, starting from the answer \<open>upd\<close>.
\<close>

function rollback_loop :: "raft_state \<Rightarrow> int \<Rightarrow> int \<Rightarrow> int \<Rightarrow> int option" where
  "rollback_loop s prev index upd =
     (if index \<ge> lastSnapshotIndex s then do {
        a \<leftarrow> M_getLogTerm s index;
        b \<leftarrow> M_getLogTerm s prev;
        if a \<noteq> b then Some (index + 1) else rollback_loop s prev (index - 1) upd }
      else Some upd)"
  by pat_completeness auto
termination
  by (relation "measure (\<lambda>(s, prev, index, upd). nat (index - lastSnapshotIndex s + 1))") auto

declare rollback_loop.simps [simp del]

text \<open>The loop over the entries sent: append, keep, or overwrite one entry.\<close>

definition put_entry :: "raft_state \<Rightarrow> log_entry \<Rightarrow> raft_state outcome" where
  "put_entry s log =
     (if entry_index log > M_getLastLogIndex s then Ret (s\<lparr>logs := logs s @ [log]\<rparr>)
      else
        let slicesIndex = M_getSlicesIndexFromLogIndex s (entry_index log) in
        and_then (of_opt (arr_geti (logs s) slicesIndex)) (\<lambda>mine.
          if entry_term mine = entry_term log then
            (if entry_command mine \<noteq> entry_command log then Throw ''different commands'' else Ret s)
          else and_then (of_opt (arr_seti (logs s) slicesIndex log)) (\<lambda>l. Ret (s\<lparr>logs := l\<rparr>))))"

primrec put_entries :: "log_entry list \<Rightarrow> raft_state \<Rightarrow> raft_state outcome" where
  "put_entries [] s = Ret s"
| "put_entries (e # es) s = and_then (put_entry s e) (put_entries es)"

definition L_appendEntries ::
  "serial \<Rightarrow> int \<Rightarrow> append_args \<Rightarrow> raft_state \<Rightarrow> (append_reply \<times> raft_state) outcome" where
  "L_appendEntries S now args s =
     (let reply = append_reply0\<lparr>ar_state := CONNECTED\<rparr> in
      if aa_term args < cur_term s then
        Ret (reply\<lparr>ar_success := False, ar_term := cur_term s,
                   ar_update_next_index := invalidUpdateNextIndex\<rparr>, s)
      else
        let s = (if aa_term args > cur_term s then M_identityChange S FOLLOWER (aa_term args) (- 1) s
                 else s);
            s = s\<lparr>identity := FOLLOWER, lastResetElectionTime := now\<rparr>;
            reply = reply\<lparr>ar_term := cur_term s\<rparr>;
            prev = aa_prev_log_index args
        in
        if prev > M_getLastLogIndex s then
          Ret (reply\<lparr>ar_success := False, ar_update_next_index := M_getLastLogIndex s + 1\<rparr>,
               M_persist S s)
        else if prev < lastSnapshotIndex s then
          Ret (reply\<lparr>ar_success := False, ar_update_next_index := lastSnapshotIndex s + 1\<rparr>,
               M_persist S s)
        else and_then (of_opt (M_matchLogTerm s prev (aa_prev_log_term args))) (\<lambda>r.
          if r \<noteq> MATCH then
            and_then (of_opt (rollback_loop s prev prev prev)) (\<lambda>upd.
              Ret (reply\<lparr>ar_update_next_index := upd, ar_success := False\<rparr>, M_persist S s))
          else
            and_then (put_entries (aa_entries args) s) (\<lambda>s.
              let s = (if aa_leader_commit args > commitIndex s
                       then s\<lparr>commitIndex := min (aa_leader_commit args) (M_getLastLogIndex s)\<rparr>
                       else s)
              in Ret (reply\<lparr>ar_success := True\<rparr>, M_persist S s))))"

definition L_requestVote ::
  "serial \<Rightarrow> int \<Rightarrow> vote_args \<Rightarrow> raft_state \<Rightarrow> vote_reply \<times> raft_state" where
  "L_requestVote S now args s =
     (if va_term args < cur_term s then
        (vote_reply0\<lparr>vr_term := cur_term s, vr_state := EXPIRE, vr_vote_granted := False\<rparr>,
         M_persist S s)
      else
        let s = (if va_term args > cur_term s then M_identityChange S FOLLOWER (va_term args) (- 1) s
                 else s)
        in
        if \<not> M_receiveVote s (va_last_log_index args) (va_last_log_term args) then
          (vote_reply0\<lparr>vr_term := cur_term s, vr_state := VOTED, vr_vote_granted := False\<rparr>,
           M_persist S s)
        else if vote4 s \<noteq> - 1 \<and> va_candidate_id args \<noteq> vote4 s then
          (vote_reply0\<lparr>vr_term := cur_term s, vr_state := VOTED, vr_vote_granted := False\<rparr>,
           M_persist S s)
        else
          let s = s\<lparr>vote4 := va_candidate_id args, lastResetElectionTime := now\<rparr> in
          (vote_reply0\<lparr>vr_term := cur_term s, vr_state := NORMAL, vr_vote_granted := True\<rparr>,
           M_persist S s))"

definition L_installSnapshot ::
  "serial \<Rightarrow> int \<Rightarrow> snapshot_args \<Rightarrow> raft_state \<Rightarrow> (snapshot_reply \<times> task list \<times> raft_state) option" where
  "L_installSnapshot S now args s =
     (if sa_term args < cur_term s then Some (snapshot_reply0\<lparr>sr_term := cur_term s\<rparr>, [], s)
      else
        let s = (if sa_term args > cur_term s then M_identityChange S FOLLOWER (sa_term args) (- 1) s
                 else s);
            s = s\<lparr>identity := FOLLOWER, lastResetElectionTime := now\<rparr>
        in
        if sa_last_index args \<le> lastSnapshotIndex s then Some (snapshot_reply0, [], s)
        else do {
          rest \<leftarrow> (if M_getLastLogIndex s > sa_last_index args
                   then erase_front (logs s) (M_getSlicesIndexFromLogIndex s (sa_last_index args) + 1)
                   else Some []);
          let s = s\<lparr>logs := rest, commitIndex := max (commitIndex s) (sa_last_index args),
                    appliedIndex := max (appliedIndex s) (sa_last_index args),
                    lastSnapshotIndex := sa_last_index args, lastSnapshotTerm := sa_last_term args\<rparr>;
          let s = s\<lparr>pstr := persist_both (M_dump S s) (sa_data args) (pstr s)\<rparr>;
          Some (snapshot_reply0\<lparr>sr_term := cur_term s\<rparr>,
            [PushMessage (snapshot_message True (word_of_int (sa_last_index args))
               (word_of_int (sa_last_term args)) (sa_data args))], s) })"

section \<open>The daemon thread\<close>

text \<open>
  One pass of each loop of \<open>_L_daemonTicker\<close>: \<open>s\<close> is the state at the first reading of the
  clock, \<open>timeNow\<close> that reading, \<open>r\<close> the random wait in milliseconds, \<open>t\<close> the state after
  the sleep. The result is the nanoseconds slept (microsecond resolution) and whether the
  pass goes on to send a heartbeat or to stand for election. The macros multiply:
  \<open>RAFT_HEARTBEAT_SLEEP_TIME\<close> is 250, the random wait is drawn from 300 to 500.
\<close>

definition ms :: "int \<Rightarrow> int" where
  "ms n = n * 1000000"

definition sleep_of :: "int \<Rightarrow> int" where
  "sleep_of sleepTime = (if sleepTime > ms 1 then sleepTime div 1000 * 1000 else 0)"

definition heartBeat_pass :: "int \<Rightarrow> raft_state \<Rightarrow> raft_state \<Rightarrow> int \<times> bool" where
  "heartBeat_pass timeNow s t =
     (sleep_of (lastResetHeartBeatTime s + ms 250 - timeNow),
      \<not> lastResetHeartBeatTime t - timeNow > 0)"

definition election_pass :: "int \<Rightarrow> int \<Rightarrow> raft_state \<Rightarrow> raft_state \<Rightarrow> int \<times> bool" where
  "election_pass timeNow r s t =
     (sleep_of (lastResetElectionTime s + ms r - timeNow),
      \<not> lastResetElectionTime t - timeNow > 0)"

end
