(* ===== verification/RaftInv.thy ===== *)
theory RaftInv
  imports RaftHandlers
begin

text \<open>
  The representation invariant of a Raft node and its preservation by every operation: the
  log is contiguous above the snapshot, the progress indices are ordered
  \<open>lastSnapshotIndex \<le> appliedIndex \<le> commitIndex \<le> last log index\<close>, entry terms never
  exceed the current term, and a leader's \<open>nextIndex\<close> stays inside its log.
\<close>

section \<open>Invariant\<close>

named_theorems node_simps "fields after persisting"

definition wf_log :: "raft_state \<Rightarrow> bool" where
  "wf_log s \<longleftrightarrow> (\<forall>i < length (logs s). entry_index (logs s ! i) = lastSnapshotIndex s + 1 + int i)"

definition wf_progress :: "raft_state \<Rightarrow> bool" where
  "wf_progress s \<longleftrightarrow> 0 \<le> lastSnapshotIndex s \<and> lastSnapshotIndex s \<le> appliedIndex s
     \<and> appliedIndex s \<le> commitIndex s \<and> commitIndex s \<le> M_getLastLogIndex s"

definition wf_terms :: "raft_state \<Rightarrow> bool" where
  "wf_terms s \<longleftrightarrow> 0 \<le> lastSnapshotTerm s \<and> lastSnapshotTerm s \<le> cur_term s
     \<and> (\<forall>e \<in> set (logs s). 0 \<le> entry_term e \<and> entry_term e \<le> cur_term s)"

definition wf_peers :: "raft_state \<Rightarrow> bool" where
  "wf_peers s \<longleftrightarrow> 0 \<le> me s \<and> me s < int (helpers_size s)
     \<and> length (nextIndex s) = helpers_size s \<and> length (matchIndex s) = helpers_size s"

definition wf_leader :: "raft_state \<Rightarrow> bool" where
  "wf_leader s \<longleftrightarrow> (identity s = LEADER \<longrightarrow>
     (\<forall>i < helpers_size s. int i \<noteq> me s \<longrightarrow> nextIndex s ! i \<le> M_getLastLogIndex s + 1))"

definition node_inv :: "raft_state \<Rightarrow> bool" where
  "node_inv s \<longleftrightarrow> wf_log s \<and> wf_progress s \<and> wf_terms s \<and> wf_peers s \<and> wf_leader s"

lemmas node_inv_defs = node_inv_def wf_log_def wf_progress_def wf_terms_def wf_peers_def wf_leader_def

text \<open>The entry at a log index, and what a correct sender puts into its arguments.\<close>

definition args_ok :: "append_args \<Rightarrow> bool" where
  "args_ok a \<longleftrightarrow>
     (\<forall>i < length (aa_entries a). entry_index (aa_entries a ! i) = aa_prev_log_index a + 1 + int i)
     \<and> (\<forall>e \<in> set (aa_entries a). 0 \<le> entry_term e \<and> entry_term e \<le> aa_term a)"

section \<open>Reading the state\<close>

lemma M_persist_fields [node_simps]:
  "helpers_size (M_persist S s) = helpers_size s" "logs (M_persist S s) = logs s"
  "nextIndex (M_persist S s) = nextIndex s" "matchIndex (M_persist S s) = matchIndex s"
  "commitIndex (M_persist S s) = commitIndex s" "appliedIndex (M_persist S s) = appliedIndex s"
  "lastSnapshotIndex (M_persist S s) = lastSnapshotIndex s"
  "lastSnapshotTerm (M_persist S s) = lastSnapshotTerm s" "me (M_persist S s) = me s"
  "cur_term (M_persist S s) = cur_term s" "vote4 (M_persist S s) = vote4 s"
  "identity (M_persist S s) = identity s"
  by (simp_all add: M_persist_def)

lemma M_identityChange_fields [node_simps]:
  "helpers_size (M_identityChange S idn t v s) = helpers_size s"
  "logs (M_identityChange S idn t v s) = logs s"
  "nextIndex (M_identityChange S idn t v s) = nextIndex s"
  "matchIndex (M_identityChange S idn t v s) = matchIndex s"
  "commitIndex (M_identityChange S idn t v s) = commitIndex s"
  "appliedIndex (M_identityChange S idn t v s) = appliedIndex s"
  "lastSnapshotIndex (M_identityChange S idn t v s) = lastSnapshotIndex s"
  "lastSnapshotTerm (M_identityChange S idn t v s) = lastSnapshotTerm s"
  "me (M_identityChange S idn t v s) = me s" "cur_term (M_identityChange S idn t v s) = t"
  "vote4 (M_identityChange S idn t v s) = v" "identity (M_identityChange S idn t v s) = idn"
  by (simp_all add: M_identityChange_def node_simps)

lemma M_persist_reads [node_simps]:
  "M_getLastLogIndex (M_persist S s) = M_getLastLogIndex s"
  "M_getLastLogTerm (M_persist S s) = M_getLastLogTerm s"
  "M_getLastLogIndex (M_identityChange S idn t v s) = M_getLastLogIndex s"
  "M_getLastLogTerm (M_identityChange S idn t v s) = M_getLastLogTerm s"
  by (simp_all add: M_getLastLogIndex_def M_getLastLogTerm_def node_simps)

lemma last_index: "wf_log s \<Longrightarrow> M_getLastLogIndex s = lastSnapshotIndex s + int (length (logs s))"
  by (cases "logs s" rule: rev_cases) (auto simp: wf_log_def M_getLastLogIndex_def)

lemma slice_of:
  "wf_log s \<Longrightarrow> lastSnapshotIndex s < j \<Longrightarrow> j \<le> M_getLastLogIndex s \<Longrightarrow>
     arr_geti (logs s) (M_getSlicesIndexFromLogIndex s j) = Some (logs s ! nat (j - lastSnapshotIndex s - 1))"
  by (simp add: last_index M_getSlicesIndexFromLogIndex_def arr_geti_in)

definition entry_at :: "raft_state \<Rightarrow> int \<Rightarrow> log_entry option" where
  "entry_at s j = (if lastSnapshotIndex s < j \<and> j \<le> lastSnapshotIndex s + int (length (logs s))
     then Some (logs s ! nat (j - lastSnapshotIndex s - 1)) else None)"

lemma entry_at_persist [node_simps]: "entry_at (M_persist S s) j = entry_at s j"
  by (simp add: entry_at_def node_simps)

lemma entry_at_in: "entry_at s j = Some e \<Longrightarrow> e \<in> set (logs s)"
  by (auto simp: entry_at_def split: if_splits)

lemma M_getLogTerm_in:
  assumes "wf_log s" "lastSnapshotIndex s \<le> j" "j \<le> M_getLastLogIndex s"
  shows "M_getLogTerm s j = Some (if j = lastSnapshotIndex s then lastSnapshotTerm s
     else entry_term (logs s ! nat (j - lastSnapshotIndex s - 1)))"
  using assms slice_of [of s j] by (simp add: M_getLogTerm_def M_valideIndex_def)

lemma log_term_nonneg:
  assumes "node_inv s" "lastSnapshotIndex s \<le> j" "j \<le> M_getLastLogIndex s" "M_getLogTerm s j = Some t"
  shows "0 \<le> t \<and> t \<le> cur_term s"
proof (cases "j = lastSnapshotIndex s")
  case True
  then show ?thesis using assms by (auto simp: M_getLogTerm_def node_inv_def wf_terms_def)
next
  case False
  have w: "wf_log s" using assms(1) by (simp add: node_inv_def)
  have "nat (j - lastSnapshotIndex s - 1) < length (logs s)"
    using assms(2,3) False last_index [OF w] by simp
  then show ?thesis
    using M_getLogTerm_in [OF w assms(2,3)] False assms(1,4)
    by (auto simp: node_inv_def wf_terms_def)
qed

section \<open>Changes that keep the invariant\<close>

lemma inv_cong:
  assumes "node_inv s" "logs t = logs s" "lastSnapshotIndex t = lastSnapshotIndex s"
    "lastSnapshotTerm t = lastSnapshotTerm s" "commitIndex t = commitIndex s"
    "appliedIndex t = appliedIndex s" "me t = me s" "helpers_size t = helpers_size s"
    "nextIndex t = nextIndex s" "matchIndex t = matchIndex s"
    "cur_term s \<le> cur_term t" "identity t = LEADER \<longrightarrow> identity s = LEADER"
  shows "node_inv t"
proof -
  have "M_getLastLogIndex t = M_getLastLogIndex s" using assms by (simp add: M_getLastLogIndex_def)
  with assms show ?thesis by (fastforce simp: node_inv_defs)
qed

lemma inv_persist [simp]: "node_inv (M_persist S s) = node_inv s"
  using inv_cong [of s "M_persist S s"] inv_cong [of "M_persist S s" s] by (auto simp: node_simps)

lemma inv_step_down:
  "node_inv s \<Longrightarrow> cur_term s \<le> t \<Longrightarrow> idn \<noteq> LEADER \<Longrightarrow> node_inv (M_identityChange S idn t v s)"
  by (rule inv_cong [of s]) (auto simp: node_simps)

lemma inv_times [simp]:
  "node_inv (s\<lparr>lastResetElectionTime := n1\<rparr>) = node_inv s"
  "node_inv (s\<lparr>lastResetHeartBeatTime := n1\<rparr>) = node_inv s"
  "node_inv (s\<lparr>vote4 := v1\<rparr>) = node_inv s"
  by (simp_all add: node_inv_defs M_getLastLogIndex_def)

section \<open>The operations of the application\<close>

lemma raft_execute_inv:
  assumes "node_inv s" "0 \<le> cur_term s"
  shows "node_inv (snd (raft_execute S c s))"
proof (cases "identity s = LEADER")
  case True
  let ?e = "\<lparr>entry_command = op_dump (out_op S) c, entry_term = cur_term s,
             entry_index = M_getNewCommandIndex s\<rparr>"
  let ?t = "s\<lparr>logs := logs s @ [?e]\<rparr>"
  have I: "wf_log s" "wf_progress s" "wf_terms s" "wf_peers s" "wf_leader s"
    using assms by (auto simp: node_inv_def)
  have idx: "entry_index ?e = lastSnapshotIndex s + 1 + int (length (logs s))"
    by (simp add: M_getNewCommandIndex_def last_index [OF I(1)])
  have last: "M_getLastLogIndex ?t = M_getLastLogIndex s + 1"
    by (simp add: M_getLastLogIndex_def M_getNewCommandIndex_def)
  have "wf_log ?t" using I(1) idx by (auto simp: wf_log_def nth_append less_Suc_eq)
  moreover have "wf_progress ?t" using I(2) last by (simp add: wf_progress_def)
  moreover have "wf_terms ?t" using I(3) assms(2) by (simp add: wf_terms_def)
  moreover have "wf_peers ?t" using I(4) by (simp add: wf_peers_def)
  moreover have "wf_leader ?t" using I(5) last by (fastforce simp: wf_leader_def)
  ultimately have "node_inv ?t" by (simp add: node_inv_def)
  then show ?thesis using True by (simp add: raft_execute_def Let_def)
qed (use assms in \<open>simp add: raft_execute_def\<close>)

text \<open>The state a snapshot at \<open>index\<close> leaves behind.\<close>

definition cut_at :: "int \<Rightarrow> raft_state \<Rightarrow> raft_state" where
  "cut_at index s = s\<lparr>lastSnapshotIndex := index,
     lastSnapshotTerm := entry_term (logs s ! nat (index - lastSnapshotIndex s - 1)),
     logs := drop (nat (index - lastSnapshotIndex s)) (logs s),
     appliedIndex := max (appliedIndex s) index\<rparr>"

lemma raft_persist_accept:
  assumes "node_inv s" "lastSnapshotIndex s < index" "index \<le> commitIndex s"
  shows "raft_persist S index shot s =
    Some (True, (cut_at index s)\<lparr>pstr := persist_both (M_dump S (cut_at index s)) shot (pstr s)\<rparr>)"
proof -
  have w: "wf_log s" and c: "commitIndex s \<le> M_getLastLogIndex s"
    using assms by (auto simp: node_inv_def wf_progress_def)
  define k where "k = index - lastSnapshotIndex s - 1"
  have k: "0 \<le> k" "k < int (length (logs s))"
    using assms c last_index [OF w] by (auto simp: k_def)
  have n: "nat (index - lastSnapshotIndex s) = Suc (nat k)" using k(1) by (simp add: k_def)
  have d1: "int (length (logs s)) - 1 = k \<Longrightarrow> drop (Suc (nat k)) (logs s) = []" using k by simp
  have d2: "erase_front (logs s) (k + 1) = Some (drop (Suc (nat k)) (logs s))"
    using k by (simp add: erase_front_def nat_add_distrib)
  have e: "arr_geti (logs s) k = Some (logs s ! nat k)" using k by (simp add: arr_geti_in)
  have c': "\<not> index > commitIndex s" using assms(3) by simp
  show ?thesis
    unfolding raft_persist_def M_getSlicesIndexFromLogIndex_def k_def [symmetric] Let_def
    using assms e d1 d2 c'
    by (cases "appliedIndex s < index"; cases "int (length (logs s)) - 1 = k")
      (simp_all add: M_valideIndex_def cut_at_def k_def [symmetric] max_def n)
qed

lemma raft_persist_refuse:
  "\<not> (lastSnapshotIndex s < index \<and> index \<le> commitIndex s) \<Longrightarrow>
     raft_persist S index shot s = Some (False, s)"
  by (auto simp: raft_persist_def M_valideIndex_def)

lemma cut_log:
  assumes "wf_log s" "lastSnapshotIndex s \<le> index" "index \<le> M_getLastLogIndex s"
    "logs t = drop (nat (index - lastSnapshotIndex s)) (logs s)" "lastSnapshotIndex t = index"
  shows "wf_log t" "M_getLastLogIndex t = M_getLastLogIndex s"
    "j > index \<Longrightarrow> entry_at t j = entry_at s j"
proof -
  show "wf_log t" using assms by (auto simp: wf_log_def)
  from last_index [OF this] last_index [OF assms(1)] assms(2-5)
  show "M_getLastLogIndex t = M_getLastLogIndex s" by simp
  show "j > index \<Longrightarrow> entry_at t j = entry_at s j"
    using assms(2-5) last_index [OF assms(1)]
    by (auto simp: entry_at_def nat_add_distrib [symmetric] algebra_simps)
qed

lemma cut_at_inv:
  assumes "node_inv s" "lastSnapshotIndex s < index" "index \<le> commitIndex s"
  shows "node_inv ((cut_at index s)\<lparr>pstr := p\<rparr>)" (is "node_inv ?t")
proof -
  have I: "wf_log s" "wf_progress s" "wf_terms s" "wf_peers s" "wf_leader s"
    using assms(1) by (auto simp: node_inv_def)
  have le: "index \<le> M_getLastLogIndex s" using assms(3) I(2) by (simp add: wf_progress_def)
  have cut: "wf_log ?t" "M_getLastLogIndex ?t = M_getLastLogIndex s"
    using assms(2) by (auto intro!: cut_log [OF I(1) _ le] simp: cut_at_def)
  have "nat (index - lastSnapshotIndex s - 1) < length (logs s)"
    using assms(2) le last_index [OF I(1)] by simp
  then have "logs s ! nat (index - lastSnapshotIndex s - 1) \<in> set (logs s)" by simp
  with I(3) have "wf_terms ?t" by (auto simp: wf_terms_def cut_at_def dest: in_set_dropD)
  moreover have "wf_progress ?t"
    using I(2) cut(2) assms le by (auto simp: wf_progress_def) (auto simp: cut_at_def)
  moreover have "wf_peers ?t" using I(4) by (simp add: wf_peers_def cut_at_def)
  moreover have "wf_leader ?t" using I(5) unfolding wf_leader_def cut(2) by (simp add: cut_at_def)
  ultimately show ?thesis using cut by (simp add: node_inv_def)
qed

lemma raft_persist_inv:
  assumes "node_inv s" "raft_persist S index shot s = Some (b, t)"
  shows "node_inv t"
proof (cases "lastSnapshotIndex s < index \<and> index \<le> commitIndex s")
  case True
  then show ?thesis
    using assms raft_persist_accept [OF assms(1)] cut_at_inv [OF assms(1)] by auto
qed (use assms raft_persist_refuse in auto)

section \<open>Applying\<close>

lemma getApply_loop_run:
  assumes "wf_log s" "lastSnapshotIndex s \<le> appliedIndex s" "appliedIndex s \<le> commitIndex s"
    "commitIndex s \<le> M_getLastLogIndex s"
  shows "getApply_loop s msgs = Some (msgs @ map (\<lambda>j. command_message True (word_of_int j)
       (entry_command (the (entry_at s j)))) [appliedIndex s + 1..commitIndex s],
     s\<lparr>appliedIndex := commitIndex s\<rparr>)"
  using assms
proof (induction "nat (commitIndex s - appliedIndex s)" arbitrary: s msgs)
  case 0
  then show ?case by (simp add: getApply_loop.simps [of s])
next
  case (Suc n)
  let ?s = "s\<lparr>appliedIndex := appliedIndex s + 1\<rparr>"
  let ?e = "logs s ! nat (appliedIndex s + 1 - lastSnapshotIndex s - 1)"
  have lt: "appliedIndex s < commitIndex s" using Suc.hyps(2) by simp
  have e: "arr_geti (logs s) (M_getSlicesIndexFromLogIndex ?s (appliedIndex s + 1)) = Some ?e"
    using slice_of [OF Suc.prems(1), of "appliedIndex s + 1"] Suc.prems(2,4) lt
    by (simp add: M_getSlicesIndexFromLogIndex_def)
  have ea: "entry_at s (appliedIndex s + 1) = Some ?e"
    using Suc.prems(2,4) lt last_index [OF Suc.prems(1)] by (simp add: entry_at_def)
  have same: "entry_at (s\<lparr>appliedIndex := a\<rparr>) j = entry_at s j" for a j by (simp add: entry_at_def)
  have "M_getLastLogIndex ?s = M_getLastLogIndex s" by (simp add: M_getLastLogIndex_def)
  then have IH: "getApply_loop ?s m = Some (m @ map (\<lambda>j. command_message True (word_of_int j)
       (entry_command (the (entry_at ?s j)))) [appliedIndex ?s + 1..commitIndex ?s],
     ?s\<lparr>appliedIndex := commitIndex ?s\<rparr>)" for m
    using Suc.prems lt Suc.hyps(2) by (intro Suc.hyps(1)) (auto simp: wf_log_def)
  have "[appliedIndex s + 1..commitIndex s]
      = (appliedIndex s + 1) # [appliedIndex s + 1 + 1..commitIndex s]"
    using lt by (simp add: upto_rec1)
  then show ?case
    using lt e ea IH by (simp add: getApply_loop.simps [of s] same add.commute add.left_commute)
qed

lemma M_getApplyMessages_run:
  assumes "node_inv s"
  shows "M_getApplyMessages s = Ret (map (\<lambda>j. command_message True (word_of_int j)
       (entry_command (the (entry_at s j)))) [appliedIndex s + 1..commitIndex s],
     s\<lparr>appliedIndex := commitIndex s\<rparr>)"
  using assms getApply_loop_run [of s "[]"]
  by (simp add: M_getApplyMessages_def node_inv_def wf_progress_def)

lemma M_getApplyMessages_inv: "node_inv s \<Longrightarrow> node_inv (s\<lparr>appliedIndex := commitIndex s\<rparr>)"
  by (auto simp: node_inv_defs M_getLastLogIndex_def)

end
