(* ===== verification/RaftProto.thy ===== *)
theory RaftProto
  imports RaftInv
begin

text \<open>
  The protocol steps keep the node invariant and never run into undefined behaviour, and
  what each of them does to the log: the arguments a heartbeat sends, the overlay
  \<open>_L_appendEntries\<close> makes of them, the rollback index it answers.
\<close>

section \<open>Heartbeats\<close>

text \<open>What a leader sends to peer \<open>i\<close>.\<close>

definition sends :: "raft_state \<Rightarrow> append_args \<Rightarrow> bool" where
  "sends s a \<longleftrightarrow> aa_term a = cur_term s \<and> aa_leader_id a = me s \<and> aa_leader_commit a = commitIndex s
     \<and> lastSnapshotIndex s \<le> aa_prev_log_index a \<and> aa_prev_log_index a \<le> M_getLastLogIndex s
     \<and> M_getLogTerm s (aa_prev_log_index a) = Some (aa_prev_log_term a)
     \<and> aa_entries a = drop (nat (aa_prev_log_index a - lastSnapshotIndex s)) (logs s)"

lemma heartBeat_task_ok:
  assumes "node_inv s" "identity s = LEADER" "i < helpers_size s" "int i \<noteq> me s"
  shows "\<exists>t. heartBeat_task s i = Some t \<and>
    (if nextIndex s ! i \<le> lastSnapshotIndex s then t = SendSnapshot i
     else \<exists>a r. t = SendAppendEntries i a r \<and> sends s a \<and> aa_prev_log_index a = nextIndex s ! i - 1)"
proof -
  have I: "wf_log s" "wf_peers s" "wf_leader s" using assms by (auto simp: node_inv_def)
  have nx: "arr_get (nextIndex s) i = Some (nextIndex s ! i)"
    using I(2) assms(3) by (simp add: wf_peers_def arr_get_in)
  have hi: "nextIndex s ! i \<le> M_getLastLogIndex s + 1"
    using I(3) assms by (simp add: wf_leader_def)
  show ?thesis
  proof (cases "nextIndex s ! i \<le> lastSnapshotIndex s")
    case True
    then show ?thesis using nx by (simp add: heartBeat_task_def)
  next
    case False
    let ?p = "nextIndex s ! i - 1"
    obtain pt where pt: "M_getPreviousLogInfo s i = Some (?p, pt)" "M_getLogTerm s ?p = Some pt"
      using nx slice_of [OF I(1), of ?p] False hi M_getLogTerm_in [OF I(1), of ?p]
      by (cases "nextIndex s ! i = lastSnapshotIndex s + 1") (auto simp: M_getPreviousLogInfo_def)
    have en: "(if ?p = lastSnapshotIndex s then logs s
        else from_index (logs s) (M_getSlicesIndexFromLogIndex s ?p + 1))
      = drop (nat (?p - lastSnapshotIndex s)) (logs s)"
      using False by (auto simp: from_index_def M_getSlicesIndexFromLogIndex_def
          intro!: arg_cong [where f = "\<lambda>k. drop k (logs s)"])
    show ?thesis
      using False nx pt en hi by (auto simp: heartBeat_task_def sends_def)
  qed
qed

lemma sends_args_ok: "node_inv s \<Longrightarrow> sends s a \<Longrightarrow> args_ok a"
  by (auto simp: args_ok_def sends_def node_inv_def wf_log_def wf_terms_def dest: in_set_dropD)

text \<open>The peer a task talks to, and the tasks a heartbeat may start.\<close>

fun task_target :: "task \<Rightarrow> nat option" where
  "task_target (SendAppendEntries i _ _) = Some i"
| "task_target (SendRequestVote i _) = Some i"
| "task_target (SendSnapshot i) = Some i"
| "task_target _ = None"

fun heartBeat_good :: "raft_state \<Rightarrow> task \<Rightarrow> bool" where
  "heartBeat_good s (SendAppendEntries i a r) \<longleftrightarrow>
     sends s a \<and> aa_prev_log_index a = nextIndex s ! i - 1 \<and> lastSnapshotIndex s < nextIndex s ! i"
| "heartBeat_good s (SendSnapshot i) \<longleftrightarrow> nextIndex s ! i \<le> lastSnapshotIndex s"
| "heartBeat_good s _ \<longleftrightarrow> False"

lemma heartBeat_task_good:
  assumes "node_inv s" "identity s = LEADER" "i < helpers_size s" "int i \<noteq> me s"
  shows "\<exists>t. heartBeat_task s i = Some t \<and> task_target t = Some i \<and> heartBeat_good s t"
  using heartBeat_task_ok [OF assms] by (auto split: if_splits)

lemma heartBeat_loop_ok:
  assumes "node_inv s" "identity s = LEADER" "\<forall>i \<in> set is. i < helpers_size s"
  shows "\<exists>ts. heartBeat_loop s is = Some ts \<and> (\<forall>t \<in> set ts. heartBeat_good s t)
    \<and> map task_target ts = map Some (filter (\<lambda>i. int i \<noteq> me s) is)"
  using assms(3)
proof (induction "is")
  case (Cons i "is")
  then obtain ts where ts: "heartBeat_loop s is = Some ts" "\<forall>t \<in> set ts. heartBeat_good s t"
    "map task_target ts = map Some (filter (\<lambda>i. int i \<noteq> me s) is)" by auto
  show ?case
  proof (cases "int i = me s")
    case False
    have "i < helpers_size s" using Cons.prems by simp
    with heartBeat_task_good [OF assms(1,2) _ False] ts False show ?thesis by auto
  qed (use ts in simp)
qed simp

lemma L_heartBeat_ok:
  assumes "node_inv s" "identity s = LEADER"
  shows "\<exists>ts. L_heartBeat now s = Some (ts, s\<lparr>lastResetHeartBeatTime := now\<rparr>)
    \<and> (\<forall>t \<in> set ts. heartBeat_good s t)
    \<and> map task_target ts = map Some (filter (\<lambda>i. int i \<noteq> me s) [0..<helpers_size s])"
proof -
  have "\<forall>i \<in> set [0..<helpers_size s]. i < helpers_size s" by simp
  from heartBeat_loop_ok [OF assms this] assms(2) show ?thesis by (auto simp: L_heartBeat_def)
qed

lemma L_heartBeat_inv:
  assumes "node_inv s"
  shows "\<exists>ts t. L_heartBeat now s = Some (ts, t) \<and> node_inv t"
proof (cases "identity s = LEADER")
  case True
  with L_heartBeat_ok [OF assms True, of now] assms show ?thesis by auto
qed (use assms in \<open>simp add: L_heartBeat_def\<close>)

lemma L_stand4Election_inv: "node_inv s \<Longrightarrow> node_inv (snd (L_stand4Election S now s))"
  by (simp add: L_stand4Election_def Let_def inv_step_down)

section \<open>Replies\<close>

lemma inv_peers:
  assumes "node_inv s" "length nx = helpers_size s" "length mi = helpers_size s"
    "identity s = LEADER \<Longrightarrow> \<forall>i < helpers_size s. int i \<noteq> me s \<longrightarrow> nx ! i \<le> M_getLastLogIndex s + 1"
  shows "node_inv (s\<lparr>nextIndex := nx, matchIndex := mi\<rparr>)"
  using assms by (auto simp: node_inv_defs M_getLastLogIndex_def)

lemma inv_next:
  assumes "node_inv s" "v \<le> M_getLastLogIndex s + 1" "length mi = helpers_size s"
  shows "node_inv (s\<lparr>matchIndex := mi, nextIndex := (nextIndex s)[i := v]\<rparr>)"
proof -
  have "(nextIndex s)[i := v] ! j \<le> M_getLastLogIndex s + 1"
    if "nextIndex s ! j \<le> M_getLastLogIndex s + 1" for j
    using that assms(2) by (cases "i < length (nextIndex s)") (auto simp: nth_list_update list_update_beyond)
  then have "node_inv (s\<lparr>nextIndex := (nextIndex s)[i := v], matchIndex := mi\<rparr>)"
    using assms by (intro inv_peers) (auto simp: node_inv_def wf_peers_def wf_leader_def)
  moreover have "s\<lparr>nextIndex := (nextIndex s)[i := v], matchIndex := mi\<rparr>
      = s\<lparr>matchIndex := mi, nextIndex := (nextIndex s)[i := v]\<rparr>" by simp
  ultimately show ?thesis by (simp only:)
qed

text \<open>
  A reply is plausible when a rejection of the current term asks for an index the leader
  can reach.
\<close>

definition plausible :: "raft_state \<Rightarrow> append_reply \<Rightarrow> bool" where
  "plausible s r \<longleftrightarrow> (ar_term r = cur_term s \<and> \<not> ar_success r \<longrightarrow>
     ar_update_next_index r \<le> M_getLastLogIndex s + 1)"

lemma L_sendAppendEntries_inv:
  assumes "node_inv s" "server < helpers_size s" "\<And>r. rpc = Some r \<Longrightarrow> plausible s r"
  shows "(\<exists>b n t. L_sendAppendEntries S now server args rpc num s = Ret (b, n, t) \<and> node_inv t)
    \<or> L_sendAppendEntries S now server args rpc num s = Throw ''nextIndex > lastLogIndex + 1''"
proof (cases rpc)
  case None
  then show ?thesis using assms(1) by (auto simp: L_sendAppendEntries_def)
next
  case (Some r)
  have len: "server < length (nextIndex s)" "server < length (matchIndex s)"
    using assms(1,2) by (auto simp: node_inv_def wf_peers_def)
  note U = L_sendAppendEntries_def
  consider (quiet) "ar_state r = DISCONNECTED" | (newer) "ar_state r \<noteq> DISCONNECTED" "ar_term r > cur_term s"
    | (stale) "ar_state r \<noteq> DISCONNECTED" "ar_term r < cur_term s \<or> ar_term r = cur_term s \<and> identity s \<noteq> LEADER"
    | (no) "ar_state r \<noteq> DISCONNECTED" "ar_term r = cur_term s" "identity s = LEADER" "\<not> ar_success r"
    | (yes) "ar_state r \<noteq> DISCONNECTED" "ar_term r = cur_term s" "identity s = LEADER" "ar_success r"
    by (metis linorder_cases)
  then show ?thesis
  proof cases
    case no
    have "ar_update_next_index r \<le> M_getLastLogIndex s + 1"
      using assms(3) Some no by (auto simp: plausible_def)
    then have "node_inv (s\<lparr>nextIndex := (nextIndex s)[server := ar_update_next_index r]\<rparr>)"
      using inv_next [OF assms(1), of _ "matchIndex s"] assms(1)
      by (auto simp: node_inv_def wf_peers_def)
    then show ?thesis using no Some len assms(1) by (auto simp: U arr_set_in)
  next
    case yes
    define v where "v = max (matchIndex s ! server) (aa_prev_log_index args + int (length (aa_entries args)))"
    define t where "t = s\<lparr>matchIndex := (matchIndex s)[server := v], nextIndex := (nextIndex s)[server := v + 1]\<rparr>"
    have last: "M_getLastLogIndex t = M_getLastLogIndex s" by (simp add: t_def M_getLastLogIndex_def)
    show ?thesis
    proof (cases "v + 1 > M_getLastLogIndex s + 1")
      case True
      then show ?thesis using yes Some len by (simp add: U arr_set_in arr_get_in v_def [symmetric] t_def [symmetric] last Let_def)
    next
      case False
      then have t: "node_inv t"
        unfolding t_def using assms(1)
        by (intro inv_next) (auto simp: node_inv_def wf_peers_def)
      have c: "commitIndex t \<le> M_getLastLogIndex t" using t by (simp add: node_inv_def wf_progress_def)
      let ?c = "max (commitIndex t) (aa_prev_log_index args + int (length (aa_entries args)))"
      have le: "?c \<le> M_getLastLogIndex t" using c False last by (simp add: v_def)
      have t2: "node_inv (t\<lparr>commitIndex := ?c\<rparr>)"
        using t le by (auto simp: node_inv_defs M_getLastLogIndex_def)
      show ?thesis
        using yes Some len False c le t t2
        by (auto simp: U arr_set_in arr_get_in v_def [symmetric] t_def [symmetric] Let_def last)
    qed
  qed (use assms(1) Some in \<open>auto simp: U inv_step_down\<close>)
qed

lemma L_sendRequestVote_inv:
  assumes "node_inv s"
  shows "\<exists>b n ts t. L_sendRequestVote S server args rpc num s = Some (b, n, ts, t) \<and> node_inv t"
proof (cases rpc)
  case (Some r)
  let ?t = "s\<lparr>identity := LEADER, nextIndex := replicate (helpers_size s) (M_getLastLogIndex s + 1),
      matchIndex := (replicate (helpers_size s) 0)[nat (me s) := M_getLastLogIndex s]\<rparr>"
  have t: "node_inv ?t" using assms by (auto simp: node_inv_defs M_getLastLogIndex_def)
  have me: "0 \<le> me s" "me s < int (helpers_size s)" using assms by (auto simp: node_inv_def wf_peers_def)
  have last: "M_getLastLogIndex (s\<lparr>identity := LEADER\<rparr>) = M_getLastLogIndex s"
    by (simp add: M_getLastLogIndex_def)
  show ?thesis
    using Some assms t me
    by (auto simp: L_sendRequestVote_def Let_def inv_step_down arr_seti_in last)
qed (use assms in \<open>auto simp: L_sendRequestVote_def\<close>)

lemma sendSnapshot_reply_inv:
  assumes "node_inv s" "server < helpers_size s" "sa_last_index args \<le> M_getLastLogIndex s"
  shows "\<exists>t. sendSnapshot_reply S now server args rpc s = Some t \<and> node_inv t"
proof (cases rpc)
  case (Some r)
  have len: "server < length (nextIndex s)" "server < length (matchIndex s)"
    using assms(1,2) by (auto simp: node_inv_def wf_peers_def)
  let ?v = "sa_last_index args"
  have "node_inv (s\<lparr>matchIndex := (matchIndex s)[server := ?v], nextIndex := (nextIndex s)[server := ?v + 1]\<rparr>)"
    using assms by (intro inv_next) (auto simp: node_inv_def wf_peers_def)
  with Some assms len show ?thesis
    by (simp add: sendSnapshot_reply_def inv_step_down arr_set_in arr_get_in)
qed (use assms in \<open>simp add: sendSnapshot_reply_def\<close>)

section \<open>Votes\<close>

lemma L_requestVote_inv: "node_inv s \<Longrightarrow> node_inv (snd (L_requestVote S now args s))"
  by (auto simp: L_requestVote_def Let_def inv_step_down)

end
