(* ===== verification/RaftAppend.thy ===== *)
theory RaftAppend
  imports RaftProto
begin

text \<open>
  \<open>_L_appendEntries\<close> and \<open>_L_installSnapshot\<close>. Accepting a heartbeat overlays the entries
  sent on the log, position by position: the prefix up to \<open>prev_log_index\<close> stays, the sent
  entries come next, and whatever the log held beyond them stays too.
\<close>

section \<open>Overlaying entries\<close>

definition clash :: "log_entry \<Rightarrow> log_entry \<Rightarrow> bool" where
  "clash mine sent \<longleftrightarrow> entry_term mine = entry_term sent \<and> entry_command mine \<noteq> entry_command sent"

definition conflicts :: "log_entry list \<Rightarrow> nat \<Rightarrow> log_entry list \<Rightarrow> bool" where
  "conflicts l k es \<longleftrightarrow> (\<exists>i < length es. k + i < length l \<and> clash (l ! (k + i)) (es ! i))"

definition overlay :: "log_entry list \<Rightarrow> nat \<Rightarrow> log_entry list \<Rightarrow> log_entry list" where
  "overlay l k es = take k l @ es @ drop (k + length es) l"

lemma overlay_length: "k \<le> length l \<Longrightarrow> length (overlay l k es) = max (length l) (k + length es)"
  by (simp add: overlay_def)

lemma overlay_nth:
  "k \<le> length l \<Longrightarrow> i < length (overlay l k es) \<Longrightarrow>
    overlay l k es ! i = (if k \<le> i \<and> i < k + length es then es ! (i - k) else l ! i)"
  by (auto simp: overlay_def nth_append)

lemma overlay_one: "k < length l \<Longrightarrow> l ! k = e \<Longrightarrow> overlay l k [e] = l"
  using id_take_nth_drop [of k l] by (simp add: overlay_def)

lemma overlay_step:
  "k \<le> length l \<Longrightarrow> overlay (overlay l k [e]) (Suc k) es = overlay l k (e # es)"
proof -
  assume k: "k \<le> length l"
  have "take (Suc k) (overlay l k [e]) = take k l @ [e]" using k by (simp add: overlay_def)
  moreover have "drop (Suc k + length es) (overlay l k [e]) = drop (k + length (e # es)) l"
    using k by (simp add: overlay_def min_def add.commute)
  ultimately show ?thesis by (simp add: overlay_def)
qed

lemma conflicts_Cons:
  assumes "k \<le> length l"
  shows "conflicts l k (e # es) \<longleftrightarrow>
    (k < length l \<and> clash (l ! k) e) \<or> conflicts (overlay l k [e]) (Suc k) es"
proof -
  have "overlay l k [e] ! (Suc k + i) = l ! (k + Suc i)" if "Suc k + i < length (overlay l k [e])" for i
    using overlay_nth [OF assms that] by simp
  moreover have "Suc k + i < length (overlay l k [e]) \<longleftrightarrow> k + Suc i < length l" for i
    using assms by (auto simp: overlay_length)
  ultimately show ?thesis unfolding conflicts_def by (auto simp: less_Suc_eq_0_disj)
qed

lemma put_entry_run:
  assumes "wf_log s" "k \<le> length (logs s)" "entry_index e = lastSnapshotIndex s + 1 + int k"
  shows "put_entry s e = (if k < length (logs s) \<and> clash (logs s ! k) e then Throw ''different commands''
     else Ret (s\<lparr>logs := overlay (logs s) k [e]\<rparr>))"
proof (cases "k < length (logs s)")
  case True
  have pos: "\<not> entry_index e > M_getLastLogIndex s" "M_getSlicesIndexFromLogIndex s (entry_index e) = int k"
    using True assms(3) last_index [OF assms(1)] by (simp_all add: M_getSlicesIndexFromLogIndex_def)
  have "entry_index (logs s ! k) = entry_index e" using assms True by (simp add: wf_log_def)
  then have eq: "entry_term (logs s ! k) = entry_term e \<Longrightarrow> entry_command (logs s ! k) = entry_command e
      \<Longrightarrow> logs s ! k = e" by (intro log_entry.equality) simp_all
  have upd: "(logs s)[k := e] = overlay (logs s) k [e]"
    using True by (simp add: overlay_def upd_conv_take_nth_drop)
  show ?thesis
    using True pos eq overlay_one [OF True] upd
    by (auto simp: put_entry_def clash_def arr_geti_in arr_seti_in)
next
  case False
  then show ?thesis using assms last_index [OF assms(1)] by (simp add: put_entry_def overlay_def)
qed

lemma overlay_wf:
  assumes "wf_log s" "k \<le> length (logs s)"
    "\<forall>i < length es. entry_index (es ! i) = lastSnapshotIndex s + 1 + int (k + i)"
  shows "wf_log (s\<lparr>logs := overlay (logs s) k es\<rparr>)"
  unfolding wf_log_def
proof (intro allI impI)
  fix i assume "i < length (logs (s\<lparr>logs := overlay (logs s) k es\<rparr>))"
  then have i: "i < length (overlay (logs s) k es)" by simp
  then have "i < length (logs s) \<or> i < k + length es" using assms(2) by (auto simp: overlay_length max_def split: if_splits)
  with assms overlay_nth [OF assms(2) i] show "entry_index (logs (s\<lparr>logs := overlay (logs s) k es\<rparr>) ! i)
      = lastSnapshotIndex (s\<lparr>logs := overlay (logs s) k es\<rparr>) + 1 + int i"
    by (auto simp: wf_log_def)
qed

lemma put_entries_run:
  assumes "wf_log s" "k \<le> length (logs s)"
    "\<forall>i < length es. entry_index (es ! i) = lastSnapshotIndex s + 1 + int (k + i)"
  shows "put_entries es s = (if conflicts (logs s) k es then Throw ''different commands''
     else Ret (s\<lparr>logs := overlay (logs s) k es\<rparr>))"
  using assms
proof (induction es arbitrary: s k)
  case Nil
  then show ?case by (simp add: conflicts_def overlay_def)
next
  case (Cons e es)
  let ?t = "s\<lparr>logs := overlay (logs s) k [e]\<rparr>"
  have e: "entry_index e = lastSnapshotIndex s + 1 + int k" using Cons.prems(3) by fastforce
  have w: "wf_log ?t" using Cons.prems e by (intro overlay_wf) auto
  have k: "Suc k \<le> length (logs ?t)" using Cons.prems(2) by (simp add: overlay_length)
  have es: "\<forall>i < length es. entry_index (es ! i) = lastSnapshotIndex ?t + 1 + int (Suc k + i)"
    using Cons.prems(3) by (intro allI impI) (fastforce dest: spec [of _ "Suc i" for i])
  show ?case
    using put_entry_run [OF Cons.prems(1,2) e] Cons.IH [OF w k es]
      conflicts_Cons [OF Cons.prems(2), of e es] overlay_step [OF Cons.prems(2), of e es]
    by simp
qed

section \<open>The rollback index\<close>

lemma rollback_loop_run:
  assumes "wf_log s" "index \<le> prev" "lastSnapshotIndex s \<le> prev" "prev \<le> M_getLastLogIndex s"
  shows "\<exists>u. rollback_loop s prev index upd = Some u \<and>
    (u = upd \<or> lastSnapshotIndex s < u \<and> u \<le> index + 1 \<and> M_getLogTerm s (u - 1) \<noteq> M_getLogTerm s prev)
    \<and> (\<forall>j. u \<le> j \<and> j \<le> index \<and> lastSnapshotIndex s \<le> j \<and> u \<noteq> upd \<longrightarrow> M_getLogTerm s j = M_getLogTerm s prev)"
  using assms
proof (induction s prev index upd rule: rollback_loop.induct)
  case (1 s prev index upd)
  show ?case
  proof (cases "lastSnapshotIndex s \<le> index")
    case True
    obtain a b where ab: "M_getLogTerm s index = Some a" "M_getLogTerm s prev = Some b"
      using M_getLogTerm_in [of s index] M_getLogTerm_in [of s prev] 1(2-5) True by auto
    show ?thesis
    proof (cases "a = b")
      case False
      then show ?thesis using True ab by (auto simp: rollback_loop.simps [of s prev index])
    next
      case eq: True
      obtain u where u: "rollback_loop s prev (index - 1) upd = Some u"
        "u = upd \<or> lastSnapshotIndex s < u \<and> u \<le> index \<and> M_getLogTerm s (u - 1) \<noteq> M_getLogTerm s prev"
        "\<forall>j. u \<le> j \<and> j \<le> index - 1 \<and> lastSnapshotIndex s \<le> j \<and> u \<noteq> upd \<longrightarrow> M_getLogTerm s j = M_getLogTerm s prev"
        using 1(1) [OF True ab] eq 1(2-5) by auto
      have "M_getLogTerm s j = M_getLogTerm s prev"
        if "u \<le> j" "j \<le> index" "lastSnapshotIndex s \<le> j" "u \<noteq> upd" for j
        using that u(3) ab eq by (cases "j = index") auto
      with u eq True ab show ?thesis by (auto simp: rollback_loop.simps [of s prev index])
    qed
  qed (simp add: rollback_loop.simps [of s prev index])
qed

section \<open>Accepting and rejecting\<close>

definition followed :: "serial \<Rightarrow> int \<Rightarrow> int \<Rightarrow> raft_state \<Rightarrow> raft_state" where
  "followed S now t s = (if t > cur_term s then M_identityChange S FOLLOWER t (- 1) s else s)
     \<lparr>identity := FOLLOWER, lastResetElectionTime := now\<rparr>"

lemma followed_fields [simp]:
  "logs (followed S now t s) = logs s" "lastSnapshotIndex (followed S now t s) = lastSnapshotIndex s"
  "lastSnapshotTerm (followed S now t s) = lastSnapshotTerm s"
  "commitIndex (followed S now t s) = commitIndex s" "appliedIndex (followed S now t s) = appliedIndex s"
  "cur_term (followed S now t s) = max t (cur_term s)" "identity (followed S now t s) = FOLLOWER"
  "helpers_size (followed S now t s) = helpers_size s" "me (followed S now t s) = me s"
  "nextIndex (followed S now t s) = nextIndex s" "matchIndex (followed S now t s) = matchIndex s"
  "vote4 (followed S now t s) = (if t > cur_term s then - 1 else vote4 s)"
  by (auto simp: followed_def node_simps)

lemma followed_inv: "node_inv s \<Longrightarrow> node_inv (followed S now t s)"
  by (rule inv_cong [of s]) auto

lemma followed_index [simp]:
  "M_getLastLogIndex (followed S now t s) = M_getLastLogIndex s"
  "M_getLogTerm (followed S now t s) j = M_getLogTerm s j"
  "wf_log (followed S now t s) = wf_log s"
  by (simp_all add: M_getLastLogIndex_def M_getLogTerm_def wf_log_def M_getSlicesIndexFromLogIndex_def)

definition accepts :: "append_args \<Rightarrow> raft_state \<Rightarrow> bool" where
  "accepts a s \<longleftrightarrow> cur_term s \<le> aa_term a \<and> lastSnapshotIndex s \<le> aa_prev_log_index a
     \<and> aa_prev_log_index a \<le> M_getLastLogIndex s
     \<and> M_getLogTerm s (aa_prev_log_index a) = Some (aa_prev_log_term a)"

definition base :: "append_args \<Rightarrow> raft_state \<Rightarrow> nat" where
  "base a s = nat (aa_prev_log_index a - lastSnapshotIndex s)"

lemma matchLogTerm_run:
  assumes "node_inv s" "lastSnapshotIndex s \<le> j" "j \<le> M_getLastLogIndex s"
  shows "\<exists>r. M_matchLogTerm (followed S now u s) j t = Some r \<and> (r = MATCH \<longleftrightarrow> M_getLogTerm s j = Some t)"
proof -
  have w: "wf_log s" using assms by (simp add: node_inv_def)
  obtain v where v: "M_getLogTerm s j = Some v" using M_getLogTerm_in [OF w assms(2,3)] by simp
  then have "v \<noteq> - 2" using log_term_nonneg [OF assms v] by simp
  with v show ?thesis by (auto simp: M_matchLogTerm_def)
qed

text \<open>The state an accepted call leaves, up to its files.\<close>

definition appended :: "serial \<Rightarrow> int \<Rightarrow> append_args \<Rightarrow> raft_state \<Rightarrow> raft_state" where
  "appended S now a s =
     (let t = (followed S now (aa_term a) s)\<lparr>logs := overlay (logs s) (base a s) (aa_entries a)\<rparr>
      in if aa_leader_commit a > commitIndex s
         then t\<lparr>commitIndex := min (aa_leader_commit a) (M_getLastLogIndex t)\<rparr> else t)"

lemma L_appendEntries_accept:
  assumes "node_inv s" "args_ok a" "accepts a s"
  shows "L_appendEntries S now a s =
    (if conflicts (logs s) (base a s) (aa_entries a) then Throw ''different commands''
     else Ret (append_reply0\<lparr>ar_state := CONNECTED, ar_term := aa_term a, ar_success := True\<rparr>,
       M_persist S (appended S now a s)))"
proof -
  let ?f = "followed S now (aa_term a) s"
  have A: "cur_term s \<le> aa_term a" "lastSnapshotIndex s \<le> aa_prev_log_index a"
    "aa_prev_log_index a \<le> M_getLastLogIndex s" "M_getLogTerm s (aa_prev_log_index a) = Some (aa_prev_log_term a)"
    using assms(3) by (auto simp: accepts_def)
  have w: "wf_log s" using assms(1) by (simp add: node_inv_def)
  have k: "base a s \<le> length (logs ?f)" using A last_index [OF w] by (simp add: base_def)
  have "\<forall>i < length (aa_entries a). entry_index (aa_entries a ! i) = lastSnapshotIndex ?f + 1 + int (base a s + i)"
    using assms(2) A(2) by (auto simp: args_ok_def base_def)
  from put_entries_run [OF _ k this] have P: "put_entries (aa_entries a) ?f =
      (if conflicts (logs s) (base a s) (aa_entries a) then Throw ''different commands''
       else Ret (?f\<lparr>logs := overlay (logs s) (base a s) (aa_entries a)\<rparr>))" using w by simp
  have m: "M_matchLogTerm ?f (aa_prev_log_index a) (aa_prev_log_term a) = Some MATCH"
    using matchLogTerm_run [OF assms(1) A(2,3)] A(4) by blast
  have fold: "(if aa_term a > cur_term s then M_identityChange S FOLLOWER (aa_term a) (- 1) s else s)
     \<lparr>identity := FOLLOWER, lastResetElectionTime := now\<rparr> = ?f" by (simp add: followed_def)
  show ?thesis
    using A P m by (simp add: L_appendEntries_def fold Let_def appended_def max_def)
qed

lemma appended_fields:
  "logs (appended S now a s) = overlay (logs s) (base a s) (aa_entries a)"
  "lastSnapshotIndex (appended S now a s) = lastSnapshotIndex s"
  "lastSnapshotTerm (appended S now a s) = lastSnapshotTerm s"
  "cur_term (appended S now a s) = max (aa_term a) (cur_term s)"
  "appliedIndex (appended S now a s) = appliedIndex s" "me (appended S now a s) = me s"
  "helpers_size (appended S now a s) = helpers_size s" "identity (appended S now a s) = FOLLOWER"
  "nextIndex (appended S now a s) = nextIndex s" "matchIndex (appended S now a s) = matchIndex s"
  "vote4 (appended S now a s) = (if aa_term a > cur_term s then - 1 else vote4 s)"
  by (simp_all add: appended_def Let_def)

lemma appended_wf:
  assumes "node_inv s" "args_ok a" "accepts a s"
  shows "wf_log (appended S now a s)"
    "M_getLastLogIndex (appended S now a s)
      = max (M_getLastLogIndex s) (aa_prev_log_index a + int (length (aa_entries a)))"
    "commitIndex (appended S now a s) = (if aa_leader_commit a > commitIndex s
       then min (aa_leader_commit a) (M_getLastLogIndex (appended S now a s)) else commitIndex s)"
proof -
  have w: "wf_log s" using assms(1) by (simp add: node_inv_def)
  have A: "lastSnapshotIndex s \<le> aa_prev_log_index a" "aa_prev_log_index a \<le> M_getLastLogIndex s"
    using assms(3) by (auto simp: accepts_def)
  have k: "base a s \<le> length (logs s)" using A last_index [OF w] by (simp add: base_def)
  have "\<forall>i < length (aa_entries a). entry_index (aa_entries a ! i) = lastSnapshotIndex s + 1 + int (base a s + i)"
    using assms(2) A(1) by (auto simp: args_ok_def base_def)
  from overlay_wf [OF w k this] show wt: "wf_log (appended S now a s)"
    by (simp add: wf_log_def appended_fields)
  show "M_getLastLogIndex (appended S now a s)
      = max (M_getLastLogIndex s) (aa_prev_log_index a + int (length (aa_entries a)))"
    using last_index [OF wt] last_index [OF w] overlay_length [OF k, of "aa_entries a"] A
    by (simp add: appended_fields base_def)
  show "commitIndex (appended S now a s) = (if aa_leader_commit a > commitIndex s
       then min (aa_leader_commit a) (M_getLastLogIndex (appended S now a s)) else commitIndex s)"
    by (simp add: appended_def Let_def M_getLastLogIndex_def)
qed

lemma set_overlay: "set (overlay l k es) \<subseteq> set l \<union> set es"
  by (auto simp: overlay_def dest: in_set_takeD in_set_dropD)

lemma appended_inv:
  assumes "node_inv s" "args_ok a" "accepts a s"
  shows "node_inv (appended S now a s)"
proof -
  note W = appended_wf [OF assms]
  have I: "wf_progress s" "wf_terms s" "wf_peers s" using assms(1) by (auto simp: node_inv_def)
  have t: "cur_term s \<le> aa_term a" using assms(3) by (simp add: accepts_def)
  have "\<forall>e \<in> set (aa_entries a). 0 \<le> entry_term e \<and> entry_term e \<le> aa_term a"
    using assms(2) by (simp add: args_ok_def)
  then have "wf_terms (appended S now a s)"
    using I(2) t set_overlay [of "logs s" "base a s" "aa_entries a"]
    by (fastforce simp: wf_terms_def appended_fields max_def)
  moreover have "wf_progress (appended S now a s)"
    using I(1) W(2,3) by (auto simp: wf_progress_def appended_fields)
  moreover have "wf_peers (appended S now a s)" using I(3) by (simp add: wf_peers_def appended_fields)
  moreover have "wf_leader (appended S now a s)" by (simp add: wf_leader_def appended_fields)
  ultimately show ?thesis using W(1) by (simp add: node_inv_def)
qed

lemma L_appendEntries_reject:
  assumes "node_inv s" "\<not> accepts a s"
  shows "\<exists>r t. L_appendEntries S now a s = Ret (r, t) \<and> node_inv t \<and> \<not> ar_success r
    \<and> ar_state r = CONNECTED \<and> ar_term r = max (cur_term s) (aa_term a)
    \<and> logs t = logs s \<and> commitIndex t = commitIndex s \<and> appliedIndex t = appliedIndex s
    \<and> lastSnapshotIndex t = lastSnapshotIndex s
    \<and> (aa_term a < cur_term s \<longrightarrow> t = s \<and> ar_update_next_index r = invalidUpdateNextIndex)
    \<and> (aa_term a \<ge> cur_term s \<longrightarrow>
         t = M_persist S (followed S now (aa_term a) s) \<and>
         (if aa_prev_log_index a > M_getLastLogIndex s
          then ar_update_next_index r = M_getLastLogIndex s + 1
          else if aa_prev_log_index a < lastSnapshotIndex s
          then ar_update_next_index r = lastSnapshotIndex s + 1
          else ar_update_next_index r \<le> aa_prev_log_index a
            \<and> lastSnapshotIndex s \<le> ar_update_next_index r))"
proof -
  let ?f = "followed S now (aa_term a) s" and ?prev = "aa_prev_log_index a"
  have fold: "(if aa_term a > cur_term s then M_identityChange S FOLLOWER (aa_term a) (- 1) s else s)
     \<lparr>identity := FOLLOWER, lastResetElectionTime := now\<rparr> = ?f" by (simp add: followed_def)
  have f: "node_inv ?f" using assms(1) by (rule followed_inv)
  note U = L_appendEntries_def fold Let_def max_def node_simps
  consider (old) "aa_term a < cur_term s" | (new) "aa_term a \<ge> cur_term s" "?prev > M_getLastLogIndex s"
    | (cut) "aa_term a \<ge> cur_term s" "?prev \<le> M_getLastLogIndex s" "?prev < lastSnapshotIndex s"
    | (mis) "aa_term a \<ge> cur_term s" "?prev \<le> M_getLastLogIndex s" "lastSnapshotIndex s \<le> ?prev"
    by linarith
  then show ?thesis
  proof cases
    case old
    then show ?thesis using assms(1) by (simp add: U append_reply0_def)
  next
    case new
    then show ?thesis using f by (simp add: U append_reply0_def)
  next
    case cut
    then show ?thesis using f by (simp add: U append_reply0_def)
  next
    case mis
    have w: "wf_log ?f" using f by (simp add: node_inv_def)
    have "M_getLogTerm s ?prev \<noteq> Some (aa_prev_log_term a)" using assms(2) mis by (auto simp: accepts_def)
    then obtain r where r: "M_matchLogTerm ?f ?prev (aa_prev_log_term a) = Some r" "r \<noteq> MATCH"
      using matchLogTerm_run [OF assms(1) mis(3,2), of S now "aa_term a" "aa_prev_log_term a"] by auto
    obtain u where u: "rollback_loop ?f ?prev ?prev ?prev = Some u"
      "u = ?prev \<or> lastSnapshotIndex ?f < u \<and> u \<le> ?prev + 1 \<and> M_getLogTerm ?f (u - 1) \<noteq> M_getLogTerm ?f ?prev"
      using rollback_loop_run [OF w order.refl, of ?prev ?prev] mis by auto
    then have "u \<le> ?prev" "lastSnapshotIndex s \<le> u" using mis by (auto simp: le_less)
    then show ?thesis using mis r u(1) f by (simp add: U append_reply0_def)
  qed
qed

lemma L_appendEntries_inv:
  assumes "node_inv s" "args_ok a"
  shows "(\<exists>r t. L_appendEntries S now a s = Ret (r, t) \<and> node_inv t)
    \<or> L_appendEntries S now a s = Throw ''different commands''"
proof (cases "accepts a s")
  case True
  then show ?thesis using L_appendEntries_accept [OF assms True] appended_inv [OF assms True] by simp
next
  case False
  then show ?thesis using L_appendEntries_reject [OF assms(1) False] by blast
qed

section \<open>Installing a snapshot\<close>

definition snapshot_ok :: "snapshot_args \<Rightarrow> bool" where
  "snapshot_ok a \<longleftrightarrow> 0 \<le> sa_last_term a \<and> sa_last_term a \<le> sa_term a"

definition installed :: "serial \<Rightarrow> int \<Rightarrow> snapshot_args \<Rightarrow> raft_state \<Rightarrow> raft_state" where
  "installed S now a s = (followed S now (sa_term a) s)
     \<lparr>logs := drop (nat (sa_last_index a - lastSnapshotIndex s)) (logs s),
      commitIndex := max (commitIndex s) (sa_last_index a),
      appliedIndex := max (appliedIndex s) (sa_last_index a),
      lastSnapshotIndex := sa_last_index a, lastSnapshotTerm := sa_last_term a\<rparr>"

lemma L_installSnapshot_run:
  assumes "node_inv s"
  shows "L_installSnapshot S now a s =
    (if sa_term a < cur_term s then Some (snapshot_reply0\<lparr>sr_term := cur_term s\<rparr>, [], s)
     else if sa_last_index a \<le> lastSnapshotIndex s
     then Some (snapshot_reply0, [], followed S now (sa_term a) s)
     else Some (snapshot_reply0\<lparr>sr_term := sa_term a\<rparr>,
       [PushMessage (snapshot_message True (word_of_int (sa_last_index a))
         (word_of_int (sa_last_term a)) (sa_data a))],
       (installed S now a s)\<lparr>pstr := persist_both (M_dump S (installed S now a s)) (sa_data a)
         (pstr (followed S now (sa_term a) s))\<rparr>))"
proof -
  let ?f = "followed S now (sa_term a) s"
  have fold: "(if sa_term a > cur_term s then M_identityChange S FOLLOWER (sa_term a) (- 1) s else s)
     \<lparr>identity := FOLLOWER, lastResetElectionTime := now\<rparr> = ?f" by (simp add: followed_def)
  have w: "wf_log s" using assms by (simp add: node_inv_def)
  let ?d = "drop (nat (sa_last_index a - lastSnapshotIndex s)) (logs s)"
  consider (old) "sa_term a < cur_term s" | (known) "\<not> sa_term a < cur_term s" "sa_last_index a \<le> lastSnapshotIndex s"
    | (part) "\<not> sa_term a < cur_term s" "\<not> sa_last_index a \<le> lastSnapshotIndex s" "M_getLastLogIndex s > sa_last_index a"
    | (all) "\<not> sa_term a < cur_term s" "\<not> sa_last_index a \<le> lastSnapshotIndex s" "\<not> M_getLastLogIndex s > sa_last_index a"
    by blast
  then show ?thesis
  proof cases
    case part
    have "erase_front (logs s) (M_getSlicesIndexFromLogIndex ?f (sa_last_index a) + 1) = Some ?d"
      using part last_index [OF w] by (simp add: erase_front_def M_getSlicesIndexFromLogIndex_def)
    then show ?thesis using part by (simp add: L_installSnapshot_def fold Let_def installed_def node_simps)
  next
    case all
    then have "?d = []" using last_index [OF w] by simp
    then show ?thesis using all by (simp add: L_installSnapshot_def fold Let_def installed_def node_simps)
  qed (simp_all add: L_installSnapshot_def fold Let_def node_simps)
qed

lemma installed_inv:
  assumes "node_inv s" "snapshot_ok a" "cur_term s \<le> sa_term a" "lastSnapshotIndex s < sa_last_index a"
  shows "node_inv ((installed S now a s)\<lparr>pstr := p\<rparr>)" (is "node_inv ?t")
proof -
  have I: "wf_log s" "wf_progress s" "wf_terms s" "wf_peers s" using assms(1) by (auto simp: node_inv_def)
  have w: "wf_log ?t" using I(1) assms(4) by (auto simp: wf_log_def installed_def)
  have "M_getLastLogIndex ?t = max (M_getLastLogIndex s) (sa_last_index a)"
    using last_index [OF w] last_index [OF I(1)] assms(4) by (auto simp: installed_def)
  then have "wf_progress ?t" using I(2) assms(4) by (auto simp: wf_progress_def installed_def)
  moreover have "wf_terms ?t"
    using I(3) assms(2,3) by (fastforce simp: wf_terms_def installed_def snapshot_ok_def dest: in_set_dropD)
  moreover have "wf_peers ?t" using I(4) by (simp add: wf_peers_def installed_def)
  moreover have "wf_leader ?t" by (simp add: wf_leader_def installed_def)
  ultimately show ?thesis using w by (simp add: node_inv_def)
qed

lemma L_installSnapshot_inv:
  assumes "node_inv s" "snapshot_ok a"
  shows "\<exists>r ts t. L_installSnapshot S now a s = Some (r, ts, t) \<and> node_inv t"
  using assms installed_inv [OF assms] followed_inv [OF assms(1)]
  by (auto simp: L_installSnapshot_run [OF assms(1)])

end
