(* ===== verification/RaftStep.thy ===== *)
theory RaftStep
  imports RaftAppend Steps
begin

text \<open>
  All steps of one node as a relation, each with the guarantee its caller gives (arguments
  built by a correct sender, a reply the peer could send), and the two facts every later
  argument rests on: the node invariant is kept, and terms, votes and progress only move
  forward.
\<close>

inductive node_step :: "serial \<Rightarrow> raft_state \<Rightarrow> raft_state \<Rightarrow> bool" for S where
  execute: "node_step S s (snd (raft_execute S c s))"
| persist: "raft_persist S index shot s = Some (b, t) \<Longrightarrow> node_step S s t"
| apply_msgs: "M_getApplyMessages s = Ret (msgs, t) \<Longrightarrow> node_step S s t"
| heartBeat: "L_heartBeat now s = Some (ts, t) \<Longrightarrow> node_step S s t"
| stand: "L_stand4Election S now s = (ts, t) \<Longrightarrow> node_step S s t"
| append_reply: "server < helpers_size s \<Longrightarrow> (\<And>r. rpc = Some r \<Longrightarrow> plausible s r) \<Longrightarrow>
    L_sendAppendEntries S now server a rpc num s = Ret (b, num', t) \<Longrightarrow> node_step S s t"
| vote_reply: "L_sendRequestVote S server va rpcv num s = Some (b, num', ts, t) \<Longrightarrow> node_step S s t"
| snapshot_reply: "server < helpers_size s \<Longrightarrow> sa_last_index sa \<le> M_getLastLogIndex s \<Longrightarrow>
    sendSnapshot_reply S now server sa rpcs s = Some t \<Longrightarrow> node_step S s t"
| append: "args_ok a \<Longrightarrow> L_appendEntries S now a s = Ret (r, t) \<Longrightarrow> node_step S s t"
| vote: "L_requestVote S now va s = (vr, t) \<Longrightarrow> node_step S s t"
| install: "snapshot_ok sa \<Longrightarrow> L_installSnapshot S now sa s = Some (sr, ts, t) \<Longrightarrow> node_step S s t"

lemma cur_term_nonneg: "node_inv s \<Longrightarrow> 0 \<le> cur_term s"
  by (simp add: node_inv_def wf_terms_def)

lemma node_step_inv: "node_step S s t \<Longrightarrow> node_inv s \<Longrightarrow> node_inv t"
proof (induction rule: node_step.induct)
  case (execute s c)
  then show ?case by (simp add: raft_execute_inv cur_term_nonneg)
next
  case (apply_msgs s msgs t)
  then show ?case using M_getApplyMessages_run [of s] M_getApplyMessages_inv [of s] by auto
next
  case (heartBeat now s ts t)
  then show ?case using L_heartBeat_inv [of s now] by auto
next
  case (stand now s ts t)
  then show ?case using L_stand4Election_inv [of s S now] by simp
next
  case (append_reply server s rpc now a num b num' t)
  then show ?case using L_sendAppendEntries_inv [of s server rpc S now a num] by auto
next
  case (vote_reply server va rpcv num s b num' ts t)
  then show ?case using L_sendRequestVote_inv [of s S server va rpcv num] by auto
next
  case (snapshot_reply server s sa now rpcs t)
  then show ?case using sendSnapshot_reply_inv [of s server sa S now rpcs] by auto
next
  case (append a now s r t)
  then show ?case using L_appendEntries_inv [of s a S now] by auto
next
  case (vote now va s vr t)
  then show ?case using L_requestVote_inv [of s S now va] by simp
next
  case (install sa now s sr ts t)
  then show ?case using L_installSnapshot_inv [of s sa S now] by auto
qed (use raft_persist_inv in blast)

text \<open>
  Forward: the term does not fall, within a term a vote once given stays, and the snapshot,
  the applied and the committed index do not fall.
\<close>

definition forward_only :: "raft_state \<Rightarrow> raft_state \<Rightarrow> bool" where
  "forward_only s t \<longleftrightarrow> cur_term s \<le> cur_term t
     \<and> (cur_term t = cur_term s \<and> vote4 s \<noteq> - 1 \<longrightarrow> vote4 t = vote4 s)
     \<and> lastSnapshotIndex s \<le> lastSnapshotIndex t \<and> appliedIndex s \<le> appliedIndex t
     \<and> commitIndex s \<le> commitIndex t \<and> me t = me s \<and> helpers_size t = helpers_size s"

lemma forward_refl: "forward_only s s"
  by (simp add: forward_only_def)

lemma forward_trans: "forward_only s t \<Longrightarrow> forward_only t u \<Longrightarrow> forward_only s u"
  by (auto simp: forward_only_def)

lemma forward_appended:
  assumes "node_inv s" "args_ok a" "accepts a s"
  shows "forward_only s (M_persist S (appended S now a s))"
proof -
  have "commitIndex s \<le> M_getLastLogIndex s" using assms(1) by (simp add: node_inv_def wf_progress_def)
  then show ?thesis
    using appended_wf(2,3) [OF assms, of S now] assms(3)
    by (auto simp: forward_only_def node_simps appended_fields accepts_def)
qed

lemma forward_append:
  assumes "node_inv s" "args_ok a" "L_appendEntries S now a s = Ret (r, t)"
  shows "forward_only s t"
proof (cases "accepts a s")
  case True
  then show ?thesis
    using L_appendEntries_accept [OF assms(1,2) True, of S now] forward_appended [OF assms(1,2) True] assms(3)
    by (auto split: if_splits)
next
  case False
  then show ?thesis
    using L_appendEntries_reject [OF assms(1) False, of S now] assms(3)
    by (auto simp: forward_only_def node_simps split: if_splits)
qed

lemma forward_install:
  assumes "node_inv s" "L_installSnapshot S now sa s = Some (sr, ts, t)"
  shows "forward_only s t"
  using assms(2) L_installSnapshot_run [OF assms(1), of S now sa]
  by (auto simp: forward_only_def installed_def split: if_splits)

lemma forward_persist:
  assumes "node_inv s" "raft_persist S index shot s = Some (b, t)"
  shows "forward_only s t"
proof (cases "lastSnapshotIndex s < index \<and> index \<le> commitIndex s")
  case True
  then show ?thesis using assms raft_persist_accept [OF assms(1)]
    by (auto simp: forward_only_def cut_at_def)
qed (use assms raft_persist_refuse in \<open>auto simp: forward_refl\<close>)

lemma forward_append_reply:
  assumes "L_sendAppendEntries S now server a rpc num s = Ret (b, num', t)"
  shows "forward_only s t"
  using assms
  by (auto simp: L_sendAppendEntries_def forward_only_def node_simps and_then_Ret of_opt_def Let_def
      arr_set_def arr_get_def split: option.splits if_splits)

lemma forward_vote_reply:
  assumes "L_sendRequestVote S server va rpc num s = Some (b, num', ts, t)"
  shows "forward_only s t"
  using assms
  by (auto simp: L_sendRequestVote_def forward_only_def node_simps Let_def
      arr_seti_Some bind_eq_Some_conv split: option.splits if_splits)

lemma node_step_forward: "node_step S s t \<Longrightarrow> node_inv s \<Longrightarrow> forward_only s t"
proof (induction rule: node_step.induct)
  case (execute s c)
  then show ?case by (simp add: raft_execute_def forward_only_def Let_def node_simps)
next
  case (apply_msgs s msgs t)
  then show ?case using M_getApplyMessages_run [of s]
    by (auto simp: forward_only_def node_inv_def wf_progress_def)
next
  case (heartBeat now s ts t)
  then show ?case by (auto simp: L_heartBeat_def forward_only_def bind_eq_Some_conv split: if_splits)
next
  case (stand now s ts t)
  then show ?case by (auto simp: L_stand4Election_def forward_only_def Let_def node_simps split: if_splits)
next
  case (snapshot_reply server s sa now rpcs t)
  then show ?case
    by (auto simp: sendSnapshot_reply_def forward_only_def node_simps bind_eq_Some_conv
        split: option.splits if_splits)
next
  case (vote now va s vr t)
  then show ?case by (auto simp: L_requestVote_def forward_only_def Let_def node_simps split: if_splits)
qed (auto intro: forward_persist forward_append_reply forward_vote_reply forward_append forward_install)

section \<open>Runs of a node\<close>

text \<open>A node as the server starts it: new files, member \<open>i\<close> of \<open>n\<close>.\<close>

definition node_start :: "serial \<Rightarrow> nat \<Rightarrow> nat \<Rightarrow> raft_state \<Rightarrow> bool" where
  "node_start S n i s \<longleftrightarrow> i < n \<and> (\<exists>now fs w. w (state_path i) \<and> w (snapshot_path i)
     \<and> raft_ctor S now (int i) (persister_ctor fs w i) n = Ret s)"

lemma raft_ctor_fresh:
  assumes "w (state_path i)" "w (snapshot_path i)"
  shows "\<exists>s. raft_ctor S now m (persister_ctor fs w i) n = Ret s \<and> helpers_size s = n \<and> logs s = []
    \<and> nextIndex s = replicate n 0 \<and> matchIndex s = replicate n 0 \<and> commitIndex s = 0
    \<and> appliedIndex s = 0 \<and> lastSnapshotIndex s = 0 \<and> lastSnapshotTerm s = 0 \<and> me s = m
    \<and> cur_term s = 0 \<and> vote4 s = - 1 \<and> identity s = FOLLOWER"
  using ctor_empties(2) [where w = w and me = i and fs = fs, OF assms]
  by (simp add: raft_ctor_def Let_def M_load_def)

lemma node_start_ex:
  assumes "i < n"
  shows "\<exists>s. node_start S n i s"
proof -
  let ?w = "\<lambda>_ :: string. True"
  obtain s where "raft_ctor S 0 (int i) (persister_ctor Map.empty ?w i) n = Ret s"
    using raft_ctor_fresh [of ?w i S 0 "int i" Map.empty n] by metis
  with assms show ?thesis unfolding node_start_def by (intro exI conjI) auto
qed

lemma node_start_fields:
  assumes "node_start S n i s"
  shows "node_inv s" "cur_term s = 0" "vote4 s = - 1" "identity s = FOLLOWER" "me s = int i"
    "helpers_size s = n" "i < n" "logs s = []" "lastSnapshotIndex s = 0" "lastSnapshotTerm s = 0"
    "commitIndex s = 0" "appliedIndex s = 0"
proof -
  from assms obtain now fs w where w: "w (state_path i)" "w (snapshot_path i)" and "i < n"
    and c: "raft_ctor S now (int i) (persister_ctor fs w i) n = Ret s" by (auto simp: node_start_def)
  with raft_ctor_fresh [OF w, of S now "int i" fs n]
  show "node_inv s" "cur_term s = 0" "vote4 s = - 1" "identity s = FOLLOWER" "me s = int i"
    "helpers_size s = n" "i < n" "logs s = []" "lastSnapshotIndex s = 0" "lastSnapshotTerm s = 0"
    "commitIndex s = 0" "appliedIndex s = 0"
    by (auto simp: node_inv_defs M_getLastLogIndex_def)
qed

interpretation node: monotone_steps "node_start S n i" "node_step S" node_inv forward_only for S n i
  by unfold_locales
    (auto simp: node_start_fields node_step_inv forward_refl node_step_forward intro: forward_trans)

end
