(* ===== verification/RaftDemo.thy ===== *)
theory RaftDemo
  imports RaftStep
begin

text \<open>
  Concrete instances for the witnesses: serialisation functions that satisfy \<open>serial_ok\<close>,
  built from the prefix codecs, and nodes of a cluster of three.
\<close>

definition demo_serial :: serial where
  "demo_serial =
    \<lparr>ser_entry = put_map (\<lambda>e. (entry_command e, entry_term e, entry_index e))
       (put_pair put_str (put_pair put_int put_int)),
     par_entry = (\<lambda>s. the (whole (get_map (\<lambda>(c, t, i). \<lparr>entry_command = c, entry_term = t, entry_index = i\<rparr>)
       (get_pair get_str (get_pair get_int get_int))) s)),
     out_node = put_map (\<lambda>p. (pn_logs p, pn_term p, pn_vote4 p, pn_lastSnapshotIndex p, pn_lastSnapshotTerm p))
       (put_pair (put_list put_str) (put_pair put_int (put_pair put_int (put_pair put_int put_int)))),
     in_node = whole (get_map (\<lambda>(l, t, v, i, j). \<lparr>pn_logs = l, pn_term = t, pn_vote4 = v,
         pn_lastSnapshotIndex = i, pn_lastSnapshotTerm = j\<rparr>)
       (get_pair (get_list get_str) (get_pair get_int (get_pair get_int (get_pair get_int get_int))))),
     out_op = put_pair put_str (put_pair put_str (put_pair put_str (put_pair put_str put_int))),
     in_op = whole (get_pair get_str (get_pair get_str (get_pair get_str (get_pair get_str get_int))))\<rparr>"

lemma demo_serial_ok: "serial_ok demo_serial"
proof -
  have "codec (ser_entry demo_serial) (whole (get_map (\<lambda>(c, t, i). \<lparr>entry_command = c, entry_term = t,
      entry_index = i\<rparr>) (get_pair get_str (get_pair get_int get_int))))"
    by (simp add: demo_serial_def) (intro prefix_whole prefix_codecs, simp)
  then have "par_entry demo_serial (ser_entry demo_serial e) = e" for e
    by (simp add: codecD(1) demo_serial_def)
  moreover have "codec (out_node demo_serial) (in_node demo_serial)"
    by (simp add: demo_serial_def) (intro prefix_whole prefix_codecs, simp)
  moreover have "codec (out_op demo_serial) (in_op demo_serial)"
    by (simp add: demo_serial_def) (intro prefix_whole prefix_codecs)
  ultimately show ?thesis by (simp add: serial_ok_def)
qed

definition demo_files :: persister where
  "demo_files = persister_ctor Map.empty (\<lambda>_. True) 0"

text \<open>A leader of term 2 with three entries, two of them committed, and a follower behind it.\<close>

definition entry :: "string \<Rightarrow> int \<Rightarrow> int \<Rightarrow> log_entry" where
  "entry c t i = \<lparr>entry_command = c, entry_term = t, entry_index = i\<rparr>"

definition demo_leader :: raft_state where
  "demo_leader = \<lparr>helpers_size = 3, logs = [entry ''a'' 1 1, entry ''b'' 1 2, entry ''c'' 2 3],
     nextIndex = [4, 2, 4], matchIndex = [3, 0, 2], lastResetElectionTime = 0,
     lastResetHeartBeatTime = 0, pstr = demo_files, commitIndex = 2, appliedIndex = 1,
     lastSnapshotIndex = 0, lastSnapshotTerm = 0, me = 0, cur_term = 2, vote4 = 0, identity = LEADER\<rparr>"

definition demo_follower :: raft_state where
  "demo_follower = \<lparr>helpers_size = 3, logs = [entry ''a'' 1 1],
     nextIndex = [0, 0, 0], matchIndex = [0, 0, 0], lastResetElectionTime = 0,
     lastResetHeartBeatTime = 0, pstr = persister_ctor Map.empty (\<lambda>_. True) 1, commitIndex = 1,
     appliedIndex = 1, lastSnapshotIndex = 0, lastSnapshotTerm = 0, me = 1, cur_term = 1, vote4 = - 1,
     identity = FOLLOWER\<rparr>"

definition demo_append :: append_args where
  "demo_append = \<lparr>aa_term = 2, aa_leader_id = 0, aa_prev_log_index = 1, aa_prev_log_term = 1,
     aa_entries = [entry ''b'' 1 2, entry ''c'' 2 3], aa_leader_commit = 2\<rparr>"

lemma demo_leader_inv: "node_inv demo_leader"
  by (simp add: node_inv_defs demo_leader_def entry_def M_getLastLogIndex_def All_less_Suc numeral_3_eq_3)

lemma demo_follower_inv: "node_inv demo_follower"
  by (simp add: node_inv_defs demo_follower_def entry_def M_getLastLogIndex_def All_less_Suc numeral_3_eq_3)

lemma demo_sends: "sends demo_leader demo_append"
  by (simp add: sends_def demo_leader_def demo_append_def entry_def M_getLastLogIndex_def
      M_getLogTerm_def M_valideIndex_def M_getSlicesIndexFromLogIndex_def arr_geti_in)

lemma demo_accepts: "accepts demo_append demo_follower"
  by (simp add: accepts_def demo_follower_def demo_append_def entry_def M_getLastLogIndex_def
      M_getLogTerm_def M_valideIndex_def M_getSlicesIndexFromLogIndex_def arr_geti_in)

lemma demo_args_ok: "args_ok demo_append"
  by (rule sends_args_ok [OF demo_leader_inv demo_sends])

end
