(* ===== verification/RaftProps.thy ===== *)
theory RaftProps
  imports RaftDemo
begin

text \<open>The properties of one Raft node, over the definitions of \<open>RaftNode\<close> and \<open>RaftHandlers\<close>.\<close>

section \<open>Lemmas for the properties\<close>

lemma sends_entry_at:
  assumes "node_inv s" "sends s a" "aa_prev_log_index a < j" "j \<le> M_getLastLogIndex s"
  shows "entry_at s j = Some (aa_entries a ! nat (j - aa_prev_log_index a - 1))
    \<and> nat (j - aa_prev_log_index a - 1) < length (aa_entries a)"
proof -
  have w: "wf_log s" using assms(1) by (simp add: node_inv_def)
  have p: "lastSnapshotIndex s \<le> aa_prev_log_index a" and
    e: "aa_entries a = drop (nat (aa_prev_log_index a - lastSnapshotIndex s)) (logs s)"
    using assms(2) by (auto simp: sends_def)
  have "nat (j - lastSnapshotIndex s - 1)
      = nat (aa_prev_log_index a - lastSnapshotIndex s) + nat (j - aa_prev_log_index a - 1)"
    using p assms(3) by simp
  then show ?thesis using last_index [OF w] p assms(3,4) by (simp add: entry_at_def e)
qed

lemma overlay_entry_at:
  assumes "node_inv s" "args_ok a" "accepts a s" "lastSnapshotIndex s < j"
  shows "entry_at (appended S now a s) j =
    (if aa_prev_log_index a < j \<and> j \<le> aa_prev_log_index a + int (length (aa_entries a))
     then Some (aa_entries a ! nat (j - aa_prev_log_index a - 1)) else entry_at s j)"
proof -
  have w: "wf_log s" using assms(1) by (simp add: node_inv_def)
  have p: "lastSnapshotIndex s \<le> aa_prev_log_index a" "aa_prev_log_index a \<le> M_getLastLogIndex s"
    using assms(3) by (auto simp: accepts_def)
  have k: "base a s \<le> length (logs s)" using p last_index [OF w] by (simp add: base_def)
  define i where "i = nat (j - lastSnapshotIndex s - 1)"
  have j: "j = lastSnapshotIndex s + 1 + int i" using assms(4) by (simp add: i_def)
  have b: "int (base a s) = aa_prev_log_index a - lastSnapshotIndex s" using p by (simp add: base_def)
  have pos: "nat (j - aa_prev_log_index a - 1) = i - base a s" using j b by linarith
  have c: "aa_prev_log_index a < j \<and> j \<le> aa_prev_log_index a + int (length (aa_entries a))
      \<longleftrightarrow> base a s \<le> i \<and> i < base a s + length (aa_entries a)" using j b by linarith
  have len: "i < length (overlay (logs s) (base a s) (aa_entries a))
      \<longleftrightarrow> i < length (logs s) \<or> i < base a s + length (aa_entries a)"
    using k by (auto simp: overlay_length)
  have at: "entry_at t j = (if i < length (logs t) then Some (logs t ! i) else None)"
    if "lastSnapshotIndex t = lastSnapshotIndex s" for t
    using that j by (auto simp: entry_at_def)
  show ?thesis
    unfolding pos c at [of "appended S now a s", unfolded appended_fields, OF refl] at [OF refl]
    using overlay_nth [OF k] len k by auto
qed

lemma M_load_dump:
  assumes "serial_ok S"
  shows "M_load S (M_dump S s) t = Ret (t\<lparr>cur_term := cur_term s, vote4 := vote4 s,
    lastSnapshotIndex := lastSnapshotIndex s, lastSnapshotTerm := lastSnapshotTerm s, logs := logs s\<rparr>)"
  using assms codecD(2) [of "out_node S" "in_node S"]
  by (simp add: M_load_def M_dump_def serial_ok_def codecD(1) comp_def map_idI)

section \<open>Properties\<close>







text \<open>
  C4. \<open>_L_appendEntries\<close> on arguments it accepts (term not old, \<open>prev_log_index\<close> inside the
  log with the same term there) answers success in the new term, becomes a follower, and
  the log afterwards holds exactly: the sent entry at every position sent, and at every other
  position above the snapshot what it held before, entries beyond the sent ones included.
  The commit index follows the leader's, cut to the last entry of this log. It throws
  instead exactly when a position holds a different command in the same term.
\<close>
theorem appendEntries_accepted:
  assumes "node_inv s" "args_ok a" "accepts a s"
  shows "if conflicts (logs s) (base a s) (aa_entries a)
    then L_appendEntries S now a s = Throw ''different commands''
    else \<exists>r t. L_appendEntries S now a s = Ret (r, t) \<and> ar_success r \<and> ar_term r = aa_term a
      \<and> node_inv t \<and> identity t = FOLLOWER \<and> cur_term t = aa_term a
      \<and> (\<forall>j > lastSnapshotIndex s. entry_at t j =
          (if aa_prev_log_index a < j \<and> j \<le> aa_prev_log_index a + int (length (aa_entries a))
           then Some (aa_entries a ! nat (j - aa_prev_log_index a - 1)) else entry_at s j))
      \<and> commitIndex t = max (commitIndex s) (min (aa_leader_commit a) (M_getLastLogIndex t))"
proof -
  let ?t = "M_persist S (appended S now a s)"
  have "commitIndex s \<le> M_getLastLogIndex s" using assms(1) by (simp add: node_inv_def wf_progress_def)
  then have "commitIndex ?t = max (commitIndex s) (min (aa_leader_commit a) (M_getLastLogIndex ?t))"
    using appended_wf(2,3) [OF assms, of S now] by (auto simp: node_simps)
  moreover have "entry_at ?t j = entry_at (appended S now a s) j" for j by (simp add: node_simps)
  ultimately show ?thesis
    using L_appendEntries_accept [OF assms, of S now] appended_inv [OF assms, of S now] assms(3)
      overlay_entry_at [OF assms, of _ S now]
    by (auto simp: node_simps appended_fields accepts_def)
qed

theorem appendEntries_accepted_witness:
  "\<exists>r t. L_appendEntries demo_serial 9 demo_append demo_follower = Ret (r, t) \<and> ar_success r
    \<and> entry_at t 3 = Some (entry ''c'' 2 3) \<and> commitIndex t = 2"
proof -
  have n: "\<not> conflicts (logs demo_follower) (base demo_append demo_follower) (aa_entries demo_append)"
    by (simp add: conflicts_def base_def demo_follower_def demo_append_def)
  obtain r t where rt: "L_appendEntries demo_serial 9 demo_append demo_follower = Ret (r, t)" "ar_success r"
    "node_inv t" "\<forall>j > 0. entry_at t j = (if 1 < j \<and> j \<le> 3
       then Some (aa_entries demo_append ! nat (j - 2)) else entry_at demo_follower j)"
    "commitIndex t = max 1 (min 2 (M_getLastLogIndex t))"
    using appendEntries_accepted [OF demo_follower_inv demo_args_ok demo_accepts, of demo_serial 9] n
    by (auto simp: demo_follower_def demo_append_def)
  have e: "entry_at t 3 = Some (entry ''c'' 2 3)" using rt(4) by (simp add: demo_append_def)
  then have "3 \<le> M_getLastLogIndex t"
    using rt(3) by (auto simp: entry_at_def node_inv_def last_index split: if_splits)
  with rt e show ?thesis by simp
qed

text \<open>
  C19. Replication: when a follower accepts what a leader sends it, then from
  \<open>prev_log_index\<close> up to the leader's last entry both logs hold the same entries, term and
  command.
\<close>
theorem appendEntries_replicates:
  assumes "node_inv l" "sends l a" "node_inv f" "accepts a f"
    and "L_appendEntries S now a f = Ret (r, t)"
  shows "ar_success r \<and> M_getLastLogIndex l \<le> M_getLastLogIndex t \<and>
    (\<forall>j. aa_prev_log_index a < j \<and> j \<le> M_getLastLogIndex l \<longrightarrow> entry_at t j = entry_at l j \<and> entry_at l j \<noteq> None)"
proof -
  have ok: "args_ok a" by (rule sends_args_ok [OF assms(1,2)])
  have t: "t = M_persist S (appended S now a f)" "ar_success r"
    using L_appendEntries_accept [OF assms(3) ok assms(4), of S now] assms(5) by (auto split: if_splits)
  have w: "wf_log l" using assms(1) by (simp add: node_inv_def)
  have len: "aa_prev_log_index a + int (length (aa_entries a)) = M_getLastLogIndex l"
    using assms(2) last_index [OF w] by (simp add: sends_def of_nat_diff nat_le_iff)
  have "M_getLastLogIndex l \<le> M_getLastLogIndex t"
    using appended_wf(2) [OF assms(3) ok assms(4), of S now] len t by (simp add: node_simps)
  moreover have "entry_at t j = entry_at l j \<and> entry_at l j \<noteq> None"
    if "aa_prev_log_index a < j" "j \<le> M_getLastLogIndex l" for j
  proof -
    have "lastSnapshotIndex f < j" using that assms(4) by (simp add: accepts_def)
    from overlay_entry_at [OF assms(3) ok assms(4) this, of S now] that len
      sends_entry_at [OF assms(1,2) that]
    show ?thesis by (simp add: t node_simps)
  qed
  ultimately show ?thesis using t by blast
qed

theorem appendEntries_replicates_witness:
  "\<exists>r t. L_appendEntries demo_serial 9 demo_append demo_follower = Ret (r, t) \<and> ar_success r
    \<and> entry_at t 2 = entry_at demo_leader 2"
proof -
  have "\<not> conflicts (logs demo_follower) (base demo_append demo_follower) (aa_entries demo_append)"
    by (simp add: conflicts_def base_def demo_follower_def demo_append_def)
  then obtain r t where rt: "L_appendEntries demo_serial 9 demo_append demo_follower = Ret (r, t)"
    using L_appendEntries_accept [OF demo_follower_inv demo_args_ok demo_accepts, of demo_serial 9] by simp
  from appendEntries_replicates [OF demo_leader_inv demo_sends demo_follower_inv demo_accepts rt] rt
  show ?thesis by (auto simp: demo_append_def demo_leader_def M_getLastLogIndex_def entry_def)
qed



text \<open>
  A vote is granted exactly when the candidate's term is not old, its log is at least as
  up to date (last term, then last index), and in this term no vote went to another candidate.
  The reply carries the new current term, and the vote is the candidate's.
\<close>
theorem requestVote_granted:
  "case L_requestVote S now a s of (r, t) \<Rightarrow>
     vr_term r = max (cur_term s) (va_term a) \<and> cur_term t = vr_term r
   \<and> (vr_vote_granted r \<longleftrightarrow>
        cur_term s \<le> va_term a
        \<and> (va_last_log_term a > M_getLastLogTerm s
           \<or> va_last_log_term a = M_getLastLogTerm s \<and> va_last_log_index a \<ge> M_getLastLogIndex s)
        \<and> (cur_term s < va_term a \<or> vote4 s = - 1 \<or> vote4 s = va_candidate_id a))
   \<and> vote4 t = (if vr_vote_granted r then va_candidate_id a
                else if cur_term s < va_term a then - 1 else vote4 s)
   \<and> (vr_vote_granted r \<longleftrightarrow> vr_state r = NORMAL)
   \<and> logs t = logs s \<and> commitIndex t = commitIndex s"
  by (auto simp: L_requestVote_def Let_def M_receiveVote_def node_simps vote_reply0_def max_def
      split: prod.splits)

text \<open>
  C5. Applying: the messages handed to the application are the commands of the log entries
  from the applied index on up to the commit index, each exactly once, in log order, with
  its own index; afterwards applied and committed index agree, and a second call hands out
  nothing.
\<close>
theorem apply_exactly_once:
  assumes "node_inv s"
  shows "\<exists>msgs t. M_getApplyMessages s = Ret (msgs, t) \<and> t = s\<lparr>appliedIndex := commitIndex s\<rparr>
    \<and> length msgs = nat (commitIndex s - appliedIndex s)
    \<and> (\<forall>k < length msgs. \<exists>e. entry_at s (appliedIndex s + 1 + int k) = Some e
         \<and> entry_index e = appliedIndex s + 1 + int k
         \<and> msgs ! k = command_message True (word_of_int (entry_index e)) (entry_command e))
    \<and> M_getApplyMessages t = Ret ([], t)"
proof -
  have w: "wf_log s" and p: "lastSnapshotIndex s \<le> appliedIndex s" "commitIndex s \<le> M_getLastLogIndex s"
    using assms by (auto simp: node_inv_def wf_progress_def)
  let ?t = "s\<lparr>appliedIndex := commitIndex s\<rparr>"
  have at: "\<exists>e. entry_at s j = Some e \<and> entry_index e = j"
    if "appliedIndex s < j" "j \<le> commitIndex s" for j
    using that p w last_index [OF w] by (auto simp: entry_at_def wf_log_def)
  have "M_getApplyMessages ?t = Ret ([], ?t)"
    using M_getApplyMessages_run [OF M_getApplyMessages_inv [OF assms]] by simp
  moreover have "\<exists>e. entry_at s (appliedIndex s + 1 + int k) = Some e
      \<and> entry_index e = appliedIndex s + 1 + int k" if "k < nat (commitIndex s - appliedIndex s)" for k
    using at [of "appliedIndex s + 1 + int k"] that by simp
  ultimately show ?thesis
    using M_getApplyMessages_run [OF assms] by (fastforce simp: nth_upto)
qed

theorem apply_exactly_once_witness:
  "\<exists>t. M_getApplyMessages demo_leader = Ret ([command_message True 2 ''b''], t) \<and> appliedIndex t = 2"
proof -
  obtain msgs t where m: "M_getApplyMessages demo_leader = Ret (msgs, t)"
    "t = demo_leader\<lparr>appliedIndex := commitIndex demo_leader\<rparr>" "length msgs = 1"
    "\<forall>k < length msgs. \<exists>e. entry_at demo_leader (2 + int k) = Some e \<and> entry_index e = 2 + int k
       \<and> msgs ! k = command_message True (word_of_int (entry_index e)) (entry_command e)"
    using apply_exactly_once [OF demo_leader_inv] by (auto simp: demo_leader_def)
  then have "msgs ! 0 = command_message True 2 ''b''"
    by (auto simp: entry_at_def demo_leader_def entry_def)
  with m show ?thesis by (cases msgs) (auto simp: demo_leader_def)
qed

text \<open>
  C29. \<open>raft::persist\<close> accepts an index exactly between the old snapshot and the commit
  index; then the snapshot is at that index with its entry's term, every entry above it is
  kept, nothing at or below it remains, the last log index is unchanged, and the state file
  and the snapshot file are written together.
\<close>
theorem persist_cuts_log:
  assumes "node_inv s"
  shows "\<exists>b t. raft_persist S index shot s = Some (b, t) \<and> node_inv t
    \<and> (b \<longleftrightarrow> lastSnapshotIndex s < index \<and> index \<le> commitIndex s) \<and> (\<not> b \<longrightarrow> t = s)
    \<and> (b \<longrightarrow> lastSnapshotIndex t = index \<and> M_getLogTerm s index = Some (lastSnapshotTerm t)
         \<and> (\<forall>j. entry_at t j = (if j > index then entry_at s j else None))
         \<and> M_getLastLogIndex t = M_getLastLogIndex s
         \<and> pstr t = persist_both (M_dump S t) shot (pstr s))"
proof (cases "lastSnapshotIndex s < index \<and> index \<le> commitIndex s")
  case True
  let ?t = "(cut_at index s)\<lparr>pstr := persist_both (M_dump S (cut_at index s)) shot (pstr s)\<rparr>"
  have w: "wf_log s" and le: "index \<le> M_getLastLogIndex s"
    using assms True by (auto simp: node_inv_def wf_progress_def)
  have f: "logs ?t = drop (nat (index - lastSnapshotIndex s)) (logs s)" "lastSnapshotIndex ?t = index"
    by (simp_all add: cut_at_def)
  have "M_getLogTerm s index = Some (lastSnapshotTerm ?t)"
    using M_getLogTerm_in [OF w _ le] True by (simp add: cut_at_def)
  moreover have "M_dump S ?t = M_dump S (cut_at index s)" by (simp add: M_dump_def)
  moreover have "entry_at ?t j = (if j > index then entry_at s j else None)" for j
    using cut_log(3) [OF w _ le f] True by (auto simp: entry_at_def [of ?t] f(2))
  moreover have "M_getLastLogIndex ?t = M_getLastLogIndex s"
    using cut_log(2) [OF w _ le f] True by simp
  ultimately show ?thesis
    using raft_persist_accept [OF assms] True cut_at_inv [OF assms] f(2)
    by (intro exI [of _ True] exI [of _ ?t]) simp
next
  case False
  then show ?thesis using assms raft_persist_refuse [of s index S shot] by auto
qed

theorem persist_cuts_log_witness:
  "\<exists>t. raft_persist demo_serial 1 ''shot'' demo_leader = Some (True, t) \<and> node_inv t
    \<and> lastSnapshotIndex t = 1 \<and> lastSnapshotTerm t = 1 \<and> entry_at t 2 = entry_at demo_leader 2"
proof -
  have c: "lastSnapshotIndex demo_leader < 1 \<and> 1 \<le> commitIndex demo_leader" by (simp add: demo_leader_def)
  have "M_getLogTerm demo_leader 1 = Some 1"
    by (simp add: demo_leader_def M_getLogTerm_def M_valideIndex_def M_getLastLogIndex_def
        M_getSlicesIndexFromLogIndex_def arr_geti_in entry_def)
  then show ?thesis
    using persist_cuts_log [OF demo_leader_inv, of demo_serial 1 "''shot''"] c by force
qed

end
