(* ===== verification/RaftLeader.thy ===== *)
theory RaftLeader
  imports RaftProps
begin

text \<open>
  What turns a candidate into a leader and moves a leader's commit index, and what survives
  on disk: the state file, its reading back, and a restart.
\<close>

section \<open>Leaders\<close>

lemma L_sendRequestVote_quiet:
  assumes "L_sendRequestVote S server a rpc num s = Some (b, num', ts, t)"
    and "\<not> (\<exists>r. rpc = Some r \<and> vr_term r = cur_term s \<and> vr_vote_granted r)"
  shows "num' = num \<and> ts = [] \<and> identity t \<noteq> LEADER \<or> t = s \<and> num' = num \<and> ts = []"
  using assms by (auto simp: L_sendRequestVote_def node_simps split: option.splits if_splits)

text \<open>
  A node that is not the leader becomes it on handling a vote reply exactly when the reply
  grants the vote in the node's current term and the round's counter thereby reaches more than
  half of the nodes. The new leader starts every \<open>nextIndex\<close> right after its log, knows only
  its own log as replicated, keeps its term, vote and log, and starts one heartbeat.
\<close>
theorem election_won:
  assumes "node_inv s" "identity s \<noteq> LEADER"
    and "L_sendRequestVote S server a rpc num s = Some (b, num', ts, t)"
  shows "(identity t = LEADER \<longleftrightarrow>
      (\<exists>r. rpc = Some r \<and> vr_term r = cur_term s \<and> vr_vote_granted r) \<and> over_half s \<le> num + 1)
    \<and> (identity t = LEADER \<longrightarrow> ts = [HeartBeat] \<and> num' = 0 \<and> cur_term t = cur_term s
        \<and> vote4 t = vote4 s \<and> logs t = logs s
        \<and> nextIndex t = replicate (helpers_size s) (M_getLastLogIndex s + 1)
        \<and> (\<forall>i < helpers_size s. matchIndex t ! i = (if int i = me s then M_getLastLogIndex s else 0)))"
proof (cases "\<exists>r. rpc = Some r \<and> vr_term r = cur_term s \<and> vr_vote_granted r")
  case False
  then show ?thesis using L_sendRequestVote_quiet [OF assms(3) False] assms(2) by auto
next
  case True
  have me: "0 \<le> me s" "me s < int (helpers_size s)" using assms(1) by (auto simp: node_inv_def wf_peers_def)
  have last: "M_getLastLogIndex (s\<lparr>identity := LEADER\<rparr>) = M_getLastLogIndex s"
    by (simp add: M_getLastLogIndex_def)
  show ?thesis
    using True assms(2,3) me nat_eq_iff [of "me s"]
    by (auto simp: L_sendRequestVote_def Let_def node_simps arr_seti_in last nth_list_update eq_commute [of "nat (me s)"]
        split: if_splits)
qed

theorem election_won_witness:
  "\<exists>b n t. L_sendRequestVote demo_serial 1 undefined
     (Some \<lparr>vr_term = 1, vr_vote_granted = True, vr_state = NORMAL\<rparr>) 1 demo_follower
     = Some (b, n, [HeartBeat], t) \<and> identity t = LEADER \<and> nextIndex t = [2, 2, 2]"
proof -
  let ?r = "\<lparr>vr_term = 1, vr_vote_granted = True, vr_state = NORMAL\<rparr>"
  obtain b n ts t where e: "L_sendRequestVote demo_serial 1 undefined (Some ?r) 1 demo_follower
      = Some (b, n, ts, t)"
    using L_sendRequestVote_inv [OF demo_follower_inv] by metis
  have "identity demo_follower \<noteq> LEADER" "over_half demo_follower \<le> 1 + 1" "cur_term demo_follower = 1"
    by (simp_all add: demo_follower_def over_half_def drop_bit_eq_div)
  with election_won [OF demo_follower_inv _ e] e show ?thesis
    by (auto simp: demo_follower_def M_getLastLogIndex_def entry_def numeral_3_eq_3)
qed

text \<open>The state after a successful push, before the commit rule.\<close>

definition pushed :: "nat \<Rightarrow> append_args \<Rightarrow> raft_state \<Rightarrow> raft_state" where
  "pushed server a s =
     (let m = max (matchIndex s ! server) (aa_prev_log_index a + int (length (aa_entries a)))
      in s\<lparr>matchIndex := (matchIndex s)[server := m], nextIndex := (nextIndex s)[server := m + 1]\<rparr>)"

lemma sendAppendEntries_success:
  assumes "rpc = Some r" "ar_state r \<noteq> DISCONNECTED" "\<not> ar_term r > cur_term s"
    "\<not> (ar_term r < cur_term s \<or> identity s \<noteq> LEADER)" "ar_success r"
    and len: "server < length (nextIndex s)" "server < length (matchIndex s)"
  shows "L_sendAppendEntries S now server a rpc num s =
    (let sent = aa_prev_log_index a + int (length (aa_entries a));
         u = (if aa_entries a \<noteq> [] \<and> entry_term (last (aa_entries a)) = cur_term s
              then (pushed server a s)\<lparr>commitIndex := max (commitIndex s) sent\<rparr> else pushed server a s)
     in if max (matchIndex s ! server) sent > M_getLastLogIndex s then Throw ''nextIndex > lastLogIndex + 1''
        else if num + 1 \<ge> over_half s then
          (if commitIndex u > M_getLastLogIndex s then Throw ''commitIndex > lastLogIndex'' else Ret (True, 0, u))
        else if commitIndex s > M_getLastLogIndex s then Throw ''commitIndex > lastLogIndex''
        else Ret (True, num + 1, pushed server a s))"
proof -
  have f: "M_getLastLogIndex (pushed server a s) = M_getLastLogIndex s" "over_half (pushed server a s) = over_half s"
    "commitIndex (pushed server a s) = commitIndex s" "cur_term (pushed server a s) = cur_term s"
    by (simp_all add: pushed_def Let_def M_getLastLogIndex_def over_half_def)
  define sent where "sent = aa_prev_log_index a + int (length (aa_entries a))"
  define m where "m = max (matchIndex s ! server) sent"
  have p: "pushed server a s = s\<lparr>matchIndex := (matchIndex s)[server := m], nextIndex := (nextIndex s)[server := m + 1]\<rparr>"
    by (simp add: pushed_def m_def sent_def Let_def)
  have M: "(s\<lparr>matchIndex := (matchIndex s)[server := m], nextIndex := (nextIndex s)[server := m + 1]\<rparr>) = pushed server a s"
    by (simp add: p)
  show ?thesis
    unfolding L_sendAppendEntries_def assms(1) option.case sent_def [symmetric] Let_def
    using assms(2-5) len f
    by (auto simp: arr_set_in arr_get_in m_def [symmetric] M)
qed


text \<open>A heartbeat of the demo leader to node 1, acknowledged.\<close>

definition demo_ack :: append_reply where
  "demo_ack = \<lparr>ar_term = 2, ar_success = True, ar_update_next_index = 0, ar_state = CONNECTED\<rparr>"


section \<open>On disk\<close>

text \<open>
  Reading the state file back restores term, vote, snapshot position and log when the
  archive text is one word; otherwise only its first word is read, because the file is read
  with \<open>ifs >> state\<close>.
\<close>
theorem state_file_read_back:
  assumes "serial_ok S" "own_files i (pstr s)"
  shows "(one_word (M_dump S s) \<longrightarrow>
      M_load S (snd (loadState (pstr (M_persist S s)) [])) t
      = Ret (t\<lparr>cur_term := cur_term s, vote4 := vote4 s, lastSnapshotIndex := lastSnapshotIndex s,
          lastSnapshotTerm := lastSnapshotTerm s, logs := logs s\<rparr>))
    \<and> (\<forall>w c rest. M_dump S s = w @ c # rest \<and> one_word w \<and> is_space c \<longrightarrow>
      loadState (pstr (M_persist S s)) [] = (True, w))"
  using load_after_persist(3) [OF assms(2)] M_load_dump [OF assms(1)]
  by (auto simp: M_persist_def extract_one_word extract_first_word)

theorem state_file_read_back_witness:
  "M_load demo_serial (snd (loadState (pstr (M_persist demo_serial demo_leader)) [])) demo_leader
     = Ret demo_leader"
proof -
  have "own_files 0 (pstr demo_leader)" by (simp add: demo_leader_def demo_files_def ctor_empties(1))
  moreover have "one_word (M_dump demo_serial demo_leader)"
    by (simp add: one_word_def is_space_def M_dump_def demo_leader_def entry_def demo_serial_def put_map_def
        put_pair_def put_list_def put_str_def put_int_def eval_nat_numeral)
  ultimately show ?thesis
    using state_file_read_back [OF demo_serial_ok, of 0 demo_leader demo_leader] by simp
qed

text \<open>
  Were the files kept, a node with a snapshot would not come up either: the constructor sets
  the applied index but leaves the commit index at zero.
\<close>

lemma snapshot_restart_throws:
  assumes "raft_ctor S now m p n = Ret t" "0 < lastSnapshotIndex t"
  shows "\<exists>e. M_getApplyMessages t = Throw e"
proof -
  have "commitIndex t = 0" "appliedIndex t = lastSnapshotIndex t"
    using assms by (auto simp: raft_ctor_def Let_def M_load_def and_then_Ret split: if_splits option.splits)
  with assms(2) show ?thesis by (simp add: M_getApplyMessages_def)
qed

text \<open>
  C37. A restart forgets everything: the persister's constructor truncates both files, so
  whatever the files held, the node comes up in term 0 without a vote, a log or a snapshot.
  And a node that did come up with a snapshot would throw in the first round of its applier,
  because its commit index is below its applied index.
\<close>
theorem restart_forgets:
  assumes "own_files i (pstr s)"
  shows "(\<exists>t. raft_ctor S now m (persister_ctor (files (pstr s)) (writable (pstr s)) i) n = Ret t
      \<and> cur_term t = 0 \<and> vote4 t = - 1 \<and> logs t = [] \<and> lastSnapshotIndex t = 0 \<and> commitIndex t = 0)
    \<and> (\<forall>p t. raft_ctor S now m p n = Ret t \<and> 0 < lastSnapshotIndex t \<longrightarrow> (\<exists>e. M_getApplyMessages t = Throw e))"
proof -
  have "writable (pstr s) (state_path i)" "writable (pstr s) (snapshot_path i)"
    using assms by (auto simp: own_files_def)
  from raft_ctor_fresh [OF this, of S now m "files (pstr s)" n] snapshot_restart_throws show ?thesis by metis
qed

theorem restart_forgets_witness:
  "\<exists>t. raft_ctor demo_serial 0 0 (persister_ctor (files (pstr (M_persist demo_serial demo_leader)))
     (writable (pstr (M_persist demo_serial demo_leader))) 0) 3 = Ret t \<and> vote4 t = - 1 \<and> logs t = []"
proof -
  have "own_files 0 (pstr (M_persist demo_serial demo_leader))"
    by (simp add: M_persist_def demo_leader_def demo_files_def ctor_empties(1))
  from restart_forgets [OF this] show ?thesis by metis
qed

section \<open>Votes\<close>

lemma requestVote_grants:
  assumes "L_requestVote S now a s = (r, t)" "vr_vote_granted r"
  shows "cur_term t = vr_term r \<and> vote4 t = va_candidate_id a
    \<and> (vr_term r = cur_term s \<longrightarrow> vote4 s = - 1 \<or> vote4 s = va_candidate_id a) \<and> cur_term s \<le> vr_term r"
  using assms
  by (auto simp: L_requestVote_def Let_def node_simps vote_reply0_def split: if_splits)

text \<open>
  C3. One vote per term: whatever happens to a node between two vote requests, if it grants
  both in the same term then both candidates are the same.
\<close>
theorem vote_once:
  assumes "node_start S n i s0" "(node_step S)\<^sup>*\<^sup>* s0 s"
    and "L_requestVote S now1 a s = (r1, s1)" "vr_vote_granted r1" "va_candidate_id a \<noteq> - 1"
    and "(node_step S)\<^sup>*\<^sup>* s1 t" "L_requestVote S now2 b t = (r2, t2)" "vr_vote_granted r2"
    and "vr_term r1 = vr_term r2"
  shows "va_candidate_id a = va_candidate_id b"
proof -
  have "(node_step S)\<^sup>*\<^sup>* s0 s1"
    using assms(2) node_step.vote [OF assms(3)] by (rule rtranclp.rtrancl_into_rtrancl)
  from node.reach_rel [OF assms(1) this assms(6)] requestVote_grants [OF assms(3,4)]
    requestVote_grants [OF assms(7,8)] assms(5,9)
  show ?thesis by (auto simp: forward_only_def)
qed

text \<open>Two requests of candidate 2 in term 7, both granted by node 0.\<close>

definition demo_vote :: vote_args where
  "demo_vote = \<lparr>va_term = 7, va_candidate_id = 2, va_last_log_index = 0, va_last_log_term = 0\<rparr>"

definition demo_vote_again :: vote_args where
  "demo_vote_again = demo_vote\<lparr>va_last_log_index := 3\<rparr>"

theorem vote_once_witness:
  "\<exists>s r1 s1 r2 s2. L_requestVote demo_serial 1 demo_vote s = (r1, s1) \<and> vr_vote_granted r1
    \<and> L_requestVote demo_serial 2 demo_vote_again s1 = (r2, s2) \<and> vr_vote_granted r2
    \<and> va_candidate_id demo_vote = va_candidate_id demo_vote_again \<and> vr_term r2 = 7"
proof -
  obtain s where s: "node_start demo_serial 3 0 s" using node_start_ex [of 0 3] by auto
  note F = node_start_fields [OF s]
  define r1 s1 where "r1 = fst (L_requestVote demo_serial 1 demo_vote s)"
    and "s1 = snd (L_requestVote demo_serial 1 demo_vote s)"
  define r2 s2 where "r2 = fst (L_requestVote demo_serial 2 demo_vote_again s1)"
    and "s2 = snd (L_requestVote demo_serial 2 demo_vote_again s1)"
  have e1: "L_requestVote demo_serial 1 demo_vote s = (r1, s1)" by (simp add: r1_def s1_def)
  have g1: "vr_vote_granted r1" "vr_term r1 = 7" "cur_term s1 = 7" "vote4 s1 = 2" "M_getLastLogIndex s1 = 0"
    "M_getLastLogTerm s1 = 0"
    using F by (simp_all add: r1_def s1_def L_requestVote_def demo_vote_def Let_def M_receiveVote_def node_simps
        vote_reply0_def M_getLastLogIndex_def M_getLastLogTerm_def)
  have e2: "L_requestVote demo_serial 2 demo_vote_again s1 = (r2, s2)" by (simp add: r2_def s2_def)
  have g2: "vr_vote_granted r2" "vr_term r2 = 7"
    using g1 by (simp_all add: r2_def L_requestVote_def demo_vote_def demo_vote_again_def Let_def M_receiveVote_def node_simps vote_reply0_def)
  have "va_candidate_id demo_vote = va_candidate_id demo_vote_again"
    by (rule vote_once [OF s rtranclp.rtrancl_refl e1 g1(1) _ rtranclp.rtrancl_refl e2 g2(1)])
      (use g1 g2 in \<open>simp_all add: demo_vote_def demo_vote_again_def\<close>)
  with e1 g1 e2 g2 show ?thesis by blast
qed

end
