(* ===== verification/Cluster.thy ===== *)
theory Cluster
  imports RaftHandlers Steps
begin

text \<open>
  A cluster: the nodes, the detached threads they start, and the network between them. A
  thread that makes a remote call is first waiting to deliver it, then holds what came back;
  a call can fail before or after the peer has handled it. The applier of a node collects its
  messages under the lock and pushes them one by one outside it: \<open>applying\<close> holds what it
  has still to push. \<open>chans\<close> are the channels to the applications. The counters \<open>voteNum\<close> and
  \<open>appendNum\<close> that the threads of one round share are kept by round.
\<close>

section \<open>State\<close>

datatype thread =
    VoteCall nat nat vote_args nat
  | VoteBack nat nat vote_args nat "vote_reply option"
  | AppendCall nat nat append_args nat
  | AppendBack nat nat append_args nat "append_reply option"
  | SnapshotStart nat nat
  | SnapshotCall nat nat snapshot_args
  | SnapshotBack nat nat snapshot_args "snapshot_reply option"
  | BeatThread nat
  | PushThread nat apply_message
  | Finished

record cluster =
  nodes :: "raft_state list"
  applying :: "apply_message list list"
  chans :: "apply_message safequeue list"
  threads :: "thread list"
  voteNum :: "nat \<Rightarrow> int"
  appendNum :: "nat \<Rightarrow> int"
  rounds :: nat

fun spawn :: "nat \<Rightarrow> nat \<Rightarrow> task \<Rightarrow> thread" where
  "spawn src r (SendAppendEntries dst a _) = AppendCall src dst a r"
| "spawn src r (SendRequestVote dst a) = VoteCall src dst a r"
| "spawn src r (SendSnapshot dst) = SnapshotStart src dst"
| "spawn src r HeartBeat = BeatThread src"
| "spawn src r (PushMessage m) = PushThread src m"

text \<open>A new round: its threads share a counter that starts at 1.\<close>

definition begin_round :: "nat \<Rightarrow> raft_state \<Rightarrow> task list \<Rightarrow> cluster \<Rightarrow> cluster" where
  "begin_round i s ts c = c\<lparr>nodes := (nodes c)[i := s],
     threads := threads c @ map (spawn i (rounds c)) ts,
     voteNum := (voteNum c)(rounds c := 1), appendNum := (appendNum c)(rounds c := 1),
     rounds := Suc (rounds c)\<rparr>"

text \<open>Thread \<open>k\<close> goes on as \<open>th\<close> after node \<open>i\<close> moved to \<open>s\<close>, starting \<open>new\<close>.\<close>

definition proceed :: "nat \<Rightarrow> thread \<Rightarrow> nat \<Rightarrow> raft_state \<Rightarrow> thread list \<Rightarrow> cluster \<Rightarrow> cluster" where
  "proceed k th i s new c = c\<lparr>nodes := (nodes c)[i := s], threads := (threads c)[k := th] @ new\<rparr>"

section \<open>Steps\<close>

text \<open>
  What a scheduler can let happen: an election timeout, a heartbeat tick, a client command,
  a snapshot taken by the application, the applier collecting its messages or pushing the
  next one, the application taking a message off its channel, or the next action of a
  thread (with \<open>ok = False\<close> the call fails).
\<close>

datatype action = Elect nat | Tick nat | Execute nat op | TakeSnapshot nat int string
  | ApplyMsgs nat | PushMsg nat | TakeMsg nat | RunThread nat bool

fun thread_step :: "serial \<Rightarrow> int \<Rightarrow> nat \<Rightarrow> bool \<Rightarrow> thread \<Rightarrow> cluster \<Rightarrow> cluster option" where
  "thread_step S now k ok (VoteCall src dst a r) c = do {
     d \<leftarrow> arr_get (nodes c) dst;
     (if ok then let (reply, d') = L_requestVote S now a d
        in Some (proceed k (VoteBack src dst a r (Some reply)) dst d' [] c)
      else Some (proceed k (VoteBack src dst a r None) dst d [] c)) }"
| "thread_step S now k ok (VoteBack src dst a r rpc) c = do {
     s \<leftarrow> arr_get (nodes c) src;
     (b, num, ts, s') \<leftarrow> L_sendRequestVote S dst a (if ok then rpc else None) (voteNum c r) s;
     Some ((proceed k Finished src s' (map (spawn src r) ts) c)\<lparr>voteNum := (voteNum c)(r := num)\<rparr>) }"
| "thread_step S now k ok (AppendCall src dst a r) c = do {
     d \<leftarrow> arr_get (nodes c) dst;
     (if ok then case L_appendEntries S now a d of
        Ret (reply, d') \<Rightarrow> Some (proceed k (AppendBack src dst a r (Some reply)) dst d' [] c)
      | _ \<Rightarrow> None
      else Some (proceed k (AppendBack src dst a r None) dst d [] c)) }"
| "thread_step S now k ok (AppendBack src dst a r rpc) c = do {
     s \<leftarrow> arr_get (nodes c) src;
     (case L_sendAppendEntries S now dst a (if ok then rpc else None) (appendNum c r) s of
        Ret (b, num, s') \<Rightarrow>
          Some ((proceed k Finished src s' [] c)\<lparr>appendNum := (appendNum c)(r := num)\<rparr>)
      | _ \<Rightarrow> None) }"
| "thread_step S now k ok (SnapshotStart src dst) c = do {
     s \<leftarrow> arr_get (nodes c) src;
     Some (proceed k (SnapshotCall src dst (sendSnapshot_args s)) src s [] c) }"
| "thread_step S now k ok (SnapshotCall src dst a) c = do {
     d \<leftarrow> arr_get (nodes c) dst;
     (if ok then do {
        (reply, ts, d') \<leftarrow> L_installSnapshot S now a d;
        Some (proceed k (SnapshotBack src dst a (Some reply)) dst d' (map (spawn dst 0) ts) c) }
      else Some (proceed k (SnapshotBack src dst a None) dst d [] c)) }"
| "thread_step S now k ok (SnapshotBack src dst a rpc) c = do {
     s \<leftarrow> arr_get (nodes c) src;
     s' \<leftarrow> sendSnapshot_reply S now dst a (if ok then rpc else None) s;
     Some (proceed k Finished src s' [] c) }"
| "thread_step S now k ok (BeatThread src) c = do {
     s \<leftarrow> arr_get (nodes c) src;
     (ts, s') \<leftarrow> L_heartBeat now s;
     Some (begin_round src s' ts (c\<lparr>threads := (threads c)[k := Finished]\<rparr>)) }"
| "thread_step S now k ok (PushThread src m) c = do {
     q \<leftarrow> arr_get (chans c) src;
     Some (c\<lparr>chans := (chans c)[src := M_pushMessage m q], threads := (threads c)[k := Finished]\<rparr>) }"
| "thread_step S now k ok Finished c = None"

fun cluster_step :: "serial \<Rightarrow> int \<Rightarrow> action \<Rightarrow> cluster \<Rightarrow> cluster option" where
  "cluster_step S now (Elect i) c = do {
     s \<leftarrow> arr_get (nodes c) i;
     let (ts, s') = L_stand4Election S now s in Some (begin_round i s' ts c) }"
| "cluster_step S now (Tick i) c = do {
     s \<leftarrow> arr_get (nodes c) i;
     (ts, s') \<leftarrow> L_heartBeat now s;
     Some (begin_round i s' ts c) }"
| "cluster_step S now (Execute i opt) c = do {
     s \<leftarrow> arr_get (nodes c) i;
     Some (c\<lparr>nodes := (nodes c)[i := snd (raft_execute S opt s)]\<rparr>) }"
| "cluster_step S now (TakeSnapshot i index shot) c = do {
     s \<leftarrow> arr_get (nodes c) i;
     (b, s') \<leftarrow> raft_persist S index shot s;
     Some (c\<lparr>nodes := (nodes c)[i := s']\<rparr>) }"
| "cluster_step S now (ApplyMsgs i) c = do {
     s \<leftarrow> arr_get (nodes c) i;
     ms \<leftarrow> arr_get (applying c) i;
     (if ms \<noteq> [] then None
      else case M_getApplyMessages s of
        Ret (msgs, s') \<Rightarrow> Some (c\<lparr>nodes := (nodes c)[i := s'], applying := (applying c)[i := msgs]\<rparr>)
      | _ \<Rightarrow> None) }"
| "cluster_step S now (PushMsg i) c = do {
     ms \<leftarrow> arr_get (applying c) i;
     q \<leftarrow> arr_get (chans c) i;
     (case ms of
        [] \<Rightarrow> None
      | m # ms \<Rightarrow> Some (c\<lparr>applying := (applying c)[i := ms], chans := (chans c)[i := sq_push m q]\<rparr>)) }"
| "cluster_step S now (TakeMsg i) c = do {
     q \<leftarrow> arr_get (chans c) i;
     (m, q) \<leftarrow> sq_pop q;
     Some (c\<lparr>chans := (chans c)[i := q]\<rparr>) }"
| "cluster_step S now (RunThread k ok) c = do {
     th \<leftarrow> arr_get (threads c) k;
     thread_step S now k ok th c }"

text \<open>A schedule: the actions in their order, at the clock readings given.\<close>

fun run_schedule :: "serial \<Rightarrow> (int \<times> action) list \<Rightarrow> cluster \<Rightarrow> cluster option" where
  "run_schedule S [] c = Some c"
| "run_schedule S ((now, a) # as) c = do { c \<leftarrow> cluster_step S now a c; run_schedule S as c }"

inductive cstep :: "serial \<Rightarrow> cluster \<Rightarrow> cluster \<Rightarrow> bool" for S where
  cstep: "cluster_step S now a c = Some c' \<Longrightarrow> cstep S c c'"

inductive_cases cstepE: "cstep S c c'"

lemma run_schedule_reaches: "run_schedule S as c = Some c' \<Longrightarrow> (cstep S)\<^sup>*\<^sup>* c c'"
proof (induction as arbitrary: c)
  case (Cons x as)
  obtain now a where x: "x = (now, a)" by fastforce
  with Cons.prems obtain d where d: "cluster_step S now a c = Some d" "run_schedule S as d = Some c'"
    by (auto simp: bind_eq_Some_conv)
  from cstep.intros [OF d(1)] Cons.IH [OF d(2)] show ?case by (rule converse_rtranclp_into_rtranclp)
qed simp

text \<open>An applier that collects and pushes with nothing in between does one round of \<open>L_applierTicker\<close>.\<close>

lemma push_all:
  assumes "i < length (applying c)" "i < length (chans c)" "applying c ! i = msgs"
  shows "run_schedule S (replicate (length msgs) (now, PushMsg i)) c
    = Some (c\<lparr>applying := (applying c)[i := []], chans := (chans c)[i := fold sq_push msgs (chans c ! i)]\<rparr>)"
  using assms
proof (induction msgs arbitrary: c)
  case Nil
  have "(applying c)[i := []] = applying c" using Nil.prems(3) list_update_id [of "applying c" i] by simp
  then show ?case by simp
next
  case (Cons m msgs)
  let ?d = "c\<lparr>applying := (applying c)[i := msgs], chans := (chans c)[i := sq_push m (chans c ! i)]\<rparr>"
  have "cluster_step S now (PushMsg i) c = Some ?d" using Cons.prems by (simp add: arr_get_def)
  moreover have "run_schedule S (replicate (length msgs) (now, PushMsg i)) ?d
    = Some (?d\<lparr>applying := (applying ?d)[i := []], chans := (chans ?d)[i := fold sq_push msgs (chans ?d ! i)]\<rparr>)"
    using Cons.prems by (intro Cons.IH) simp_all
  ultimately show ?case using Cons.prems by simp
qed

lemma applier_round:
  assumes "i < length (nodes c)" "i < length (applying c)" "i < length (chans c)" "applying c ! i = []"
    and "L_applierTicker (nodes c ! i) (chans c ! i) = Ret (q, s)"
  shows "\<exists>k. run_schedule S ((now, ApplyMsgs i) # replicate k (now, PushMsg i)) c
    = Some (c\<lparr>nodes := (nodes c)[i := s], applying := (applying c)[i := []], chans := (chans c)[i := q]\<rparr>)"
proof -
  obtain msgs where m: "M_getApplyMessages (nodes c ! i) = Ret (msgs, s)" "q = fold sq_push msgs (chans c ! i)"
    using assms(5) by (auto simp: L_applierTicker_def and_then_Ret split: if_splits)
  let ?d = "c\<lparr>nodes := (nodes c)[i := s], applying := (applying c)[i := msgs]\<rparr>"
  have "cluster_step S now (ApplyMsgs i) c = Some ?d" using assms m(1) by (simp add: arr_get_def)
  then show ?thesis
    using push_all [of i ?d msgs S now] assms m(2) by (intro exI [of _ "length msgs"]) simp
qed

end
