(* ===== verification/Election.thy ===== *)
theory Election
  imports Cluster RaftStep
begin

text \<open>
  At most one leader per term. Every step of a node keeps its vote within a term
  (\<open>keeps_vote\<close>) and only a counted majority of votes makes it a leader; two majorities share
  a node, and a node has one vote per term.
\<close>

section \<open>Quorums\<close>

locale voting =
  fixes big :: "'v set \<Rightarrow> bool"
  assumes big_inter: "big A \<Longrightarrow> big B \<Longrightarrow> A \<inter> B \<noteq> {}"
begin

lemma unique_winner:
  assumes "\<And>v c c'. (v, c) \<in> B \<Longrightarrow> (v, c') \<in> B \<Longrightarrow> c = c'"
    and "big {v. (v, c) \<in> B}" and "big {v. (v, c') \<in> B}"
  shows "c = c'"
  using big_inter [OF assms(2,3)] assms(1) by blast

end

definition majority :: "nat \<Rightarrow> nat set \<Rightarrow> bool" where
  "majority n A \<longleftrightarrow> A \<subseteq> {..<n} \<and> int (n div 2) + 1 \<le> int (card A)"

interpretation members: voting "majority n" for n
proof
  fix A B :: "nat set"
  assume A: "majority n A" and B: "majority n B"
  then have f: "finite A" "finite B" by (auto simp: majority_def intro: finite_subset)
  show "A \<inter> B \<noteq> {}"
  proof
    assume "A \<inter> B = {}"
    then have "card A + card B = card (A \<union> B)" using f by (simp add: card_Un_disjoint)
    also have "\<dots> \<le> n" using A B card_mono [of "{..<n}" "A \<union> B"] by (simp add: majority_def)
    finally have "card A + card B \<le> n" .
    moreover have "n div 2 + 1 \<le> card A" "n div 2 + 1 \<le> card B" using A B by (auto simp: majority_def)
    moreover have "n < (n div 2 + 1) + (n div 2 + 1)" by presburger
    ultimately show False by linarith
  qed
qed

section \<open>What the steps of a node do to its vote\<close>

definition keeps_vote :: "raft_state \<Rightarrow> raft_state \<Rightarrow> bool" where
  "keeps_vote s t \<longleftrightarrow> cur_term s \<le> cur_term t
     \<and> (cur_term t = cur_term s \<and> vote4 s \<noteq> - 1 \<longrightarrow> vote4 t = vote4 s)
     \<and> me t = me s \<and> helpers_size t = helpers_size s"

definition no_promotion :: "raft_state \<Rightarrow> raft_state \<Rightarrow> bool" where
  "no_promotion s t \<longleftrightarrow> (identity t = LEADER \<longrightarrow> identity s = LEADER \<and> cur_term t = cur_term s)"

lemma put_entry_fields:
  "put_entry s e = Ret t \<Longrightarrow> cur_term t = cur_term s \<and> vote4 t = vote4 s \<and> me t = me s
     \<and> helpers_size t = helpers_size s \<and> identity t = identity s \<and> pstr t = pstr s"
  by (auto simp: put_entry_def Let_def and_then_Ret of_opt_def split: if_splits option.splits)

lemma put_entries_fields:
  "put_entries es s = Ret t \<Longrightarrow> cur_term t = cur_term s \<and> vote4 t = vote4 s \<and> me t = me s
     \<and> helpers_size t = helpers_size s \<and> identity t = identity s \<and> pstr t = pstr s"
  by (induction es arbitrary: s) (auto simp: and_then_Ret dest!: put_entry_fields)

lemma getApply_loop_fields:
  "getApply_loop s m = Some (m', t) \<Longrightarrow> cur_term t = cur_term s \<and> vote4 t = vote4 s \<and> me t = me s
     \<and> helpers_size t = helpers_size s \<and> identity t = identity s \<and> pstr t = pstr s"
proof (induction s m rule: getApply_loop.induct)
  case (1 s m)
  show ?case
  proof (cases "appliedIndex s < commitIndex s")
    case True
    let ?s = "s\<lparr>appliedIndex := appliedIndex s + 1\<rparr>"
    obtain e where e: "arr_geti (logs ?s) (M_getSlicesIndexFromLogIndex ?s (appliedIndex ?s)) = Some e"
      using 1(2) True by (auto simp: getApply_loop.simps [of s m] bind_eq_Some_conv Let_def)
    with 1(2) True have "getApply_loop ?s (m @ [command_message True (word_of_int (appliedIndex ?s)) (entry_command e)])
        = Some (m', t)" by (simp add: getApply_loop.simps [of s m] Let_def)
    from 1(1) [OF True refl e this] show ?thesis by simp
  qed (use 1(2) in \<open>simp add: getApply_loop.simps [of s m]\<close>)
qed

lemmas vote_defs = keeps_vote_def no_promotion_def

lemma stand_vote:
  assumes "L_stand4Election S now s = (ts, t)"
  shows "keeps_vote s t" "no_promotion s t"
    "identity s \<noteq> LEADER \<Longrightarrow> cur_term t = cur_term s + 1 \<and> vote4 t = me s"
  using assms by (auto simp: vote_defs L_stand4Election_def Let_def node_simps split: if_splits)

lemma heartBeat_vote: "L_heartBeat now s = Some (ts, t) \<Longrightarrow> keeps_vote s t \<and> no_promotion s t"
  by (auto simp: vote_defs L_heartBeat_def bind_eq_Some_conv split: if_splits)

lemma execute_vote: "keeps_vote s (snd (raft_execute S c s)) \<and> no_promotion s (snd (raft_execute S c s))"
  by (simp add: vote_defs raft_execute_def Let_def node_simps)

lemma persist_vote: "raft_persist S i shot s = Some (b, t) \<Longrightarrow> keeps_vote s t \<and> no_promotion s t"
  by (auto simp: vote_defs raft_persist_def Let_def bind_eq_Some_conv split: if_splits)

lemma applier_vote: "M_getApplyMessages s = Ret (msgs, t) \<Longrightarrow> keeps_vote s t \<and> no_promotion s t"
  by (auto simp: vote_defs M_getApplyMessages_def and_then_Ret of_opt_def
      split: if_splits option.splits dest!: getApply_loop_fields)

lemma requestVote_vote:
  assumes "L_requestVote S now a s = (r, t)"
  shows "keeps_vote s t \<and> no_promotion s t
    \<and> (vr_vote_granted r \<longrightarrow> vr_term r = va_term a \<and> cur_term t = va_term a \<and> vote4 t = va_candidate_id a)"
  using assms
  by (auto simp: vote_defs L_requestVote_def Let_def node_simps vote_reply0_def split: if_splits)

text \<open>What an append call that is not expired leaves behind.\<close>

lemma appendEntries_leaves:
  assumes "L_appendEntries S now a s = Ret (r, t)" "\<not> aa_term a < cur_term s"
  shows "t = M_persist S (followed S now (aa_term a) s)
    \<or> (\<exists>u c. put_entries (aa_entries a) (followed S now (aa_term a) s) = Ret u
      \<and> (t = M_persist S u \<or> t = M_persist S (u\<lparr>commitIndex := c\<rparr>)))"
proof -
  let ?f = "followed S now (aa_term a) s" and ?prev = "aa_prev_log_index a"
  have fold: "(if aa_term a > cur_term s then M_identityChange S FOLLOWER (aa_term a) (- 1) s else s)
     \<lparr>identity := FOLLOWER, lastResetElectionTime := now\<rparr> = ?f" by (simp add: followed_def)
  have L: "L_appendEntries S now a s =
    (if ?prev > M_getLastLogIndex ?f then
       Ret (append_reply0\<lparr>ar_state := CONNECTED, ar_term := cur_term ?f, ar_success := False,
         ar_update_next_index := M_getLastLogIndex ?f + 1\<rparr>, M_persist S ?f)
     else if ?prev < lastSnapshotIndex ?f then
       Ret (append_reply0\<lparr>ar_state := CONNECTED, ar_term := cur_term ?f, ar_success := False,
         ar_update_next_index := lastSnapshotIndex ?f + 1\<rparr>, M_persist S ?f)
     else and_then (of_opt (M_matchLogTerm ?f ?prev (aa_prev_log_term a))) (\<lambda>m.
       if m \<noteq> MATCH then and_then (of_opt (rollback_loop ?f ?prev ?prev ?prev)) (\<lambda>upd.
         Ret (append_reply0\<lparr>ar_state := CONNECTED, ar_term := cur_term ?f, ar_update_next_index := upd,
           ar_success := False\<rparr>, M_persist S ?f))
       else and_then (put_entries (aa_entries a) ?f) (\<lambda>u.
         let u = (if aa_leader_commit a > commitIndex u
            then u\<lparr>commitIndex := min (aa_leader_commit a) (M_getLastLogIndex u)\<rparr> else u)
         in Ret (append_reply0\<lparr>ar_state := CONNECTED, ar_term := cur_term ?f, ar_success := True\<rparr>,
           M_persist S u))))"
    using assms(2) unfolding L_appendEntries_def fold Let_def by (simp only: if_False)
  show ?thesis
    using assms(1) unfolding L by (auto simp: and_then_Ret Let_def split: if_splits)
qed

lemma appendEntries_vote:
  assumes "L_appendEntries S now a s = Ret (r, t)"
  shows "keeps_vote s t \<and> no_promotion s t"
proof (cases "aa_term a < cur_term s")
  case False
  let ?f = "followed S now (aa_term a) s"
  have "cur_term t = cur_term ?f" "vote4 t = vote4 ?f" "me t = me ?f" "helpers_size t = helpers_size ?f"
    "identity t = identity ?f"
    using appendEntries_leaves [OF assms False] by (auto simp: node_simps dest!: put_entries_fields)
  with False show ?thesis by (simp add: vote_defs)
qed (use assms in \<open>auto simp: L_appendEntries_def vote_defs\<close>)

lemma sendAppendEntries_vote:
  assumes "L_sendAppendEntries S now dst a rpc num s = Ret (b, num', t)"
  shows "keeps_vote s t \<and> no_promotion s t"
proof
  show "keeps_vote s t" using forward_append_reply [OF assms] by (auto simp: keeps_vote_def forward_only_def)
  show "no_promotion s t"
  proof (cases rpc)
    case (Some r)
    show ?thesis
    proof (cases "ar_state r = DISCONNECTED \<or> ar_term r > cur_term s \<or> identity s \<noteq> LEADER")
      case True
      then show ?thesis
        using assms by (auto simp: L_sendAppendEntries_def Some no_promotion_def node_simps split: if_splits)
    next
      case False
      have "cur_term t = cur_term s"
        using assms False
        by (simp add: L_sendAppendEntries_def Some and_then_Ret of_opt_def Let_def arr_set_def arr_get_def
            split: if_splits) auto
      with False show ?thesis by (simp add: no_promotion_def)
    qed
  qed (use assms in \<open>simp add: L_sendAppendEntries_def no_promotion_def\<close>)
qed

lemma installSnapshot_vote:
  "L_installSnapshot S now a s = Some (r, ts, t) \<Longrightarrow> keeps_vote s t \<and> no_promotion s t"
  by (auto simp: vote_defs L_installSnapshot_def Let_def node_simps bind_eq_Some_conv split: if_splits)

lemma sendSnapshot_vote:
  "sendSnapshot_reply S now dst a rpc s = Some t \<Longrightarrow> keeps_vote s t \<and> no_promotion s t"
  by (auto simp: vote_defs sendSnapshot_reply_def node_simps bind_eq_Some_conv split: option.splits if_splits)

lemma sendRequestVote_vote:
  assumes "L_sendRequestVote S dst a rpc num s = Some (b, num', ts, t)"
  shows "keeps_vote s t"
    and "num' = num \<and> no_promotion s t \<or>
      (\<exists>r. rpc = Some r \<and> vr_vote_granted r \<and> vr_term r = cur_term s \<and> cur_term t = cur_term s
        \<and> (num' = num + 1 \<or> num' = 0) \<and> (no_promotion s t \<or> over_half s \<le> num + 1))"
    and "ts = [] \<or> ts = [HeartBeat]"
  using assms
  by (auto simp: vote_defs L_sendRequestVote_def node_simps Let_def bind_eq_Some_conv
      split: option.splits if_splits)

end
