(* ===== verification/ElectionSafety.thy ===== *)
theory ElectionSafety
  imports Election
begin

text \<open>
  The invariant behind election safety. \<open>B\<close> is the set of all votes \<open>(voter, term, candidate)\<close>
  any state of the run has shown; the counter of a voting round never exceeds the votes
  that members whose call is over have given to its candidate.
\<close>

section \<open>Votes\<close>

type_synonym ballots = "(nat \<times> int \<times> int) set"

definition votes_of :: "cluster \<Rightarrow> ballots" where
  "votes_of c = {(j, t, v). j < length (nodes c) \<and> t = cur_term (nodes c ! j)
     \<and> v = vote4 (nodes c ! j) \<and> v \<noteq> - 1}"

fun vote_thread :: "thread \<Rightarrow> (nat \<times> nat \<times> vote_args \<times> nat \<times> vote_reply option) option" where
  "vote_thread (VoteCall src dst a r) = Some (src, dst, a, r, None)"
| "vote_thread (VoteBack src dst a r rpc) = Some (src, dst, a, r, rpc)"
| "vote_thread _ = None"

definition at :: "thread list \<Rightarrow> nat \<Rightarrow> nat \<Rightarrow> nat \<Rightarrow> vote_args \<Rightarrow> nat \<Rightarrow> vote_reply option \<Rightarrow> bool" where
  "at T k src dst a r rpc \<longleftrightarrow> k < length T \<and> vote_thread (T ! k) = Some (src, dst, a, r, rpc)"

definition pending :: "thread list \<Rightarrow> nat \<Rightarrow> nat \<Rightarrow> bool" where
  "pending T r j \<longleftrightarrow> (\<exists>k src a rpc. at T k src j a r rpc)"

definition counted :: "nat \<Rightarrow> ballots \<Rightarrow> thread list \<Rightarrow> nat \<Rightarrow> nat \<Rightarrow> int \<Rightarrow> nat set" where
  "counted n B T r src t = {j. j < n \<and> (j, t, int src) \<in> B \<and> \<not> pending T r j}"

section \<open>The invariant\<close>

definition nodes_ok :: "nat \<Rightarrow> ballots \<Rightarrow> raft_state list \<Rightarrow> bool" where
  "nodes_ok n B N \<longleftrightarrow> length N = n \<and> (\<forall>i < n. me (N ! i) = int i \<and> helpers_size (N ! i) = n)
     \<and> (\<forall>j t v. (j, t, v) \<in> B \<longrightarrow> j < n \<and> v \<noteq> - 1 \<and> t \<le> cur_term (N ! j) \<and> (t = cur_term (N ! j) \<longrightarrow> vote4 (N ! j) = v))
     \<and> (\<forall>j < n. vote4 (N ! j) \<noteq> - 1 \<longrightarrow> (j, cur_term (N ! j), vote4 (N ! j)) \<in> B)"

definition one_vote :: "ballots \<Rightarrow> bool" where
  "one_vote B \<longleftrightarrow> (\<forall>j t v v'. (j, t, v) \<in> B \<and> (j, t, v') \<in> B \<longrightarrow> v = v')"

definition leaders_ok :: "nat \<Rightarrow> ballots \<Rightarrow> raft_state list \<Rightarrow> bool" where
  "leaders_ok n B N \<longleftrightarrow> (\<forall>i < n. identity (N ! i) = LEADER \<longrightarrow>
     majority n {j. j < n \<and> (j, cur_term (N ! i), int i) \<in> B})"

definition slot_ok ::
  "nat \<Rightarrow> ballots \<Rightarrow> thread list \<Rightarrow> (nat \<Rightarrow> int) \<Rightarrow> nat \<Rightarrow> nat \<Rightarrow> nat \<Rightarrow> nat \<Rightarrow> vote_args \<Rightarrow> nat
    \<Rightarrow> vote_reply option \<Rightarrow> bool" where
  "slot_ok n B T num rs k src dst a r rpc \<longleftrightarrow>
     (src < n \<and> dst < n \<and> src \<noteq> dst \<and> r < rs \<and> va_candidate_id a = int src)
     \<and> (\<forall>y. rpc = Some y \<and> vr_vote_granted y \<longrightarrow> vr_term y = va_term a \<and> (dst, va_term a, int src) \<in> B)
     \<and> num r \<le> int (card (counted n B T r src (va_term a)))
     \<and> (\<forall>k' src' dst' a' rpc'. at T k' src' dst' a' r rpc' \<longrightarrow>
          src' = src \<and> va_term a' = va_term a \<and> (dst' = dst \<longrightarrow> k' = k))"

definition rounds_ok :: "nat \<Rightarrow> ballots \<Rightarrow> thread list \<Rightarrow> (nat \<Rightarrow> int) \<Rightarrow> nat \<Rightarrow> bool" where
  "rounds_ok n B T num rs \<longleftrightarrow>
     (\<forall>k src dst a r rpc. at T k src dst a r rpc \<longrightarrow> slot_ok n B T num rs k src dst a r rpc)"

lemma rounds_okD: "rounds_ok n B T num rs \<Longrightarrow> at T k src dst a r rpc \<Longrightarrow> slot_ok n B T num rs k src dst a r rpc"
  by (simp add: rounds_ok_def)

lemma slot_okD:
  assumes "slot_ok n B T num rs k src dst a r rpc"
  shows "src < n" "dst < n" "src \<noteq> dst" "r < rs" "va_candidate_id a = int src"
    "\<And>y. rpc = Some y \<Longrightarrow> vr_vote_granted y \<Longrightarrow> vr_term y = va_term a \<and> (dst, va_term a, int src) \<in> B"
    "num r \<le> int (card (counted n B T r src (va_term a)))"
    "\<And>k' src' dst' a' rpc'. at T k' src' dst' a' r rpc' \<Longrightarrow>
       src' = src \<and> va_term a' = va_term a \<and> (dst' = dst \<longrightarrow> k' = k)"
  using assms unfolding slot_ok_def by blast+

lemma slot_okI:
  assumes "src < n" "dst < n" "src \<noteq> dst" "r < rs" "va_candidate_id a = int src"
    "\<And>y. rpc = Some y \<Longrightarrow> vr_vote_granted y \<Longrightarrow> vr_term y = va_term a \<and> (dst, va_term a, int src) \<in> B"
    "num r \<le> int (card (counted n B T r src (va_term a)))"
    "\<And>k' src' dst' a' rpc'. at T k' src' dst' a' r rpc' \<Longrightarrow>
       src' = src \<and> va_term a' = va_term a \<and> (dst' = dst \<longrightarrow> k' = k)"
  shows "slot_ok n B T num rs k src dst a r rpc"
  using assms unfolding slot_ok_def by blast

definition election_inv :: "nat \<Rightarrow> ballots \<times> cluster \<Rightarrow> bool" where
  "election_inv n S = (case S of (B, c) \<Rightarrow> nodes_ok n B (nodes c) \<and> one_vote B \<and> leaders_ok n B (nodes c)
     \<and> rounds_ok n B (threads c) (voteNum c) (rounds c))"

lemma finite_counted [simp]: "finite (counted n B T r src t)"
  by (rule finite_subset [of _ "{..<n}"]) (auto simp: counted_def)

lemma counted_mono:
  assumes "B \<subseteq> B'" "\<And>j. pending T' r j \<Longrightarrow> pending T r j"
  shows "card (counted n B T r src t) \<le> card (counted n B' T' r src t)"
  using assms by (intro card_mono) (auto simp: counted_def)

section \<open>Leaders are unique\<close>

lemma election_inv_unique:
  assumes "election_inv n (B, c)" "i < n" "j < n" "identity (nodes c ! i) = LEADER"
    "identity (nodes c ! j) = LEADER" "cur_term (nodes c ! i) = cur_term (nodes c ! j)"
  shows "i = j"
proof -
  let ?t = "cur_term (nodes c ! i)"
  let ?V = "{(v, x). v < n \<and> (v, ?t, x) \<in> B}"
  have one: "(v, x) \<in> ?V \<Longrightarrow> (v, x') \<in> ?V \<Longrightarrow> x = x'" for v x x'
    using assms(1) by (auto simp: election_inv_def one_vote_def)
  have "majority n {v. (v, int i) \<in> ?V}" "majority n {v. (v, int j) \<in> ?V}"
    using assms by (auto simp: election_inv_def leaders_ok_def)
  from members.unique_winner [of ?V, OF one this] show ?thesis by simp
qed

section \<open>Moving one node\<close>

lemma votes_of_update:
  assumes "nodes c' = (nodes c)[i := t]" "i < length (nodes c)"
  shows "votes_of c' \<subseteq> votes_of c \<union> {(i, cur_term t, vote4 t)}"
    and "vote4 t \<noteq> - 1 \<Longrightarrow> (i, cur_term t, vote4 t) \<in> votes_of c'"
  using assms by (auto simp: votes_of_def nth_list_update split: if_splits)

lemma nodes_ok_update:
  assumes "nodes_ok n B (nodes c)" "one_vote B" "i < n" "keeps_vote (nodes c ! i) t"
    "nodes c' = (nodes c)[i := t]"
  shows "nodes_ok n (B \<union> votes_of c') (nodes c') \<and> one_vote (B \<union> votes_of c')"
proof -
  let ?B = "B \<union> votes_of c'" and ?s = "nodes c ! i"
  have len: "length (nodes c) = n" using assms(1) by (simp add: nodes_ok_def)
  have upd: "nodes c' ! j = (if j = i then t else nodes c ! j)" if "j < n" for j
    using that len assms(3,5) by (simp add: nth_list_update)
  have old: "j < n \<and> v \<noteq> - 1 \<and> u \<le> cur_term (nodes c' ! j) \<and> (u = cur_term (nodes c' ! j) \<longrightarrow> vote4 (nodes c' ! j) = v)"
    if "(j, u, v) \<in> B" for j u v
  proof -
    have j: "j < n" "v \<noteq> - 1" "u \<le> cur_term (nodes c ! j)" "u = cur_term (nodes c ! j) \<longrightarrow> vote4 (nodes c ! j) = v"
      using assms(1) that unfolding nodes_ok_def by blast+
    show ?thesis
    proof (cases "j = i")
      case True
      have k: "cur_term ?s \<le> cur_term t" "cur_term t = cur_term ?s \<and> vote4 ?s \<noteq> - 1 \<longrightarrow> vote4 t = vote4 ?s"
        using assms(4) by (auto simp: keeps_vote_def)
      have "vote4 t = v" if "u = cur_term t"
      proof -
        have "cur_term t = cur_term ?s" using that j(3) k(1) True by simp
        then show ?thesis using that j(2,4) k(2) True by simp
      qed
      then show ?thesis using True j k(1) upd [OF j(1)] by simp
    qed (use j upd [OF j(1)] in simp)
  qed
  have new: "j < n \<and> v \<noteq> - 1 \<and> u = cur_term (nodes c' ! j) \<and> v = vote4 (nodes c' ! j)" if "(j, u, v) \<in> votes_of c'" for j u v
    using that len assms(5) by (auto simp: votes_of_def)
  have both: "j < n \<and> v \<noteq> - 1 \<and> u \<le> cur_term (nodes c' ! j) \<and> (u = cur_term (nodes c' ! j) \<longrightarrow> vote4 (nodes c' ! j) = v)"
    if "(j, u, v) \<in> ?B" for j u v using that old [of j u v] new [of j u v] by auto
  have "one_vote ?B" unfolding one_vote_def
  proof (intro allI impI)
    fix j u v v' assume a: "(j, u, v) \<in> ?B \<and> (j, u, v') \<in> ?B"
    show "v = v'"
    proof (cases "u = cur_term (nodes c' ! j)")
      case True
      then show ?thesis using both [of j u v] both [of j u v'] a by auto
    next
      case False
      then have "(j, u, v) \<in> B" "(j, u, v') \<in> B" using a new by blast+
      then show ?thesis using assms(2) by (auto simp: one_vote_def)
    qed
  qed
  moreover have "\<forall>j < n. me (nodes c' ! j) = int j \<and> helpers_size (nodes c' ! j) = n"
    using upd assms(1,3,4) by (auto simp: nodes_ok_def keeps_vote_def)
  moreover have "\<forall>j < n. vote4 (nodes c' ! j) \<noteq> - 1 \<longrightarrow> (j, cur_term (nodes c' ! j), vote4 (nodes c' ! j)) \<in> ?B"
    using len assms(5) by (auto simp: votes_of_def)
  moreover have "length (nodes c') = n" using len assms(5) by simp
  ultimately show ?thesis using both by (simp add: nodes_ok_def)
qed

lemma leaders_ok_update:
  assumes "leaders_ok n B (nodes c)" "nodes c' = (nodes c)[i := t]" "length (nodes c) = n" "i < n"
    and "identity t = LEADER \<Longrightarrow> majority n {j. j < n \<and> (j, cur_term t, int i) \<in> B \<union> votes_of c'}"
  shows "leaders_ok n (B \<union> votes_of c') (nodes c')"
proof -
  have up: "majority n {j. j < n \<and> (j, u, v) \<in> B \<union> votes_of c'}" if "majority n {j. j < n \<and> (j, u, v) \<in> B}" for u v
  proof -
    have "card {j. j < n \<and> (j, u, v) \<in> B} \<le> card {j. j < n \<and> (j, u, v) \<in> B \<union> votes_of c'}"
      by (intro card_mono) auto
    then show ?thesis using that by (auto simp: majority_def)
  qed
  show ?thesis
    using assms up by (auto simp: leaders_ok_def nth_list_update)
qed

lemma no_promotion_majority:
  assumes "leaders_ok n B N" "i < n" "no_promotion (N ! i) t" "identity t = LEADER" "B \<subseteq> B'"
  shows "majority n {j. j < n \<and> (j, cur_term t, int i) \<in> B'}"
proof -
  have "majority n {j. j < n \<and> (j, cur_term t, int i) \<in> B}"
    using assms by (auto simp: leaders_ok_def no_promotion_def)
  moreover have "card {j. j < n \<and> (j, cur_term t, int i) \<in> B} \<le> card {j. j < n \<and> (j, cur_term t, int i) \<in> B'}"
    using assms(5) by (intro card_mono) auto
  ultimately show ?thesis by (auto simp: majority_def)
qed

section \<open>Moving the threads\<close>

text \<open>No new voting thread, and none changes.\<close>

definition fewer :: "thread list \<Rightarrow> thread list \<Rightarrow> bool" where
  "fewer T' T \<longleftrightarrow> (\<forall>k src dst a r rpc. at T' k src dst a r rpc \<longrightarrow> at T k src dst a r rpc)"

lemma rounds_ok_fewer:
  assumes "rounds_ok n B T num rs" "fewer T' T" "B \<subseteq> B'" "rs \<le> rs'" "\<And>r. r < rs \<Longrightarrow> num' r = num r"
  shows "rounds_ok n B' T' num' rs'"
  unfolding rounds_ok_def
proof (intro allI impI)
  fix k src dst a r rpc assume "at T' k src dst a r rpc"
  then have k: "at T k src dst a r rpc" using assms(2) by (simp add: fewer_def)
  note K = slot_okD [OF rounds_okD [OF assms(1) k]]
  have "pending T' r j \<Longrightarrow> pending T r j" for j using assms(2) unfolding pending_def fewer_def by blast
  from counted_mono [OF assms(3) this]
  have "card (counted n B T r src (va_term a)) \<le> card (counted n B' T' r src (va_term a))" .
  then have "num' r \<le> int (card (counted n B' T' r src (va_term a)))" using K(4,7) assms(5) by fastforce
  moreover have "\<And>k' src' dst' a' rpc'. at T' k' src' dst' a' r rpc' \<Longrightarrow>
       src' = src \<and> va_term a' = va_term a \<and> (dst' = dst \<longrightarrow> k' = k)"
    using K(8) assms(2) unfolding fewer_def by blast
  moreover have "vr_term y = va_term a \<and> (dst, va_term a, int src) \<in> B'"
    if "rpc = Some y" "vr_vote_granted y" for y using K(6) [OF that] assms(3) by blast
  moreover have "r < rs'" using K(4) assms(4) by simp
  ultimately show "slot_ok n B' T' num' rs' k src dst a r rpc" using K(1,2,3,5) by (intro slot_okI)
qed

text \<open>A new round of candidate \<open>i\<close>, calling \<open>js\<close>.\<close>

lemma at_round:
  "at (T @ map (\<lambda>j. VoteCall i j va rs) js) k src dst a r rpc \<longleftrightarrow> at T k src dst a r rpc \<or>
    (length T \<le> k \<and> k - length T < length js \<and> src = i \<and> dst = js ! (k - length T) \<and> a = va \<and> r = rs \<and> rpc = None)"
  by (auto simp: at_def nth_append)

lemma rounds_ok_new:
  assumes "rounds_ok n B T num rs" "B \<subseteq> B'" "distinct js" "\<And>j. j \<in> set js \<Longrightarrow> j < n \<and> j \<noteq> i" "i < n"
    "va_candidate_id va = int i" "(i, va_term va, int i) \<in> B'"
  shows "rounds_ok n B' (T @ map (\<lambda>j. VoteCall i j va rs) js) (num(rs := 1)) (Suc rs)" (is "rounds_ok n B' ?T _ _")
  unfolding rounds_ok_def
proof (intro allI impI)
  fix k src dst a r rpc assume k: "at ?T k src dst a r rpc"
  have old: "at T k src dst a r rpc \<Longrightarrow> r < rs" for k src dst a r rpc
    using slot_okD(4) [OF rounds_okD [OF assms(1)]] .
  show "slot_ok n B' ?T (num(rs := 1)) (Suc rs) k src dst a r rpc"
  proof (cases "r = rs")
    case False
    then have same: "at ?T k src dst a r rpc = at T k src dst a r rpc" for k src dst a rpc
      by (simp add: at_round)
    note K = slot_okD [OF rounds_okD [OF assms(1) k [unfolded same]]]
    have "pending ?T r j \<Longrightarrow> pending T r j" for j by (simp add: pending_def same)
    from counted_mono [OF assms(2) this]
    have "card (counted n B T r src (va_term a)) \<le> card (counted n B' ?T r src (va_term a))" .
    then have "(num(rs := 1)) r \<le> int (card (counted n B' ?T r src (va_term a)))" using K(7) False by simp
    moreover have "vr_term y = va_term a \<and> (dst, va_term a, int src) \<in> B'"
      if "rpc = Some y" "vr_vote_granted y" for y using K(6) [OF that] assms(2) by blast
    moreover have "r < Suc rs" using K(4) by simp
    ultimately show ?thesis using K(1,2,3,5) K(8) [folded same] by (intro slot_okI)
  next
    case True
    have new: "length T \<le> k' \<and> k' - length T < length js \<and> src' = i \<and> dst' = js ! (k' - length T) \<and> a' = va \<and> rpc' = None"
      if "at ?T k' src' dst' a' r rpc'" for k' src' dst' a' rpc'
      using that [unfolded at_round] old [of k' src' dst' a' r rpc'] True by auto
    have "\<not> pending ?T rs i"
      using new assms(4) nth_mem True unfolding pending_def by metis
    then have "i \<in> counted n B' ?T rs i (va_term va)" using assms(5,7) by (simp add: counted_def)
    then have "1 \<le> card (counted n B' ?T rs i (va_term va))" by (simp add: Suc_le_eq card_gt_0_iff) blast
    then have "(num(rs := 1)) r \<le> int (card (counted n B' ?T r src (va_term a)))"
      using new [OF k] True by simp
    moreover have "src' = src \<and> va_term a' = va_term a \<and> (dst' = dst \<longrightarrow> k' = k)"
      if "at ?T k' src' dst' a' r rpc'" for k' src' dst' a' rpc'
      using new [OF that] new [OF k] nth_eq_iff_index_eq [OF assms(3), of "k' - length T" "k - length T"] by auto
    moreover have "dst < n" "dst \<noteq> i" using new [OF k] assms(4) [OF nth_mem] by auto
    ultimately show ?thesis
      using new [OF k] assms(5,6) True by (intro slot_okI) auto
  qed
qed

text \<open>A call is delivered, or fails.\<close>

lemma rounds_ok_deliver:
  assumes "rounds_ok n B T num rs" "k < length T" "T ! k = VoteCall src dst a r" "B \<subseteq> B'"
    and "\<And>y. rpc = Some y \<Longrightarrow> vr_vote_granted y \<Longrightarrow> vr_term y = va_term a \<and> (dst, va_term a, int src) \<in> B'"
  shows "rounds_ok n B' (T[k := VoteBack src dst a r rpc]) num rs" (is "rounds_ok n B' ?T _ _")
  unfolding rounds_ok_def
proof (intro allI impI)
  fix k0 src0 dst0 a0 r0 rpc0 assume k0: "at ?T k0 src0 dst0 a0 r0 rpc0"
  have mine: "at T k src dst a r None" using assms(2,3) by (simp add: at_def)
  have was: "\<exists>rp. at T k' src' dst' a' r' rp \<and> (k' \<noteq> k \<longrightarrow> rp = rpc') \<and> (k' = k \<longrightarrow> src' = src \<and> dst' = dst \<and> a' = a \<and> rpc' = rpc)"
    if "at ?T k' src' dst' a' r' rpc'" for k' src' dst' a' r' rpc'
    using that assms(2,3) by (cases "k' = k") (auto simp: at_def nth_list_update)
  obtain rp where rp: "at T k0 src0 dst0 a0 r0 rp" "k0 \<noteq> k \<longrightarrow> rp = rpc0"
    "k0 = k \<longrightarrow> src0 = src \<and> dst0 = dst \<and> a0 = a \<and> rpc0 = rpc" using was [OF k0] by blast
  note K = slot_okD [OF rounds_okD [OF assms(1) rp(1)]]
  have "pending ?T r0 j \<Longrightarrow> pending T r0 j" for j using was unfolding pending_def by blast
  from counted_mono [OF assms(4) this]
  have "card (counted n B T r0 src0 (va_term a0)) \<le> card (counted n B' ?T r0 src0 (va_term a0))" .
  then have "num r0 \<le> int (card (counted n B' ?T r0 src0 (va_term a0)))" using K(7) by simp
  moreover have "vr_term y = va_term a0 \<and> (dst0, va_term a0, int src0) \<in> B'"
    if "rpc0 = Some y" "vr_vote_granted y" for y
    using that K(6) [of y] rp(2,3) assms(4,5) by (cases "k0 = k") auto
  moreover have "src' = src0 \<and> va_term a' = va_term a0 \<and> (dst' = dst0 \<longrightarrow> k' = k0)"
    if "at ?T k' src' dst' a' r0 rpc'" for k' src' dst' a' rpc' using was [OF that] K(8) by blast
  ultimately show "slot_ok n B' ?T num rs k0 src0 dst0 a0 r0 rpc0" using K(1-5) by (intro slot_okI)
qed

text \<open>A granted vote is counted.\<close>

lemma counted_grows:
  assumes "rounds_ok n B T num rs" "at T k src dst a r (Some y)" "vr_vote_granted y" "B \<subseteq> B'"
    "fewer T' T" "\<And>rp. \<not> at T' k src dst a r rp"
  shows "num r + 1 \<le> int (card (counted n B' T' r src (va_term a)))"
proof -
  note K = slot_okD [OF rounds_okD [OF assms(1,2)]]
  have p: "pending T r dst" using assms(2) by (auto simp: pending_def)
  have np: "\<not> pending T' r dst"
  proof
    assume "pending T' r dst"
    then obtain k' src' a' rp where h: "at T' k' src' dst a' r rp" by (auto simp: pending_def)
    then have h': "at T k' src' dst a' r rp" using assms(5) by (simp add: fewer_def)
    then have "k' = k" using K(8) by blast
    with h h' assms(2,6) show False by (auto simp: at_def)
  qed
  have sub: "insert dst (counted n B T r src (va_term a)) \<subseteq> counted n B' T' r src (va_term a)"
  proof
    fix j assume "j \<in> insert dst (counted n B T r src (va_term a))"
    then consider "j = dst" | "j \<in> counted n B T r src (va_term a)" by blast
    then show "j \<in> counted n B' T' r src (va_term a)"
    proof cases
      case 1
      then show ?thesis using K(2,6) assms(3,4) np by (auto simp: counted_def)
    next
      case 2
      then show ?thesis using assms(4,5) unfolding counted_def pending_def fewer_def by blast
    qed
  qed
  have "dst \<notin> counted n B T r src (va_term a)" using p by (simp add: counted_def)
  then have "Suc (card (counted n B T r src (va_term a))) \<le> card (counted n B' T' r src (va_term a))"
    using card_mono [OF _ sub] by simp
  then show ?thesis using K(7) by simp
qed

lemma rounds_ok_count:
  assumes "rounds_ok n B T num rs" "at T k src dst a r (Some y)" "vr_vote_granted y" "B \<subseteq> B'"
    "fewer T' T" "\<And>rp. \<not> at T' k src dst a r rp" "m \<le> num r + 1 \<or> m \<le> 0"
  shows "rounds_ok n B' T' (num(r := m)) rs"
  unfolding rounds_ok_def
proof (intro allI impI)
  fix k0 src0 dst0 a0 r0 rpc0 assume k0: "at T' k0 src0 dst0 a0 r0 rpc0"
  have base: "slot_ok n B' T' num rs k0 src0 dst0 a0 r0 rpc0"
    using rounds_okD [OF rounds_ok_fewer [OF assms(1,5,4) order.refl refl] k0] .
  show "slot_ok n B' T' (num(r := m)) rs k0 src0 dst0 a0 r0 rpc0"
  proof (cases "r0 = r")
    case True
    have "at T k0 src0 dst0 a0 r0 rpc0" using k0 assms(5) by (simp add: fewer_def)
    then have "src0 = src" "va_term a0 = va_term a"
      using slot_okD(8) [OF rounds_okD [OF assms(1,2)]] True by blast+
    then have "m \<le> int (card (counted n B' T' r0 src0 (va_term a0)))"
      using counted_grows [OF assms(1-6)] assms(7) True by auto
    then show ?thesis using slot_okD [OF base] True by (intro slot_okI) simp_all
  next
    case False
    then show ?thesis using slot_okD [OF base] by (intro slot_okI) simp_all
  qed
qed

lemma fewer_refl: "fewer T T"
  by (simp add: fewer_def)

lemma fewer_trans: "fewer T'' T' \<Longrightarrow> fewer T' T \<Longrightarrow> fewer T'' T"
  by (simp add: fewer_def)

lemma fewer_append:
  assumes "\<And>th. th \<in> set new \<Longrightarrow> vote_thread th = None"
  shows "fewer (T @ new) T"
proof (unfold fewer_def at_def, intro allI impI)
  fix k src dst a r rpc
  assume k: "k < length (T @ new) \<and> vote_thread ((T @ new) ! k) = Some (src, dst, a, r, rpc)"
  show "k < length T \<and> vote_thread (T ! k) = Some (src, dst, a, r, rpc)"
  proof (cases "k < length T")
    case False
    then have "(T @ new) ! k \<in> set new" using k by (auto simp: nth_append intro: nth_mem)
    then show ?thesis using assms k by fastforce
  qed (use k in \<open>simp add: nth_append\<close>)
qed

lemma fewer_update: "vote_thread th = None \<Longrightarrow> fewer (T[k := th]) T"
proof (unfold fewer_def at_def, intro allI impI)
  fix k' src dst a r rpc
  assume "vote_thread th = None" "k' < length (T[k := th]) \<and> vote_thread (T[k := th] ! k') = Some (src, dst, a, r, rpc)"
  then show "k' < length T \<and> vote_thread (T ! k') = Some (src, dst, a, r, rpc)"
    by (cases "k = k'") (auto simp: nth_list_update)
qed

lemma fewer_proceed:
  "vote_thread th = None \<Longrightarrow> (\<And>x. x \<in> set new \<Longrightarrow> vote_thread x = None) \<Longrightarrow> fewer ((T[k := th]) @ new) T"
  by (blast intro: fewer_trans fewer_append fewer_update)

section \<open>Steps\<close>

definition history_step :: "serial \<Rightarrow> ballots \<times> cluster \<Rightarrow> ballots \<times> cluster \<Rightarrow> bool" where
  "history_step S h h' \<longleftrightarrow> cstep S (snd h) (snd h') \<and> fst h' = fst h \<union> votes_of (snd h')"

definition cluster_start :: "serial \<Rightarrow> nat \<Rightarrow> cluster \<Rightarrow> bool" where
  "cluster_start S n c \<longleftrightarrow> length (nodes c) = n \<and> (\<forall>i < n. node_start S n i (nodes c ! i))
     \<and> applying c = replicate n [] \<and> chans c = replicate n [] \<and> threads c = []"

definition history_start :: "serial \<Rightarrow> nat \<Rightarrow> ballots \<times> cluster \<Rightarrow> bool" where
  "history_start S n h \<longleftrightarrow> fst h = {} \<and> cluster_start S n (snd h)"

lemma history_start_inv: "history_start S n h \<Longrightarrow> election_inv n h"
  by (auto simp: history_start_def cluster_start_def election_inv_def nodes_ok_def one_vote_def leaders_ok_def
      rounds_ok_def at_def node_start_fields)

lemma quiet_step:
  assumes "election_inv n (B, c)" "i < n" "keeps_vote (nodes c ! i) t" "no_promotion (nodes c ! i) t"
    "nodes c' = (nodes c)[i := t]" "fewer (threads c') (threads c)" "rounds c \<le> rounds c'"
    "\<And>r. r < rounds c \<Longrightarrow> voteNum c' r = voteNum c r"
  shows "election_inv n (B \<union> votes_of c', c')"
proof -
  have I: "nodes_ok n B (nodes c)" "one_vote B" "leaders_ok n B (nodes c)"
    "rounds_ok n B (threads c) (voteNum c) (rounds c)" using assms(1) by (auto simp: election_inv_def)
  have "leaders_ok n (B \<union> votes_of c') (nodes c')"
    using I(1,3) assms(2,4,5) no_promotion_majority [OF I(3) assms(2,4), of "B \<union> votes_of c'"]
    by (intro leaders_ok_update) (auto simp: nodes_ok_def)
  moreover have "rounds_ok n (B \<union> votes_of c') (threads c') (voteNum c') (rounds c')"
    by (rule rounds_ok_fewer [OF I(4) assms(6) _ assms(7,8)]) auto
  ultimately show ?thesis
    using nodes_ok_update [OF I(1,2) assms(2,3,5)] by (simp add: election_inv_def)
qed

lemma inv_length: "election_inv n (B, c) \<Longrightarrow> length (nodes c) = n"
  by (simp add: election_inv_def nodes_ok_def)

text \<open>An election timeout starts a new round.\<close>

lemma elect_step:
  assumes "election_inv n (B, c)" "i < n" "identity (nodes c ! i) \<noteq> LEADER"
    "L_stand4Election S now (nodes c ! i) = (ts, t)" "c' = begin_round i t ts c"
  shows "election_inv n (B \<union> votes_of c', c')"
proof -
  let ?s = "nodes c ! i" and ?T = "threads c" and ?B = "B \<union> votes_of c'"
  have I: "nodes_ok n B (nodes c)" "one_vote B" "leaders_ok n B (nodes c)"
    "rounds_ok n B ?T (voteNum c) (rounds c)" using assms(1) by (auto simp: election_inv_def)
  have me: "me ?s = int i" "helpers_size ?s = n" "length (nodes c) = n"
    using I(1) assms(2) by (auto simp: nodes_ok_def)
  note V = stand_vote [OF assms(4)]
  have t: "cur_term t = cur_term ?s + 1" "vote4 t = int i" "identity t = CANDIDATE"
    using V(3) assms(3,4) me by (auto simp: L_stand4Election_def Let_def node_simps)
  have f: "nodes c' = (nodes c)[i := t]" "rounds c' = Suc (rounds c)" "voteNum c' = (voteNum c)(rounds c := 1)"
    by (simp_all add: assms(5) begin_round_def)
  define js where "js = filter (\<lambda>j. int j \<noteq> me ?s) [0..<n]"
  define va where "va = \<lparr>va_term = cur_term t, va_candidate_id = int i,
    va_last_log_index = M_getLastLogIndex t, va_last_log_term = M_getLastLogTerm t\<rparr>"
  have T: "threads c' = threads c @ map (\<lambda>j. VoteCall i j va (rounds c)) js"
    using assms(3,4) me
    by (auto simp: assms(5) begin_round_def L_stand4Election_def Let_def js_def va_def node_simps
        M_getLastLogIndex_def M_getLastLogTerm_def comp_def)
  have "(i, cur_term t, int i) \<in> ?B"
    using votes_of_update(2) [OF f(1)] assms(2) me(3) t by auto
  then have "rounds_ok n ?B (threads c') (voteNum c') (rounds c')"
    unfolding f T using assms(2) me by (intro rounds_ok_new [OF I(4)]) (auto simp: js_def va_def)
  moreover have "leaders_ok n ?B (nodes c')"
    by (rule leaders_ok_update [OF I(3) f(1) me(3) assms(2)]) (simp add: t)
  ultimately show ?thesis
    using nodes_ok_update [OF I(1,2) assms(2) V(1) f(1)] by (simp add: election_inv_def)
qed

text \<open>A vote request is handled by its addressee.\<close>

lemma deliver_step:
  assumes "election_inv n (B, c)" "k < length (threads c)" "threads c ! k = VoteCall src dst a r"
    "L_requestVote S now a (nodes c ! dst) = (y, t)"
    "c' = proceed k (VoteBack src dst a r (Some y)) dst t [] c"
  shows "election_inv n (B \<union> votes_of c', c')"
proof -
  let ?B = "B \<union> votes_of c'"
  have I: "nodes_ok n B (nodes c)" "one_vote B" "leaders_ok n B (nodes c)"
    "rounds_ok n B (threads c) (voteNum c) (rounds c)" using assms(1) by (auto simp: election_inv_def)
  have "at (threads c) k src dst a r None" using assms(2,3) by (simp add: at_def)
  note K = slot_okD [OF rounds_okD [OF I(4) this]]
  have len: "length (nodes c) = n" by (rule inv_length [OF assms(1)])
  have f: "nodes c' = (nodes c)[dst := t]" "threads c' = (threads c)[k := VoteBack src dst a r (Some y)]"
    "voteNum c' = voteNum c" "rounds c' = rounds c" by (simp_all add: assms(5) proceed_def)
  note V = requestVote_vote [OF assms(4)]
  have "vr_vote_granted y \<Longrightarrow> (dst, va_term a, int src) \<in> ?B"
    using votes_of_update(2) [OF f(1)] len K(2,5) V by auto
  then have "rounds_ok n ?B (threads c') (voteNum c') (rounds c')"
    unfolding f using V by (intro rounds_ok_deliver [OF I(4) assms(2,3)]) auto
  moreover have "leaders_ok n ?B (nodes c')"
    by (rule leaders_ok_update [OF I(3) f(1) len K(2)]) (rule no_promotion_majority [OF I(3) K(2)], use V in auto)
  ultimately show ?thesis
    using nodes_ok_update [OF I(1,2) K(2) _ f(1)] V by (simp add: election_inv_def)
qed

text \<open>The candidate handles a reply.\<close>

lemma reply_step:
  assumes "election_inv n (B, c)" "k < length (threads c)" "threads c ! k = VoteBack src dst a r rpc"
    "L_sendRequestVote S dst a (if ok then rpc else None) (voteNum c r) (nodes c ! src) = Some (b, num, ts, t)"
    "c' = (proceed k Finished src t (map (spawn src r) ts) c)\<lparr>voteNum := (voteNum c)(r := num)\<rparr>"
  shows "election_inv n (B \<union> votes_of c', c')"
proof -
  let ?B = "B \<union> votes_of c'"
  have I: "nodes_ok n B (nodes c)" "one_vote B" "leaders_ok n B (nodes c)"
    "rounds_ok n B (threads c) (voteNum c) (rounds c)" using assms(1) by (auto simp: election_inv_def)
  have at: "at (threads c) k src dst a r rpc" using assms(2,3) by (simp add: at_def)
  note K = slot_okD [OF rounds_okD [OF I(4) at]]
  have len: "length (nodes c) = n" "helpers_size (nodes c ! src) = n"
    using I(1) K(1) by (auto simp: nodes_ok_def)
  have f: "nodes c' = (nodes c)[src := t]" "threads c' = (threads c)[k := Finished] @ map (spawn src r) ts"
    "voteNum c' = (voteNum c)(r := num)" "rounds c' = rounds c" by (simp_all add: assms(5) proceed_def)
  note V = sendRequestVote_vote [OF assms(4)]
  have fw: "fewer (threads c') (threads c)" unfolding f using V(3) by (intro fewer_proceed) auto
  from V(2) consider (quiet) "num = voteNum c r" "no_promotion (nodes c ! src) t"
    | (count) y where "rpc = Some y" "vr_vote_granted y" "vr_term y = cur_term (nodes c ! src)"
      "cur_term t = cur_term (nodes c ! src)" "num = voteNum c r + 1 \<or> num = 0"
      "no_promotion (nodes c ! src) t \<or> over_half (nodes c ! src) \<le> voteNum c r + 1"
    by (auto split: if_splits)
  then show ?thesis
  proof cases
    case quiet
    show ?thesis
      by (rule quiet_step [OF assms(1) K(1) V(1) quiet(2) f(1) fw]) (simp_all add: f quiet)
  next
    case count
    have gone: "\<not> at (threads c') k src dst a r rp" for rp
      using assms(2) by (simp add: at_def f(2) nth_append)
    note at' = at [unfolded count(1)]
    have "rounds_ok n ?B (threads c') (voteNum c') (rounds c')"
      unfolding f(3,4) using count(5)
      by (intro rounds_ok_count [OF I(4) at' count(2) _ fw gone]) auto
    moreover have "leaders_ok n ?B (nodes c')"
    proof (rule leaders_ok_update [OF I(3) f(1) len(1) K(1)])
      assume L: "identity t = LEADER"
      show "majority n {j. j < n \<and> (j, cur_term t, int src) \<in> ?B}"
      proof (cases "no_promotion (nodes c ! src) t")
        case True
        show ?thesis by (rule no_promotion_majority [OF I(3) K(1) True L]) simp
      next
        case False
        have "cur_term t = va_term a" using K(6) [OF count(1,2)] count(3,4) by simp
        then have "counted n ?B (threads c') r src (va_term a) \<subseteq> {j. j < n \<and> (j, cur_term t, int src) \<in> ?B}"
          by (auto simp: counted_def)
        then have "card (counted n ?B (threads c') r src (va_term a)) \<le> card {j. j < n \<and> (j, cur_term t, int src) \<in> ?B}"
          by (intro card_mono) auto
        moreover have "voteNum c r + 1 \<le> int (card (counted n ?B (threads c') r src (va_term a)))"
          by (rule counted_grows [OF I(4) at' count(2) _ fw gone]) auto
        ultimately show ?thesis
          using count(6) False len(2) by (auto simp: majority_def over_half_def drop_bit_eq_div)
      qed
    qed
    ultimately show ?thesis
      using nodes_ok_update [OF I(1,2) K(1) V(1) f(1)] by (simp add: election_inv_def)
  qed
qed

text \<open>A step that leaves the nodes alone.\<close>

lemma idle_step:
  assumes "election_inv n (B, c)" "nodes c' = nodes c" "fewer (threads c') (threads c)"
    "rounds c' = rounds c" "voteNum c' = voteNum c"
  shows "election_inv n (B \<union> votes_of c', c')"
proof -
  have I: "nodes_ok n B (nodes c)" "one_vote B" "leaders_ok n B (nodes c)"
    "rounds_ok n B (threads c) (voteNum c) (rounds c)" using assms(1) by (auto simp: election_inv_def)
  have "votes_of c' \<subseteq> B" using I(1) assms(2) by (auto simp: votes_of_def nodes_ok_def)
  then have "B \<union> votes_of c' = B" by blast
  then show ?thesis
    using I rounds_ok_fewer [OF I(4) assms(3) order.refl order.refl refl] assms(2,4,5)
    by (simp add: election_inv_def)
qed

lemma not_vote_threads: "th \<in> set (map (spawn i r) ts) \<Longrightarrow> \<forall>t \<in> set ts. vote_thread (spawn i r t) = None
    \<Longrightarrow> vote_thread th = None"
  by auto

lemma heartBeat_no_votes:
  assumes "L_heartBeat now s = Some (ts, t)"
  shows "\<forall>x \<in> set ts. vote_thread (spawn i r x) = None"
proof -
  have "heartBeat_loop s js = Some us \<Longrightarrow> \<forall>x \<in> set us. vote_thread (spawn i r x) = None" for js us
  proof (induction js arbitrary: us)
    case (Cons j js)
    have "heartBeat_task s j = Some x \<Longrightarrow> vote_thread (spawn i r x) = None" for x
      by (auto simp: heartBeat_task_def bind_eq_Some_conv split: if_splits)
    with Cons show ?case by (auto simp: bind_eq_Some_conv split: if_splits)
  qed simp
  with assms show ?thesis by (auto simp: L_heartBeat_def bind_eq_Some_conv split: if_splits)
qed

lemma round_quiet:
  assumes "election_inv n (B, c)" "i < n" "keeps_vote (nodes c ! i) t" "no_promotion (nodes c ! i) t"
    "\<forall>x \<in> set ts. vote_thread (spawn i (rounds c) x) = None" "fewer T (threads c)"
    "c' = begin_round i t ts (c\<lparr>threads := T\<rparr>)"
  shows "election_inv n (B \<union> votes_of c', c')"
proof (rule quiet_step [OF assms(1-4)])
  have "fewer (T @ map (spawn i (rounds c)) ts) T" by (rule fewer_append) (use assms(5) in auto)
  then show "fewer (threads c') (threads c)"
    using assms(6) by (auto simp: assms(7) begin_round_def intro: fewer_trans)
qed (simp_all add: assms(7) begin_round_def)

lemma proceed_quiet:
  assumes "election_inv n (B, c)" "i < n" "keeps_vote (nodes c ! i) t \<and> no_promotion (nodes c ! i) t"
    "c' = (proceed k th i t new c)\<lparr>appendNum := z\<rparr>" "vote_thread th = None"
    "\<forall>x \<in> set new. vote_thread x = None"
  shows "election_inv n (B \<union> votes_of c', c')"
  using assms(3,5,6)
  by (intro quiet_step [OF assms(1,2), of t]) (auto simp: assms(4) proceed_def intro: fewer_proceed)

lemma proceed_same: "proceed k th i t new c = (proceed k th i t new c)\<lparr>appendNum := appendNum c\<rparr>"
  by (simp add: proceed_def)

lemma keeps_refl: "keeps_vote s s \<and> no_promotion s s"
  by (simp add: vote_defs)

lemma vote_call_inv:
  assumes "election_inv n (B, c)" "k < length (threads c)" "threads c ! k = VoteCall src dst a r"
    "thread_step S now k ok (VoteCall src dst a r) c = Some c'"
  shows "election_inv n (B \<union> votes_of c', c')"
proof -
  have len: "length (nodes c) = n" by (rule inv_length [OF assms(1)])
  with assms(4) have d: "dst < n" by (auto simp: arr_get_Some bind_eq_Some_conv)
  obtain y t where yt: "L_requestVote S now a (nodes c ! dst) = (y, t)" by fastforce
  show ?thesis
  proof (cases ok)
    case True
    have "c' = proceed k (VoteBack src dst a r (Some y)) dst t [] c"
      using assms(4) True d len yt by (simp add: arr_get_in)
    then show ?thesis by (rule deliver_step [OF assms(1-3) yt])
  next
    case False
    have I: "rounds_ok n B (threads c) (voteNum c) (rounds c)" "nodes_ok n B (nodes c)"
      using assms(1) by (auto simp: election_inv_def)
    have c': "c' = proceed k (VoteBack src dst a r None) dst (nodes c ! dst) [] c"
      using assms(4) False d len by (simp add: arr_get_in)
    then have f: "nodes c' = nodes c" by (simp add: proceed_def)
    have "votes_of c' \<subseteq> B" using I(2) f by (auto simp: votes_of_def nodes_ok_def)
    then have "B \<union> votes_of c' = B" by blast
    moreover have "rounds_ok n B (threads c') (voteNum c') (rounds c')"
      using rounds_ok_deliver [OF I(1) assms(2,3), of B None] c' by (simp add: proceed_def)
    ultimately show ?thesis using assms(1) f by (simp add: election_inv_def)
  qed
qed

lemma vote_back_inv:
  assumes "election_inv n (B, c)" "k < length (threads c)" "threads c ! k = VoteBack src dst a r rpc"
    "thread_step S now k ok (VoteBack src dst a r rpc) c = Some c'"
  shows "election_inv n (B \<union> votes_of c', c')"
proof -
  from assms(4) obtain b num ts t where
    x: "L_sendRequestVote S dst a (if ok then rpc else None) (voteNum c r) (nodes c ! src) = Some (b, num, ts, t)"
    "c' = (proceed k Finished src t (map (spawn src r) ts) c)\<lparr>voteNum := (voteNum c)(r := num)\<rparr>"
    by (auto simp: bind_eq_Some_conv arr_get_Some)
  show ?thesis by (rule reply_step [OF assms(1-3) x])
qed

lemma append_thread_inv:
  assumes "election_inv n (B, c)" "thread_step S now k ok th c = Some c'"
    "th = AppendCall src dst a r \<or> th = AppendBack src dst a r rpc"
  shows "election_inv n (B \<union> votes_of c', c')"
  using assms(3)
proof
  have len: "length (nodes c) = n" by (rule inv_length [OF assms(1)])
  assume th: "th = AppendCall src dst a r"
  with assms(2) len have d: "dst < n" by (auto simp: arr_get_Some bind_eq_Some_conv)
  show ?thesis
  proof (cases ok)
    case True
    with assms(2) th len obtain y t where
      yt: "L_appendEntries S now a (nodes c ! dst) = Ret (y, t)"
      "c' = proceed k (AppendBack src dst a r (Some y)) dst t [] c"
      by (auto simp: arr_get_Some bind_eq_Some_conv split: outcome.splits)
    show ?thesis
      by (rule proceed_quiet [OF assms(1) d appendEntries_vote [OF yt(1)] trans [OF yt(2) proceed_same]]) simp_all
  next
    case False
    with assms(2) th len have c': "c' = proceed k (AppendBack src dst a r None) dst (nodes c ! dst) [] c"
      by (auto simp: arr_get_Some bind_eq_Some_conv)
    show ?thesis by (rule proceed_quiet [OF assms(1) d keeps_refl trans [OF c' proceed_same]]) simp_all
  qed
next
  have len: "length (nodes c) = n" by (rule inv_length [OF assms(1)])
  assume th: "th = AppendBack src dst a r rpc"
  from assms(2) len obtain b num t where x: "src < n"
    "L_sendAppendEntries S now dst a (if ok then rpc else None) (appendNum c r) (nodes c ! src) = Ret (b, num, t)"
    "c' = (proceed k Finished src t [] c)\<lparr>appendNum := (appendNum c)(r := num)\<rparr>"
    unfolding th by (auto simp: bind_eq_Some_conv arr_get_Some split: outcome.splits)
  show ?thesis by (rule proceed_quiet [OF assms(1) x(1) sendAppendEntries_vote [OF x(2)] x(3)]) simp_all
qed

lemma snapshot_call_inv:
  assumes "election_inv n (B, c)" "thread_step S now k ok (SnapshotCall src dst a) c = Some c'"
  shows "election_inv n (B \<union> votes_of c', c')"
proof -
  have len: "length (nodes c) = n" by (rule inv_length [OF assms(1)])
  with assms(2) have d: "dst < n" by (auto simp: arr_get_Some bind_eq_Some_conv)
  show ?thesis
  proof (cases ok)
    case True
    with assms(2) len obtain y ts t where
      yt: "L_installSnapshot S now a (nodes c ! dst) = Some (y, ts, t)"
      "c' = proceed k (SnapshotBack src dst a (Some y)) dst t (map (spawn dst 0) ts) c"
      by (auto simp: arr_get_Some bind_eq_Some_conv)
    have "\<forall>x \<in> set ts. vote_thread (spawn dst 0 x) = None"
      using yt(1) by (auto simp: L_installSnapshot_def Let_def bind_eq_Some_conv split: if_splits)
    then show ?thesis
      by (intro proceed_quiet [OF assms(1) d installSnapshot_vote [OF yt(1)] trans [OF yt(2) proceed_same]]) auto
  next
    case False
    with assms(2) len have c': "c' = proceed k (SnapshotBack src dst a None) dst (nodes c ! dst) [] c"
      by (auto simp: arr_get_Some bind_eq_Some_conv)
    show ?thesis by (rule proceed_quiet [OF assms(1) d keeps_refl trans [OF c' proceed_same]]) simp_all
  qed
qed

lemma other_thread_inv:
  assumes "election_inv n (B, c)" "thread_step S now k ok th c = Some c'"
    "th = SnapshotStart src dst \<or> th = SnapshotBack src dst a rpc \<or> th = BeatThread src \<or> th = PushThread src m"
  shows "election_inv n (B \<union> votes_of c', c')"
  using assms(3)
proof (elim disjE)
  have len: "length (nodes c) = n" by (rule inv_length [OF assms(1)])
  { assume th: "th = SnapshotStart src dst"
    from assms(2) len have x: "src < n"
      "c' = proceed k (SnapshotCall src dst (sendSnapshot_args (nodes c ! src))) src (nodes c ! src) [] c"
      unfolding th by (auto simp: bind_eq_Some_conv arr_get_Some)
    show ?thesis by (rule proceed_quiet [OF assms(1) x(1) keeps_refl trans [OF x(2) proceed_same]]) simp_all }
  { assume th: "th = SnapshotBack src dst a rpc"
    from assms(2) len obtain t where x: "src < n"
      "sendSnapshot_reply S now dst a (if ok then rpc else None) (nodes c ! src) = Some t"
      "c' = proceed k Finished src t [] c"
      unfolding th by (auto simp: bind_eq_Some_conv arr_get_Some)
    show ?thesis
      by (rule proceed_quiet [OF assms(1) x(1) sendSnapshot_vote [OF x(2)] trans [OF x(3) proceed_same]]) simp_all }
  { assume th: "th = BeatThread src"
    from assms(2) len obtain ts t where x: "src < n" "L_heartBeat now (nodes c ! src) = Some (ts, t)"
      "c' = begin_round src t ts (c\<lparr>threads := (threads c)[k := Finished]\<rparr>)"
      unfolding th by (auto simp: bind_eq_Some_conv arr_get_Some)
    have "fewer ((threads c)[k := Finished]) (threads c)" by (rule fewer_update) simp
    then show ?thesis
      using heartBeat_vote [OF x(2)] heartBeat_no_votes [OF x(2)]
      by (intro round_quiet [OF assms(1) x(1) _ _ _ _ x(3)]) auto }
  { assume th: "th = PushThread src m"
    from assms(2) obtain q where "c' = c\<lparr>chans := q, threads := (threads c)[k := Finished]\<rparr>"
      unfolding th by (auto simp: bind_eq_Some_conv)
    then show ?thesis by (intro idle_step [OF assms(1)]) (simp_all add: fewer_update) }
qed

lemma thread_step_inv:
  assumes "election_inv n (B, c)" "k < length (threads c)" "thread_step S now k ok (threads c ! k) c = Some c'"
  shows "election_inv n (B \<union> votes_of c', c')"
proof (cases "threads c ! k")
  case (VoteCall src dst a r)
  show ?thesis by (rule vote_call_inv [OF assms(1,2) VoteCall assms(3) [unfolded VoteCall]])
next
  case (VoteBack src dst a r rpc)
  show ?thesis by (rule vote_back_inv [OF assms(1,2) VoteBack assms(3) [unfolded VoteBack]])
next
  case (SnapshotCall src dst a)
  show ?thesis by (rule snapshot_call_inv [OF assms(1) assms(3) [unfolded SnapshotCall]])
next
  case Finished
  then show ?thesis using assms(3) by simp
qed (rule append_thread_inv [OF assms(1,3)] other_thread_inv [OF assms(1,3)]; simp)+

lemma cluster_step_inv:
  assumes "election_inv n (B, c)" "cluster_step S now a c = Some c'"
  shows "election_inv n (B \<union> votes_of c', c')"
proof -
  have len: "length (nodes c) = n" by (rule inv_length [OF assms(1)])
  have one: "election_inv n (B \<union> votes_of c', c')"
    if "i < n" "keeps_vote (nodes c ! i) t \<and> no_promotion (nodes c ! i) t" "nodes c' = (nodes c)[i := t]"
      "threads c' = threads c" "rounds c' = rounds c" "voteNum c' = voteNum c" for i t
    using that by (intro quiet_step [OF assms(1) that(1)]) (auto simp: fewer_refl)
  show ?thesis
  proof (cases a)
    case (Elect i)
    obtain ts t where x: "L_stand4Election S now (nodes c ! i) = (ts, t)" by fastforce
    with assms(2) Elect len have i: "i < n" and c': "c' = begin_round i t ts c"
      by (auto simp: bind_eq_Some_conv arr_get_Some)
    show ?thesis
    proof (cases "identity (nodes c ! i) = LEADER")
      case False
      then show ?thesis by (rule elect_step [OF assms(1) i _ x c'])
    next
      case True
      then have "ts = []" using x by (simp add: L_stand4Election_def)
      then show ?thesis
        using stand_vote(1,2) [OF x] c' fewer_refl
        by (intro round_quiet [OF assms(1) i, where ts = "[]" and T = "threads c"]) auto
    qed
  next
    case (Tick i)
    with assms(2) len obtain ts t where x: "i < n" "L_heartBeat now (nodes c ! i) = Some (ts, t)"
      "c' = begin_round i t ts c" by (auto simp: bind_eq_Some_conv arr_get_Some)
    then show ?thesis
      using heartBeat_vote [OF x(2)] heartBeat_no_votes [OF x(2)] fewer_refl
      by (intro round_quiet [OF assms(1) x(1), where ts = ts and T = "threads c"]) auto
  next
    case (Execute i opt)
    with assms(2) len have "i < n" "c' = c\<lparr>nodes := (nodes c)[i := snd (raft_execute S opt (nodes c ! i))]\<rparr>"
      by (auto simp: bind_eq_Some_conv arr_get_Some)
    then show ?thesis using execute_vote by (intro one) auto
  next
    case (TakeSnapshot i index shot)
    with assms(2) len obtain b t where "i < n" "raft_persist S index shot (nodes c ! i) = Some (b, t)"
      "c' = c\<lparr>nodes := (nodes c)[i := t]\<rparr>" by (auto simp: bind_eq_Some_conv arr_get_Some)
    then show ?thesis using persist_vote by (intro one [of i t]) auto
  next
    case (ApplyMsgs i)
    with assms(2) len obtain ms t where "i < n" "M_getApplyMessages (nodes c ! i) = Ret (ms, t)"
      "c' = c\<lparr>nodes := (nodes c)[i := t], applying := (applying c)[i := ms]\<rparr>"
      by (auto simp: bind_eq_Some_conv arr_get_Some split: outcome.splits if_splits)
    then show ?thesis using applier_vote by (intro one [of i t]) auto
  next
    case (PushMsg i)
    with assms(2) obtain ms q where "c' = c\<lparr>applying := ms, chans := q\<rparr>"
      by (auto simp: bind_eq_Some_conv neq_Nil_conv split: list.splits)
    then show ?thesis by (intro idle_step [OF assms(1)]) (simp_all add: fewer_refl)
  next
    case (TakeMsg i)
    with assms(2) obtain q where "c' = c\<lparr>chans := q\<rparr>" by (auto simp: bind_eq_Some_conv)
    then show ?thesis by (intro idle_step [OF assms(1)]) (simp_all add: fewer_refl)
  next
    case (RunThread k ok)
    with assms(2) have "k < length (threads c)" "thread_step S now k ok (threads c ! k) c = Some c'"
      by (auto simp: bind_eq_Some_conv arr_get_Some)
    then show ?thesis by (rule thread_step_inv [OF assms(1)])
  qed
qed

interpretation votes: step_invariant "history_start S n" "history_step S" "election_inv n" for S n
proof
  fix h h' assume I: "election_inv n h" and H: "history_step S h h'"
  obtain B c where h: "h = (B, c)" by fastforce
  obtain now a where "cluster_step S now a c = Some (snd h')" "fst h' = B \<union> votes_of (snd h')"
    using H h by (auto simp: history_step_def elim: cstepE)
  with cluster_step_inv I h show "election_inv n h'" by (metis prod.collapse)
qed (rule history_start_inv)

lemma run_has_history:
  "(cstep S)\<^sup>*\<^sup>* c c' \<Longrightarrow> \<exists>B'. (history_step S)\<^sup>*\<^sup>* (B, c) (B', c')"
proof (induction rule: rtranclp_induct)
  case (step d e)
  then obtain B' where "(history_step S)\<^sup>*\<^sup>* (B, c) (B', d)" by blast
  moreover have "history_step S (B', d) (B' \<union> votes_of e, e)" using step(2) by (simp add: history_step_def)
  ultimately show ?case by (blast intro: rtranclp.rtrancl_into_rtrancl)
qed blast

lemma cluster_run_inv:
  assumes "cluster_start S n c0" "(cstep S)\<^sup>*\<^sup>* c0 c"
  shows "\<exists>B. election_inv n (B, c)"
  using run_has_history [OF assms(2), of "{}"] votes.reach_inv [of S n "({}, c0)"] assms(1)
  by (auto simp: history_start_def)

end
