(* ===== verification/LogGrowth.thy ===== *)
theory LogGrowth
  imports RaftStep
begin

text \<open>
  The last index of a node's log never falls, whatever step the node makes. The server's put
  calls and the identity of entries in a cluster rest on this.
\<close>

section \<open>The log of a node never gets shorter\<close>

lemma last_same: "logs t = logs s \<Longrightarrow> lastSnapshotIndex t = lastSnapshotIndex s \<Longrightarrow>
    M_getLastLogIndex t = M_getLastLogIndex s"
  by (simp add: M_getLastLogIndex_def)

lemma persist_log:
  assumes "node_inv s" "raft_persist S index shot s = Some (b, t)"
  shows "M_getLastLogIndex t = M_getLastLogIndex s"
proof (cases "lastSnapshotIndex s < index \<and> index \<le> commitIndex s")
  case True
  have w: "wf_log s" "wf_log t" using assms raft_persist_inv [OF assms] by (auto simp: node_inv_def)
  have "t = (cut_at index s)\<lparr>pstr := persist_both (M_dump S (cut_at index s)) shot (pstr s)\<rparr>"
    using assms raft_persist_accept [OF assms(1)] True by simp
  then have "logs t = drop (nat (index - lastSnapshotIndex s)) (logs s)" "lastSnapshotIndex t = index"
    by (simp_all add: cut_at_def)
  moreover have "index \<le> M_getLastLogIndex s"
    using True assms(1) by (auto simp: node_inv_def wf_progress_def)
  ultimately show ?thesis using True last_index [OF w(1)] last_index [OF w(2)] by simp
qed (use assms raft_persist_refuse in auto)

lemma install_log:
  assumes "node_inv s" "snapshot_ok a" "L_installSnapshot S now a s = Some (r, ts, t)"
  shows "M_getLastLogIndex s \<le> M_getLastLogIndex t"
proof (cases "sa_term a < cur_term s \<or> sa_last_index a \<le> lastSnapshotIndex s")
  case True
  then have "t \<in> {s, followed S now (sa_term a) s}"
    using assms(3) L_installSnapshot_run [OF assms(1), of S now a] by (auto split: if_splits)
  then show ?thesis by auto
next
  case False
  have w: "wf_log s" "wf_log t"
    using assms(1) node_step_inv [OF node_step.install [OF assms(2,3)] assms(1)] by (auto simp: node_inv_def)
  have "logs t = drop (nat (sa_last_index a - lastSnapshotIndex s)) (logs s)"
    "lastSnapshotIndex t = sa_last_index a"
    using False assms(3) L_installSnapshot_run [OF assms(1), of S now a] by (auto simp: installed_def)
  with False show ?thesis using last_index [OF w(1)] last_index [OF w(2)] by simp linarith
qed

lemma append_log:
  assumes "node_inv s" "args_ok a" "L_appendEntries S now a s = Ret (r, t)"
  shows "M_getLastLogIndex s \<le> M_getLastLogIndex t"
proof (cases "accepts a s")
  case True
  then show ?thesis
    using L_appendEntries_accept [OF assms(1,2) True, of S now] appended_wf(2) [OF assms(1,2) True, of S now] assms(3)
    by (auto simp: node_simps split: if_splits)
next
  case False
  then have "t \<in> {s, M_persist S (followed S now (aa_term a) s)}"
    using L_appendEntries_reject [OF assms(1) False, of S now] assms(3)
    by (cases "aa_term a < cur_term s") auto
  then show ?thesis by (auto simp: node_simps)
qed

lemma execute_log:
  "M_getLastLogIndex (snd (raft_execute S c s)) =
     (if identity s = LEADER then M_getLastLogIndex s + 1 else M_getLastLogIndex s)"
  "fst (fst (raft_execute S c s)) = (if identity s = LEADER then M_getLastLogIndex s + 1 else - 1)"
  by (simp_all add: raft_execute_def Let_def node_simps M_getNewCommandIndex_def)
    (simp add: M_getLastLogIndex_def)

lemma node_step_log:
  assumes "node_step S s t" "node_inv s"
  shows "M_getLastLogIndex s \<le> M_getLastLogIndex t"
  using assms
proof (induction rule: node_step.induct)
  case (apply_msgs s msgs t)
  then show ?case using M_getApplyMessages_run [of s]
    by (auto simp: node_inv_def wf_progress_def M_getLastLogIndex_def)
next
  case (heartBeat now s ts t)
  then show ?case
    by (auto simp: L_heartBeat_def bind_eq_Some_conv M_getLastLogIndex_def split: if_splits)
next
  case (stand now s ts t)
  then show ?case
    by (auto simp: L_stand4Election_def Let_def node_simps M_getLastLogIndex_def split: if_splits)
next
  case (append_reply server s rpc now a num b num' t)
  then show ?case
    by (auto simp: L_sendAppendEntries_def node_simps and_then_Ret of_opt_def Let_def arr_set_def arr_get_def M_getLastLogIndex_def split: option.splits if_splits)
next
  case (vote_reply server va rpcv num s b num' ts t)
  then show ?case
    by (auto simp: L_sendRequestVote_def node_simps Let_def arr_seti_Some bind_eq_Some_conv M_getLastLogIndex_def split: option.splits if_splits)
next
  case (snapshot_reply server s sa now rpcs t)
  then show ?case
    by (auto simp: sendSnapshot_reply_def node_simps bind_eq_Some_conv M_getLastLogIndex_def split: option.splits if_splits)
next
  case (vote now va s vr t)
  then show ?case
    by (auto simp: L_requestVote_def Let_def node_simps M_getLastLogIndex_def split: if_splits)
qed (use execute_log persist_log append_log install_log in \<open>auto simp: less_imp_le\<close>)

end
