(* ===== verification/LogIdentity.thy ===== *)
theory LogIdentity
  imports ElectionSafety LogGrowth
begin

text \<open>
  What the logs of a cluster agree on in every run: an entry is determined by its index and
  its term, in all logs and in all messages on their way. So no node ever meets two commands
  of one term at one index, and no delivered call to append entries throws.

  The invariant of a node in a cluster is weaker than \<open>node_inv\<close>: the answer of a follower with
  a later snapshot can push a leader's \<open>nextIndex\<close> beyond its log.
\<close>

section \<open>Nodes whose progress of peers is not known\<close>

definition core :: "raft_state \<Rightarrow> bool" where
  "core s \<longleftrightarrow> wf_log s \<and> wf_progress s \<and> wf_terms s \<and> wf_peers s"

text \<open>\<open>E\<close>: entries that come from elsewhere.\<close>

definition grows :: "log_entry set \<Rightarrow> raft_state \<Rightarrow> raft_state \<Rightarrow> bool" where
  "grows E s t \<longleftrightarrow> core t \<and> cur_term s \<le> cur_term t \<and> M_getLastLogIndex s \<le> M_getLastLogIndex t
     \<and> set (logs t) \<subseteq> set (logs s) \<union> E"

abbreviation follower :: "raft_state \<Rightarrow> raft_state" where
  "follower s \<equiv> s\<lparr>identity := FOLLOWER\<rparr>"

lemma core_follower: "core s \<longleftrightarrow> node_inv (follower s)"
  by (simp add: core_def node_inv_defs M_getLastLogIndex_def)

lemma node_inv_core: "node_inv s \<Longrightarrow> core s"
  by (simp add: core_def node_inv_def)

lemma grows_same:
  assumes "core s" "logs t = logs s" "lastSnapshotIndex t = lastSnapshotIndex s"
    "lastSnapshotTerm t = lastSnapshotTerm s" "commitIndex s \<le> commitIndex t" "commitIndex t \<le> M_getLastLogIndex s"
    "appliedIndex s \<le> appliedIndex t" "appliedIndex t \<le> commitIndex t" "me t = me s" "helpers_size t = helpers_size s"
    "length (nextIndex t) = length (nextIndex s)" "length (matchIndex t) = length (matchIndex s)"
    "cur_term s \<le> cur_term t"
  shows "grows E s t"
proof -
  have "M_getLastLogIndex t = M_getLastLogIndex s" using assms by (simp add: M_getLastLogIndex_def)
  with assms show ?thesis by (fastforce simp: grows_def core_def wf_log_def wf_progress_def wf_terms_def wf_peers_def)
qed

lemma core_progress:
  assumes "core s"
  shows "appliedIndex s \<le> commitIndex s" "commitIndex s \<le> M_getLastLogIndex s"
  using assms by (simp_all add: core_def wf_progress_def)

lemma grows_refl: "core s \<Longrightarrow> grows E s s"
  by (simp add: grows_def)

lemma grows_follower: "grows E (follower s) (follower t) \<longleftrightarrow> grows E s t"
  by (simp add: grows_def core_def wf_log_def wf_progress_def wf_terms_def wf_peers_def M_getLastLogIndex_def)

section \<open>The steps of a node\<close>

lemma stand_grows: "core s \<Longrightarrow> L_stand4Election S now s = (ts, t) \<Longrightarrow> grows E s t"
  using core_progress [of s]
  by (auto simp: L_stand4Election_def Let_def node_simps split: if_splits intro!: grows_same)

lemma heartBeat_grows: "core s \<Longrightarrow> L_heartBeat now s = Some (ts, t) \<Longrightarrow> grows E s t"
  using core_progress [of s]
  by (auto simp: L_heartBeat_def bind_eq_Some_conv split: if_splits intro!: grows_same)

lemma applier_grows:
  assumes "core s" "M_getApplyMessages s = Ret (msgs, t)"
  shows "grows E s t"
proof -
  have "t = s\<lparr>appliedIndex := commitIndex s\<rparr>"
    using assms getApply_loop_run [of s "[]"]
    by (auto simp: M_getApplyMessages_def and_then_Ret core_def wf_progress_def split: if_splits)
  then show ?thesis using assms(1) core_progress [OF assms(1)] by (auto intro!: grows_same)
qed

lemma requestVote_grows: "core s \<Longrightarrow> L_requestVote S now a s = (r, t) \<Longrightarrow> grows E s t"
  using core_progress [of s]
  by (auto simp: L_requestVote_def Let_def node_simps split: if_splits intro!: grows_same)

lemma sendRequestVote_grows:
  "core s \<Longrightarrow> L_sendRequestVote S dst a rpc num s = Some (b, num', ts, t) \<Longrightarrow> grows E s t"
  using core_progress [of s]
  by (auto simp: L_sendRequestVote_def Let_def node_simps bind_eq_Some_conv arr_seti_Some core_def wf_peers_def
      split: option.splits if_splits intro!: grows_same)

lemma sendSnapshot_grows:
  "core s \<Longrightarrow> sendSnapshot_reply S now dst a rpc s = Some t \<Longrightarrow> grows E s t"
  using core_progress [of s]
  by (auto simp: sendSnapshot_reply_def node_simps bind_eq_Some_conv arr_set_def
      split: option.splits if_splits intro!: grows_same)

lemma sendAppendEntries_grows:
  assumes "core s" "L_sendAppendEntries S now dst a rpc num s = Ret (b, num', t)"
  shows "grows E s t"
proof -
  have "logs t = logs s" "lastSnapshotIndex t = lastSnapshotIndex s" "lastSnapshotTerm t = lastSnapshotTerm s"
    "commitIndex s \<le> commitIndex t" "commitIndex t \<le> M_getLastLogIndex s" "appliedIndex t = appliedIndex s"
    "me t = me s" "helpers_size t = helpers_size s"
    "length (nextIndex t) = length (nextIndex s)" "length (matchIndex t) = length (matchIndex s)"
    "cur_term s \<le> cur_term t"
    using assms(2) core_progress(2) [OF assms(1)]
    by (auto simp: L_sendAppendEntries_def node_simps and_then_Ret of_opt_def Let_def arr_set_def arr_get_def
        M_getLastLogIndex_def split: option.splits if_splits)
  then show ?thesis using assms(1) core_progress [OF assms(1)] by (intro grows_same) auto
qed

text \<open>Calls that do not look at the role, or set it, are those of a follower.\<close>

lemma persist_role:
  "raft_persist S i sh (follower s) = map_option (\<lambda>(b, t). (b, follower t)) (raft_persist S i sh s)"
proof -
  define k where "k = M_getSlicesIndexFromLogIndex s i"
  have k: "M_getSlicesIndexFromLogIndex (follower s) i = k" "M_getSlicesIndexFromLogIndex s i = k"
    by (simp_all add: k_def M_getSlicesIndexFromLogIndex_def)
  show ?thesis
    unfolding raft_persist_def Let_def k
    by (cases "arr_geti (logs s) k"; cases "int (length (logs s)) - 1 = k"; cases "erase_front (logs s) (k + 1)")
      (simp_all add: M_dump_def)
qed

lemma followed_role: "followed S now u (follower s) = followed S now u s"
  by (simp add: followed_def M_identityChange_def M_persist_def M_dump_def)

lemma persist_grows:
  assumes "core s" "raft_persist S i sh s = Some (b, t)"
  shows "grows E s t"
proof -
  let ?s = "follower s" and ?t = "follower t"
  have I: "node_inv ?s" and p: "raft_persist S i sh ?s = Some (b, ?t)"
    using assms by (simp_all add: core_follower persist_role)
  have "set (logs ?t) \<subseteq> set (logs ?s)"
  proof (cases "lastSnapshotIndex ?s < i \<and> i \<le> commitIndex ?s")
    case True
    then have "?t = (cut_at i ?s)\<lparr>pstr := persist_both (M_dump S (cut_at i ?s)) sh (pstr ?s)\<rparr>"
      using raft_persist_accept [OF I, of i S sh] p by simp
    moreover have "set (logs ((cut_at i u)\<lparr>pstr := q\<rparr>)) \<subseteq> set (logs u)" for u q
      using set_drop_subset by (fastforce simp: cut_at_def)
    ultimately show ?thesis by metis
  qed (use raft_persist_refuse [of ?s i S sh] p in auto)
  then have "grows E ?s ?t"
    using raft_persist_inv [OF I p] persist_log [OF I p] forward_persist [OF I p]
    by (auto simp: grows_def node_inv_core forward_only_def)
  then show ?thesis by (simp only: grows_follower)
qed

lemma append_role:
  assumes "\<not> aa_term a < cur_term s"
  shows "L_appendEntries S now a s = L_appendEntries S now a (follower s)"
proof -
  have F: "(if aa_term a > cur_term u then M_identityChange S FOLLOWER (aa_term a) (- 1) u else u)
     \<lparr>identity := FOLLOWER, lastResetElectionTime := now\<rparr> = followed S now (aa_term a) u" for u
    by (simp add: followed_def)
  have c: "aa_term a < cur_term s \<longleftrightarrow> False" "aa_term a < cur_term (follower s) \<longleftrightarrow> False" using assms by simp_all
  show ?thesis unfolding L_appendEntries_def Let_def F c followed_role if_False ..
qed

lemma install_role:
  assumes "\<not> sa_term a < cur_term s"
  shows "L_installSnapshot S now a s = L_installSnapshot S now a (follower s)"
proof -
  have F: "(if sa_term a > cur_term u then M_identityChange S FOLLOWER (sa_term a) (- 1) u else u)
     \<lparr>identity := FOLLOWER, lastResetElectionTime := now\<rparr> = followed S now (sa_term a) u" for u
    by (simp add: followed_def)
  have c: "sa_term a < cur_term s \<longleftrightarrow> False" "sa_term a < cur_term (follower s) \<longleftrightarrow> False" using assms by simp_all
  have l: "lastSnapshotIndex (follower s) = lastSnapshotIndex s" by simp
  show ?thesis unfolding L_installSnapshot_def Let_def F c followed_role if_False ..
qed

lemma grows_from_follower: "grows E (follower s) t \<longleftrightarrow> grows E s t"
  by (simp add: grows_def M_getLastLogIndex_def)

lemma append_grows:
  assumes "core s" "args_ok a" "L_appendEntries S now a s = Ret (r, t)"
  shows "grows (set (aa_entries a)) s t"
proof (cases "aa_term a < cur_term s")
  case True
  then show ?thesis using assms by (simp add: L_appendEntries_def grows_refl)
next
  case False
  let ?s = "follower s"
  have I: "node_inv ?s" using assms(1) by (simp add: core_follower)
  have L: "L_appendEntries S now a ?s = Ret (r, t)" using append_role [OF False] assms(3) by simp
  have "set (logs t) \<subseteq> set (logs ?s) \<union> set (aa_entries a)"
  proof (cases "accepts a ?s")
    case True
    then have "t = M_persist S (appended S now a ?s)"
      using L_appendEntries_accept [OF I assms(2) True, of S now] L by (simp split: if_splits)
    then show ?thesis using set_overlay by (simp add: node_simps appended_fields)
  next
    case False
    then show ?thesis using L_appendEntries_reject [OF I False, of S now] L by auto
  qed
  then have "grows (set (aa_entries a)) ?s t"
    using L_appendEntries_inv [OF I assms(2), of S now] append_log [OF I assms(2) L] forward_append [OF I assms(2) L] L
    by (auto simp: grows_def node_inv_core forward_only_def)
  then show ?thesis by (simp only: grows_from_follower)
qed

lemma install_grows:
  assumes "core s" "snapshot_ok a" "L_installSnapshot S now a s = Some (r, ts, t)"
  shows "grows E s t"
proof (cases "sa_term a < cur_term s")
  case True
  then show ?thesis using assms by (simp add: L_installSnapshot_def grows_refl)
next
  case False
  let ?s = "follower s"
  have I: "node_inv ?s" using assms(1) by (simp add: core_follower)
  have L: "L_installSnapshot S now a ?s = Some (r, ts, t)" using install_role [OF False] assms(3) by simp
  have "set (logs t) \<subseteq> set (logs ?s)"
    using L_installSnapshot_run [OF I, of S now a] L
    by (auto simp: installed_def split: if_splits dest: in_set_dropD)
  then have "grows E ?s t"
    using L_installSnapshot_inv [OF I assms(2), of S now] install_log [OF I assms(2) L] forward_install [OF I L] L
    by (auto simp: grows_def node_inv_core forward_only_def)
  then show ?thesis by (simp only: grows_from_follower)
qed

text \<open>A command executed by a leader is the one new entry.\<close>

lemma execute_grows:
  assumes "core s" "identity s = LEADER"
  shows "\<exists>e. entry_term e = cur_term s \<and> entry_index e = M_getLastLogIndex s + 1
    \<and> logs (snd (raft_execute S c s)) = logs s @ [e] \<and> cur_term (snd (raft_execute S c s)) = cur_term s
    \<and> M_getLastLogIndex (snd (raft_execute S c s)) = M_getLastLogIndex s + 1 \<and> grows {e} s (snd (raft_execute S c s))"
proof -
  let ?e = "\<lparr>entry_command = op_dump (out_op S) c, entry_term = cur_term s, entry_index = M_getNewCommandIndex s\<rparr>"
  let ?t = "snd (raft_execute S c s)"
  have t: "logs ?t = logs s @ [?e]" "lastSnapshotIndex ?t = lastSnapshotIndex s" "lastSnapshotTerm ?t = lastSnapshotTerm s"
    "cur_term ?t = cur_term s" "commitIndex ?t = commitIndex s" "appliedIndex ?t = appliedIndex s" "me ?t = me s"
    "helpers_size ?t = helpers_size s" "nextIndex ?t = nextIndex s" "matchIndex ?t = matchIndex s"
    using assms(2) by (simp_all add: raft_execute_def Let_def node_simps)
  have C: "wf_log s" "wf_progress s" "wf_terms s" "wf_peers s" using assms(1) by (simp_all add: core_def)
  have n: "M_getNewCommandIndex s = M_getLastLogIndex s + 1" by (simp add: M_getNewCommandIndex_def)
  have l: "M_getLastLogIndex ?t = M_getLastLogIndex s + 1" using execute_log(1) [of S c s] assms(2) by simp
  have "wf_log ?t" using C(1) last_index [OF C(1)] by (auto simp: wf_log_def t n nth_append less_Suc_eq)
  moreover have "wf_progress ?t" using C(2) by (simp add: wf_progress_def t l)
  moreover have "0 \<le> cur_term s" using C(3) by (simp add: wf_terms_def)
  then have "wf_terms ?t" using C(3) by (auto simp: wf_terms_def t)
  moreover have "wf_peers ?t" using C(4) by (simp add: wf_peers_def t)
  ultimately have "core ?t" by (simp add: core_def)
  then show ?thesis using t l n by (intro exI [of _ ?e]) (simp add: grows_def)
qed

section \<open>What is sent\<close>

lemma heartBeat_task_sends:
  assumes "wf_log s" "heartBeat_task s i = Some t"
  shows "t = SendSnapshot i \<or> (\<exists>a r. t = SendAppendEntries i a r \<and> sends s a)"
proof -
  from assms(2) obtain nx where nx: "arr_get (nextIndex s) i = Some nx" by (auto simp: heartBeat_task_def bind_eq_Some_conv)
  show ?thesis
  proof (cases "nx \<le> lastSnapshotIndex s")
    case True
    then show ?thesis using assms(2) nx by (simp add: heartBeat_task_def)
  next
    case False
    with assms(2) nx obtain p pt where pi: "M_getPreviousLogInfo s i = Some (p, pt)"
      and t: "t = SendAppendEntries i \<lparr>aa_term = cur_term s, aa_leader_id = me s, aa_prev_log_index = p,
        aa_prev_log_term = pt, aa_entries = (if p = lastSnapshotIndex s then logs s
          else from_index (logs s) (M_getSlicesIndexFromLogIndex s p + 1)), aa_leader_commit = commitIndex s\<rparr>
        (append_reply0\<lparr>ar_state := DISCONNECTED\<rparr>)"
      by (auto simp: heartBeat_task_def bind_eq_Some_conv simp del: if_split)
    have p: "lastSnapshotIndex s \<le> p" "p \<le> M_getLastLogIndex s" "M_getLogTerm s p = Some pt"
      using pi nx False last_index [OF assms(1)] slice_of [OF assms(1), of "nx - 1"] M_getLogTerm_in [OF assms(1), of "nx - 1"]
      by (auto simp: M_getPreviousLogInfo_def bind_eq_Some_conv arr_geti_def arr_get_def M_getSlicesIndexFromLogIndex_def
          M_getLogTerm_def M_valideIndex_def split: if_splits)
    have "(if p = lastSnapshotIndex s then logs s else from_index (logs s) (M_getSlicesIndexFromLogIndex s p + 1))
      = drop (nat (p - lastSnapshotIndex s)) (logs s)"
      using p(1) by (auto simp: from_index_def M_getSlicesIndexFromLogIndex_def
          intro!: arg_cong [where f = "\<lambda>k. drop k (logs s)"])
    then show ?thesis using t p by (simp add: sends_def)
  qed
qed

lemma heartBeat_loop_sends:
  "wf_log s \<Longrightarrow> heartBeat_loop s is = Some ts \<Longrightarrow> x \<in> set ts \<Longrightarrow>
    \<exists>i. x = SendSnapshot i \<or> (\<exists>a r. x = SendAppendEntries i a r \<and> sends s a)"
proof (induction "is" arbitrary: ts)
  case (Cons i "is")
  show ?case
  proof (cases "int i = me s")
    case False
    with Cons.prems obtain t us where "heartBeat_task s i = Some t" "heartBeat_loop s is = Some us" "ts = t # us"
      by (auto simp: bind_eq_Some_conv)
    with Cons heartBeat_task_sends show ?thesis by fastforce
  qed (use Cons in simp)
qed simp

lemma follower_reads:
  "M_getLastLogIndex (follower s) = M_getLastLogIndex s" "M_getLogTerm (follower s) j = M_getLogTerm s j"
proof -
  show l: "M_getLastLogIndex (follower s) = M_getLastLogIndex s" by (simp add: M_getLastLogIndex_def)
  show "M_getLogTerm (follower s) j = M_getLogTerm s j"
    by (simp add: M_getLogTerm_def l M_getSlicesIndexFromLogIndex_def)
qed

lemma heartBeat_sends_core:
  "core s \<Longrightarrow> L_heartBeat now s = Some (ts, t) \<Longrightarrow> x \<in> set ts \<Longrightarrow>
    \<exists>i. x = SendSnapshot i \<or> (\<exists>a r. x = SendAppendEntries i a r \<and> args_ok a \<and> set (aa_entries a) \<subseteq> set (logs s))"
proof -
  assume c: "core s" and b: "L_heartBeat now s = Some (ts, t)" and x: "x \<in> set ts"
  from b x have "heartBeat_loop s [0..<helpers_size s] = Some ts" by (auto simp: L_heartBeat_def bind_eq_Some_conv split: if_splits)
  from heartBeat_loop_sends [OF _ this x] c obtain i where
    i: "x = SendSnapshot i \<or> (\<exists>a r. x = SendAppendEntries i a r \<and> sends s a)" by (auto simp: core_def)
  have "args_ok a" "set (aa_entries a) \<subseteq> set (logs s)" if "sends s a" for a
  proof -
    have "sends (follower s) a"
      using that by (simp add: sends_def follower_reads)
    then show "args_ok a" using sends_args_ok [of "follower s"] c by (simp add: core_follower)
    show "set (aa_entries a) \<subseteq> set (logs s)" using that set_drop_subset by (auto simp: sends_def dest: in_set_dropD)
  qed
  with i show ?thesis by blast
qed

section \<open>The invariant of a cluster\<close>

definition flying :: "thread list \<Rightarrow> append_args set" where
  "flying T = {a. \<exists>src dst r. AppendCall src dst a r \<in> set T}"

definition snapping :: "thread list \<Rightarrow> snapshot_args set" where
  "snapping T = {a. \<exists>src dst. SnapshotCall src dst a \<in> set T}"

text \<open>The entries of a cluster: those in logs and those on their way.\<close>

definition entries_of :: "cluster \<Rightarrow> log_entry set" where
  "entries_of c = (\<Union>s \<in> set (nodes c). set (logs s)) \<union> (\<Union>a \<in> flying (threads c). set (aa_entries a))"

definition determined :: "log_entry set \<Rightarrow> bool" where
  "determined E \<longleftrightarrow> (\<forall>e \<in> E. \<forall>f \<in> E. entry_index e = entry_index f \<and> entry_term e = entry_term f \<longrightarrow> e = f)"

text \<open>
  Every entry was made by the winner of its term, and as long as that node is in the term its
  log reaches at least as far.
\<close>

definition won :: "nat \<Rightarrow> ballots \<Rightarrow> int \<Rightarrow> nat \<Rightarrow> bool" where
  "won n B t i \<longleftrightarrow> i < n \<and> majority n {j. j < n \<and> (j, t, int i) \<in> B}"

definition authored :: "nat \<Rightarrow> ballots \<Rightarrow> raft_state list \<Rightarrow> log_entry \<Rightarrow> bool" where
  "authored n B N e \<longleftrightarrow> (\<exists>i. won n B (entry_term e) i \<and> entry_term e \<le> cur_term (N ! i)
     \<and> (entry_term e = cur_term (N ! i) \<longrightarrow> entry_index e \<le> M_getLastLogIndex (N ! i)))"

definition log_inv :: "nat \<Rightarrow> ballots \<times> cluster \<Rightarrow> bool" where
  "log_inv n h = (case h of (B, c) \<Rightarrow> (\<forall>i < n. core (nodes c ! i)) \<and> (\<forall>a \<in> flying (threads c). args_ok a)
     \<and> (\<forall>a \<in> snapping (threads c). snapshot_ok a) \<and> determined (entries_of c)
     \<and> (\<forall>e \<in> entries_of c. authored n B (nodes c) e))"

lemma won_unique:
  assumes "one_vote B" "won n B t i" "won n B t j"
  shows "i = j"
proof -
  let ?V = "{(v, x). v < n \<and> (v, t, x) \<in> B}"
  have one: "(v, x) \<in> ?V \<Longrightarrow> (v, x') \<in> ?V \<Longrightarrow> x = x'" for v x x'
    using assms(1) by (auto simp: one_vote_def)
  have "majority n {v. (v, int i) \<in> ?V}" "majority n {v. (v, int j) \<in> ?V}"
    using assms(2,3) by (auto simp: won_def)
  from members.unique_winner [of ?V, OF one this] show ?thesis by simp
qed

lemma won_mono:
  assumes "won n B t i" "B \<subseteq> B'"
  shows "won n B' t i"
proof -
  have "card {j. j < n \<and> (j, t, int i) \<in> B} \<le> card {j. j < n \<and> (j, t, int i) \<in> B'}"
    using assms(2) by (intro card_mono) auto
  with assms(1) show ?thesis by (auto simp: won_def majority_def)
qed

lemma authored_move:
  assumes "authored n B N e" "B \<subseteq> B'" "length N = n" "i < n" "cur_term (N ! i) \<le> cur_term t"
    "M_getLastLogIndex (N ! i) \<le> M_getLastLogIndex t"
  shows "authored n B' (N[i := t]) e"
proof -
  from assms(1) obtain j where j: "won n B (entry_term e) j" "entry_term e \<le> cur_term (N ! j)"
    "entry_term e = cur_term (N ! j) \<longrightarrow> entry_index e \<le> M_getLastLogIndex (N ! j)" by (auto simp: authored_def)
  have "j < n" using j(1) by (simp add: won_def)
  then show ?thesis unfolding authored_def
    using won_mono [OF j(1) assms(2)] j(2,3) assms(3-6) by (intro exI [of _ j]) (auto simp: nth_list_update)
qed

text \<open>A step of node \<open>i\<close> that brings no new entry.\<close>

lemma log_inv_move:
  assumes "log_inv n (B, c)" "length (nodes c) = n" "i < n" "nodes c' = (nodes c)[i := t]"
    and "grows (entries_of c) (nodes c ! i) t" "B \<subseteq> B'"
    and "\<And>a. a \<in> flying (threads c') \<Longrightarrow> a \<in> flying (threads c) \<or> args_ok a \<and> set (aa_entries a) \<subseteq> entries_of c"
    and "\<And>a. a \<in> snapping (threads c') \<Longrightarrow> a \<in> snapping (threads c) \<or> snapshot_ok a"
  shows "log_inv n (B', c')"
proof -
  have I: "\<forall>i < n. core (nodes c ! i)" "\<forall>a \<in> flying (threads c). args_ok a" "\<forall>a \<in> snapping (threads c). snapshot_ok a"
    "determined (entries_of c)" "\<forall>e \<in> entries_of c. authored n B (nodes c) e" using assms(1) by (auto simp: log_inv_def)
  have g: "core t" "cur_term (nodes c ! i) \<le> cur_term t" "M_getLastLogIndex (nodes c ! i) \<le> M_getLastLogIndex t"
    "set (logs t) \<subseteq> set (logs (nodes c ! i)) \<union> entries_of c" using assms(5) by (auto simp: grows_def)
  have old: "set (logs s) \<subseteq> entries_of c" if "s \<in> set (nodes c)" for s using that by (auto simp: entries_of_def)
  have "nodes c ! i \<in> set (nodes c)" using assms(2,3) by simp
  from old [OF this] g(4) have lt: "set (logs t) \<subseteq> entries_of c" by blast
  have "set (logs s) \<subseteq> entries_of c" if "s \<in> set (nodes c')" for s
    using that old lt set_update_subset_insert [of "nodes c" i t] by (auto simp: assms(4))
  moreover have "set (aa_entries a) \<subseteq> entries_of c" if "a \<in> flying (threads c')" for a
    using assms(7) [OF that] by (auto simp: entries_of_def)
  ultimately have sub: "entries_of c' \<subseteq> entries_of c" unfolding entries_of_def [of c'] by blast
  have "\<forall>j < n. core (nodes c' ! j)" using I(1) g(1) assms(2,3) by (simp add: assms(4) nth_list_update)
  moreover have "\<forall>e \<in> entries_of c'. authored n B' (nodes c') e"
    using sub I(5) authored_move [OF _ assms(6,2,3) g(2,3)] by (auto simp: assms(4))
  moreover have "determined (entries_of c')" using sub I(4) unfolding determined_def by blast
  ultimately show ?thesis using I(2,3) assms(7,8) unfolding log_inv_def prod.case by blast
qed

text \<open>
  A step that brings no new entry, as a whole: at most one node moves, and the calls on their
  way carry entries that are already there.
\<close>

definition moves :: "nat \<Rightarrow> cluster \<Rightarrow> cluster \<Rightarrow> bool" where
  "moves n c c' \<longleftrightarrow> (nodes c' = nodes c
       \<or> (\<exists>i t. i < n \<and> nodes c' = (nodes c)[i := t] \<and> grows (entries_of c) (nodes c ! i) t))
     \<and> (\<forall>a \<in> flying (threads c'). a \<in> flying (threads c) \<or> args_ok a \<and> set (aa_entries a) \<subseteq> entries_of c)
     \<and> (\<forall>a \<in> snapping (threads c'). a \<in> snapping (threads c) \<or> snapshot_ok a)"

lemma log_inv_moves:
  assumes "log_inv n (B, c)" "length (nodes c) = n" "moves n c c'" "B \<subseteq> B'"
  shows "log_inv n (B', c')"
proof (cases "nodes c' = nodes c")
  case True
  have I: "\<forall>i < n. core (nodes c ! i)" "\<forall>a \<in> flying (threads c). args_ok a" "\<forall>a \<in> snapping (threads c). snapshot_ok a"
    "determined (entries_of c)" "\<forall>e \<in> entries_of c. authored n B (nodes c) e" using assms(1) by (auto simp: log_inv_def)
  have "set (aa_entries a) \<subseteq> entries_of c" if "a \<in> flying (threads c')" for a
    using assms(3) that by (auto simp: moves_def entries_of_def)
  then have sub: "entries_of c' \<subseteq> entries_of c" unfolding entries_of_def [of c'] True by (auto simp: entries_of_def)
  have "authored n B' N e" if "authored n B N e" for N e
    using that won_mono [OF _ assms(4)] unfolding authored_def by blast
  with I sub assms(3) show ?thesis unfolding log_inv_def prod.case True determined_def moves_def by blast
next
  case False
  with assms(3) obtain i t where m: "i < n" "nodes c' = (nodes c)[i := t]" "grows (entries_of c) (nodes c ! i) t"
    by (auto simp: moves_def)
  show ?thesis
    by (rule log_inv_move [OF assms(1,2) m assms(4)]) (use assms(3) in \<open>auto simp: moves_def\<close>)
qed

text \<open>No log gets shorter in such a step.\<close>

lemma moves_last:
  assumes "moves n c c'" "length (nodes c) = n" "j < n"
  shows "M_getLastLogIndex (nodes c ! j) \<le> M_getLastLogIndex (nodes c' ! j)"
  using assms by (auto simp: moves_def grows_def nth_list_update)

text \<open>A command executed by a leader.\<close>

lemma log_inv_execute:
  assumes "log_inv n (B, c)" "election_inv n (B, c)" "i < n" "identity (nodes c ! i) = LEADER"
    and "nodes c' = (nodes c)[i := snd (raft_execute S opt (nodes c ! i))]" "threads c' = threads c" "B \<subseteq> B'"
  shows "log_inv n (B', c')"
proof -
  let ?s = "nodes c ! i" and ?t = "snd (raft_execute S opt (nodes c ! i))"
  have I: "\<forall>i < n. core (nodes c ! i)" "\<forall>a \<in> flying (threads c). args_ok a" "\<forall>a \<in> snapping (threads c). snapshot_ok a"
    "determined (entries_of c)" "\<forall>e \<in> entries_of c. authored n B (nodes c) e" using assms(1) by (auto simp: log_inv_def)
  have len: "length (nodes c) = n" by (rule inv_length [OF assms(2)])
  obtain e where e: "entry_term e = cur_term ?s" "entry_index e = M_getLastLogIndex ?s + 1" "logs ?t = logs ?s @ [e]"
    "cur_term ?t = cur_term ?s" "M_getLastLogIndex ?t = M_getLastLogIndex ?s + 1" "grows {e} ?s ?t"
    using execute_grows [of ?s S opt] I(1) assms(3,4) by blast
  have w: "won n B (cur_term ?s) i"
    using assms(2-4) by (auto simp: won_def election_inv_def leaders_ok_def)
  have fresh: "\<not> (entry_index f = entry_index e \<and> entry_term f = entry_term e)" if "f \<in> entries_of c" for f
  proof
    assume f: "entry_index f = entry_index e \<and> entry_term f = entry_term e"
    from I(5) that obtain j where j: "won n B (entry_term f) j"
      "entry_term f = cur_term (nodes c ! j) \<longrightarrow> entry_index f \<le> M_getLastLogIndex (nodes c ! j)" by (auto simp: authored_def)
    have "j = i" using won_unique [of B n] j(1) w f e(1) assms(2) by (auto simp: election_inv_def)
    with j(2) f e(1,2) show False by simp
  qed
  have old: "set (logs s) \<subseteq> entries_of c" if "s \<in> set (nodes c)" for s using that by (auto simp: entries_of_def)
  have "?s \<in> set (nodes c)" using assms(3) len by simp
  from old [OF this] e(3) have "set (logs ?t) \<subseteq> insert e (entries_of c)" by auto
  then have "set (logs s) \<subseteq> insert e (entries_of c)" if "s \<in> set (nodes c')" for s
    using that old set_update_subset_insert [of "nodes c" i ?t] by (auto simp: assms(5))
  moreover have "set (aa_entries a) \<subseteq> entries_of c" if "a \<in> flying (threads c')" for a
    using that by (auto simp: entries_of_def assms(6))
  ultimately have sub: "entries_of c' \<subseteq> insert e (entries_of c)" unfolding entries_of_def [of c'] by blast
  have "x = y" if "x \<in> insert e (entries_of c)" "y \<in> insert e (entries_of c)" "entry_index x = entry_index y"
    "entry_term x = entry_term y" for x y
    using that I(4) fresh [of x] fresh [of y] by (auto simp: determined_def)
  then have "determined (entries_of c')" using sub unfolding determined_def by blast
  moreover have "nodes c' ! i = ?t" using assms(3) len by (simp add: assms(5))
  then have "authored n B' (nodes c') e"
    unfolding authored_def using won_mono [OF w assms(7)] e(1,2,4,5) by (intro exI [of _ i]) simp
  moreover have "authored n B' (nodes c') f" if "f \<in> entries_of c" for f
    unfolding assms(5) using I(5) that e(4,5) by (intro authored_move [OF _ assms(7) len assms(3)]) simp_all
  ultimately have "\<forall>f \<in> entries_of c'. authored n B' (nodes c') f" "determined (entries_of c')" using sub by blast+
  moreover have "\<forall>j < n. core (nodes c' ! j)"
    using I(1) e(6) assms(3) len by (simp add: assms(5) nth_list_update grows_def)
  ultimately show ?thesis using I(2,3) unfolding log_inv_def prod.case assms(6) by blast
qed

section \<open>Runs of a cluster\<close>

lemma flying_simps [simp]:
  "flying [] = {}" "flying (T @ U) = flying T \<union> flying U"
  "flying (AppendCall src dst a r # T) = insert a (flying T)"
  "flying (VoteCall src dst va r # T) = flying T" "flying (VoteBack src dst va r vr # T) = flying T"
  "flying (AppendBack src dst a r ar # T) = flying T" "flying (SnapshotStart src dst # T) = flying T"
  "flying (SnapshotCall src dst sa # T) = flying T" "flying (SnapshotBack src dst sa sr # T) = flying T"
  "flying (BeatThread src # T) = flying T" "flying (PushThread src m # T) = flying T" "flying (Finished # T) = flying T"
  by (auto simp: flying_def)

lemma snapping_simps [simp]:
  "snapping [] = {}" "snapping (T @ U) = snapping T \<union> snapping U"
  "snapping (SnapshotCall src dst sa # T) = insert sa (snapping T)"
  "snapping (VoteCall src dst va r # T) = snapping T" "snapping (VoteBack src dst va r vr # T) = snapping T"
  "snapping (AppendCall src dst a r # T) = snapping T"
  "snapping (AppendBack src dst a r ar # T) = snapping T" "snapping (SnapshotStart src dst # T) = snapping T"
  "snapping (SnapshotBack src dst sa sr # T) = snapping T"
  "snapping (BeatThread src # T) = snapping T" "snapping (PushThread src m # T) = snapping T"
  "snapping (Finished # T) = snapping T"
  by (auto simp: snapping_def)

lemma threads_update:
  "flying (T[k := th]) \<subseteq> flying T \<union> flying [th]" "snapping (T[k := th]) \<subseteq> snapping T \<union> snapping [th]"
  using set_update_subset_insert [of T k th] unfolding flying_def snapping_def by fastforce+

lemma flying_at: "k < length T \<Longrightarrow> T ! k = AppendCall src dst a r \<Longrightarrow> a \<in> flying T"
  unfolding flying_def using nth_mem by (metis (mono_tags, lifting) mem_Collect_eq)

lemma snapping_at: "k < length T \<Longrightarrow> T ! k = SnapshotCall src dst a \<Longrightarrow> a \<in> snapping T"
  unfolding snapping_def using nth_mem by (metis (mono_tags, lifting) mem_Collect_eq)

text \<open>The threads a step starts carry no entries of their own.\<close>

definition harmless :: "log_entry set \<Rightarrow> thread list \<Rightarrow> bool" where
  "harmless E T \<longleftrightarrow> (\<forall>a \<in> flying T. args_ok a \<and> set (aa_entries a) \<subseteq> E) \<and> (\<forall>a \<in> snapping T. snapshot_ok a)"

lemma harmless_spawn:
  assumes "\<And>x. x \<in> set ts \<Longrightarrow> case x of SendAppendEntries dst a r \<Rightarrow> args_ok a \<and> set (aa_entries a) \<subseteq> E | _ \<Rightarrow> True"
  shows "harmless E (map (spawn i r) ts)"
  using assms
proof (induction ts)
  case (Cons x ts)
  then have "harmless E (map (spawn i r) ts)" by simp
  with Cons.prems [of x] show ?case by (cases x) (auto simp: harmless_def)
qed (simp add: harmless_def)

lemma harmless_mono: "harmless E T \<Longrightarrow> E \<subseteq> F \<Longrightarrow> harmless F T"
  by (auto simp: harmless_def)

lemma heartBeat_harmless:
  assumes "core s" "L_heartBeat now s = Some (ts, t)" "set (logs s) \<subseteq> E"
  shows "harmless E (map (spawn i r) ts)"
proof (rule harmless_spawn)
  fix x assume "x \<in> set ts"
  from heartBeat_sends_core [OF assms(1,2) this] assms(3)
  show "case x of SendAppendEntries dst a r \<Rightarrow> args_ok a \<and> set (aa_entries a) \<subseteq> E | _ \<Rightarrow> True" by auto
qed

lemma stand_harmless: "L_stand4Election S now s = (ts, t) \<Longrightarrow> harmless E (map (spawn i r) ts)"
  by (rule harmless_spawn) (auto simp: L_stand4Election_def Let_def split: if_splits)

lemma sendRequestVote_harmless:
  "L_sendRequestVote S dst a rpc num s = Some (b, num', ts, t) \<Longrightarrow> harmless E (map (spawn i r) ts)"
  by (rule harmless_spawn) (use sendRequestVote_vote(3) in fastforce)

lemma install_harmless:
  assumes "core s" "L_installSnapshot S now a s = Some (rp, ts, t)"
  shows "harmless E (map (spawn i r) ts)"
  by (rule harmless_spawn) (use assms in \<open>auto simp: L_installSnapshot_def Let_def bind_eq_Some_conv split: if_splits\<close>)

text \<open>Thread \<open>k\<close> goes on and node \<open>i\<close> moves.\<close>

lemma moves_proceed:
  assumes "i < n" "nodes c' = (nodes c)[i := t]" "threads c' = (threads c)[k := th] @ new"
    and "grows (entries_of c) (nodes c ! i) t" "harmless (entries_of c) [th]" "harmless (entries_of c) new"
  shows "moves n c c'"
  using assms(1,2,4-6) threads_update [of "threads c" k th] unfolding moves_def assms(3) harmless_def
  by (fastforce simp del: flying_simps(3-) snapping_simps(3-))

lemma moves_start:
  assumes "i < n" "nodes c' = (nodes c)[i := t]" "threads c' = threads c @ new"
    and "grows (entries_of c) (nodes c ! i) t" "harmless (entries_of c) new"
  shows "moves n c c'"
  using assms by (auto simp: moves_def harmless_def)

lemma moves_still:
  assumes "nodes c' = nodes c" "threads c' = threads c \<or> threads c' = (threads c)[k := Finished]"
  shows "moves n c c'"
  using assms threads_update [of "threads c" k Finished] by (auto simp: moves_def)

lemma node_entries: "i < length (nodes c) \<Longrightarrow> set (logs (nodes c ! i)) \<subseteq> entries_of c"
  unfolding entries_of_def using nth_mem by blast

lemma call_entries: "a \<in> flying (threads c) \<Longrightarrow> set (aa_entries a) \<subseteq> entries_of c"
  by (auto simp: entries_of_def)

lemma grows_mono: "grows E s t \<Longrightarrow> E \<subseteq> F \<Longrightarrow> grows F s t"
  by (auto simp: grows_def)

lemma harmless_idle [simp]:
  "harmless E []" "harmless E [Finished]" "harmless E [VoteBack src dst va r vr]" "harmless E [AppendBack src dst a r ar]"
  "harmless E [SnapshotBack src dst sa sr]" "harmless E [SnapshotCall src dst sa] \<longleftrightarrow> snapshot_ok sa"
  by (simp_all add: harmless_def)

lemma thread_step_moves:
  assumes L: "log_inv n (B, c)" and len: "length (nodes c) = n" and "k < length (threads c)"
    and step: "thread_step S now k ok (threads c ! k) c = Some c'"
  shows "moves n c c'"
proof -
  let ?E = "entries_of c"
  have core: "core (nodes c ! i)" if "i < n" for i using L that by (simp add: log_inv_def)
  note go = moves_proceed [where n = n and c = c and c' = c' and k = k]
  show ?thesis
  proof (cases "threads c ! k")
    case (VoteCall src dst a r)
    with step len obtain rp t y where x: "dst < n" "L_requestVote S now a (nodes c ! dst) = (rp, t)"
      "c' = proceed k (VoteBack src dst a r y) dst (if ok then t else nodes c ! dst) [] c"
      by (cases "L_requestVote S now a (nodes c ! dst)") (auto simp: bind_eq_Some_conv arr_get_Some split: if_splits)
    then show ?thesis using requestVote_grows [OF core [OF x(1)] x(2)] grows_refl [OF core [OF x(1)]]
      by (intro go [where i = dst]) (auto simp: proceed_def)
  next
    case (VoteBack src dst a r rpc)
    with step len obtain b num ts t where x: "src < n"
      "L_sendRequestVote S dst a (if ok then rpc else None) (voteNum c r) (nodes c ! src) = Some (b, num, ts, t)"
      "c' = (proceed k Finished src t (map (spawn src r) ts) c)\<lparr>voteNum := (voteNum c)(r := num)\<rparr>"
      by (auto simp: bind_eq_Some_conv arr_get_Some)
    then show ?thesis using sendRequestVote_grows [OF core [OF x(1)] x(2)] sendRequestVote_harmless [OF x(2)]
      by (intro go [where i = src]) (auto simp: proceed_def)
  next
    case (AppendCall src dst a r)
    have a: "a \<in> flying (threads c)" using flying_at [OF assms(3) AppendCall] .
    then have ok_a: "args_ok a" using L by (simp add: log_inv_def)
    from step AppendCall len obtain t y where x: "dst < n" "c' = proceed k (AppendBack src dst a r y) dst t [] c"
      "t = nodes c ! dst \<or> (\<exists>rp. L_appendEntries S now a (nodes c ! dst) = Ret (rp, t))"
      by (auto simp: bind_eq_Some_conv arr_get_Some split: if_splits outcome.splits)
    then have "grows ?E (nodes c ! dst) t"
      using append_grows [OF core [OF x(1)] ok_a] grows_refl [OF core [OF x(1)]] grows_mono call_entries [OF a] by blast
    then show ?thesis using x(1,2) by (intro go [where i = dst]) (auto simp: proceed_def)
  next
    case (AppendBack src dst a r rpc)
    with step len obtain b num t where x: "src < n"
      "L_sendAppendEntries S now dst a (if ok then rpc else None) (appendNum c r) (nodes c ! src) = Ret (b, num, t)"
      "c' = (proceed k Finished src t [] c)\<lparr>appendNum := (appendNum c)(r := num)\<rparr>"
      by (auto simp: bind_eq_Some_conv arr_get_Some split: outcome.splits)
    then show ?thesis using sendAppendEntries_grows [OF core [OF x(1)] x(2)]
      by (intro go [where i = src]) (auto simp: proceed_def)
  next
    case (SnapshotStart src dst)
    with step len have x: "src < n" "c' = proceed k (SnapshotCall src dst (sendSnapshot_args (nodes c ! src))) src (nodes c ! src) [] c"
      by (auto simp: bind_eq_Some_conv arr_get_Some)
    have "snapshot_ok (sendSnapshot_args (nodes c ! src))"
      using core [OF x(1)] by (simp add: snapshot_ok_def sendSnapshot_args_def core_def wf_terms_def)
    then show ?thesis using x grows_refl [OF core [OF x(1)]] by (intro go [where i = src]) (auto simp: proceed_def)
  next
    case (SnapshotCall src dst a)
    have a: "snapshot_ok a" using snapping_at [OF assms(3) SnapshotCall] L by (simp add: log_inv_def)
    show ?thesis
    proof (cases ok)
      case True
      with step SnapshotCall len obtain rp ts t where x: "dst < n" "L_installSnapshot S now a (nodes c ! dst) = Some (rp, ts, t)"
        "c' = proceed k (SnapshotBack src dst a (Some rp)) dst t (map (spawn dst 0) ts) c"
        by (auto simp: bind_eq_Some_conv arr_get_Some)
      then show ?thesis using install_grows [OF core [OF x(1)] a x(2)] install_harmless [OF core [OF x(1)] x(2)]
        by (intro go [where i = dst]) (auto simp: proceed_def)
    next
      case False
      with step SnapshotCall len have x: "dst < n" "c' = proceed k (SnapshotBack src dst a None) dst (nodes c ! dst) [] c"
        by (auto simp: bind_eq_Some_conv arr_get_Some)
      then show ?thesis using grows_refl [OF core [OF x(1)]] by (intro go [where i = dst]) (auto simp: proceed_def)
    qed
  next
    case (SnapshotBack src dst a rpc)
    with step len obtain t where x: "src < n"
      "sendSnapshot_reply S now dst a (if ok then rpc else None) (nodes c ! src) = Some t" "c' = proceed k Finished src t [] c"
      by (auto simp: bind_eq_Some_conv arr_get_Some)
    then show ?thesis using sendSnapshot_grows [OF core [OF x(1)] x(2)]
      by (intro go [where i = src]) (auto simp: proceed_def)
  next
    case (BeatThread src)
    with step len obtain ts t where x: "src < n" "L_heartBeat now (nodes c ! src) = Some (ts, t)"
      "c' = begin_round src t ts (c\<lparr>threads := (threads c)[k := Finished]\<rparr>)"
      by (auto simp: bind_eq_Some_conv arr_get_Some)
    then show ?thesis
      using heartBeat_grows [OF core [OF x(1)] x(2)] heartBeat_harmless [OF core [OF x(1)] x(2) node_entries] len
      by (intro go [where i = src]) (auto simp: begin_round_def)
  next
    case (PushThread src m)
    with step have "nodes c' = nodes c" "threads c' = (threads c)[k := Finished]" by (auto simp: bind_eq_Some_conv)
    then show ?thesis by (intro moves_still [where k = k]) simp_all
  qed (use step in simp)
qed

lemma cluster_step_moves:
  assumes L: "log_inv n (B, c)" and len: "length (nodes c) = n" and step: "cluster_step S now a c = Some c'"
  shows "moves n c c' \<or> (\<exists>i opt. i < n \<and> identity (nodes c ! i) = LEADER
    \<and> c' = c\<lparr>nodes := (nodes c)[i := snd (raft_execute S opt (nodes c ! i))]\<rparr>)"
proof -
  have core: "core (nodes c ! i)" if "i < n" for i using L that by (simp add: log_inv_def)
  note go = disjI1 [OF moves_start [where n = n and c = c and c' = c']]
  show ?thesis
  proof (cases a)
    case (Elect i)
    obtain ts t where x: "L_stand4Election S now (nodes c ! i) = (ts, t)" by fastforce
    with step Elect len have "i < n" "c' = begin_round i t ts c" by (auto simp: bind_eq_Some_conv arr_get_Some)
    then show ?thesis using stand_grows [OF core x] stand_harmless [OF x]
      by (intro go [of i]) (auto simp: begin_round_def)
  next
    case (Tick i)
    with step len obtain ts t where x: "i < n" "L_heartBeat now (nodes c ! i) = Some (ts, t)" "c' = begin_round i t ts c"
      by (auto simp: bind_eq_Some_conv arr_get_Some)
    then show ?thesis
      using heartBeat_grows [OF core [OF x(1)] x(2)] heartBeat_harmless [OF core [OF x(1)] x(2) node_entries] len
      by (intro go [of i]) (auto simp: begin_round_def)
  next
    case (Execute i opt)
    with step len have x: "i < n" "c' = c\<lparr>nodes := (nodes c)[i := snd (raft_execute S opt (nodes c ! i))]\<rparr>"
      by (auto simp: bind_eq_Some_conv arr_get_Some)
    show ?thesis
    proof (cases "identity (nodes c ! i) = LEADER")
      case True
      with x show ?thesis by blast
    next
      case False
      then have "snd (raft_execute S opt (nodes c ! i)) = nodes c ! i" by (simp add: raft_execute_def)
      then show ?thesis using x grows_refl [OF core [OF x(1)]] by (intro go [of i _ "[]"]) auto
    qed
  next
    case (TakeSnapshot i index shot)
    with step len obtain b t where x: "i < n" "raft_persist S index shot (nodes c ! i) = Some (b, t)"
      "c' = c\<lparr>nodes := (nodes c)[i := t]\<rparr>" by (auto simp: bind_eq_Some_conv arr_get_Some)
    then show ?thesis using persist_grows [OF core [OF x(1)] x(2)] by (intro go [of i _ "[]"]) auto
  next
    case (ApplyMsgs i)
    with step len obtain ms t where x: "i < n" "M_getApplyMessages (nodes c ! i) = Ret (ms, t)"
      "c' = c\<lparr>nodes := (nodes c)[i := t], applying := (applying c)[i := ms]\<rparr>"
      by (auto simp: bind_eq_Some_conv arr_get_Some split: outcome.splits if_splits)
    then show ?thesis using applier_grows [OF core [OF x(1)] x(2)] by (intro go [of i _ "[]"]) auto
  next
    case (PushMsg i)
    with step obtain ms q where "c' = c\<lparr>applying := ms, chans := q\<rparr>"
      by (auto simp: bind_eq_Some_conv neq_Nil_conv split: list.splits)
    then show ?thesis by (intro disjI1 moves_still) simp_all
  next
    case (TakeMsg i)
    with step obtain q where "c' = c\<lparr>chans := q\<rparr>" by (auto simp: bind_eq_Some_conv)
    then show ?thesis by (intro disjI1 moves_still) simp_all
  next
    case (RunThread k ok)
    with step have "k < length (threads c)" "thread_step S now k ok (threads c ! k) c = Some c'"
      by (auto simp: bind_eq_Some_conv arr_get_Some)
    then show ?thesis by (intro disjI1 thread_step_moves [OF L len])
  qed
qed

lemma log_cluster_step:
  assumes "log_inv n (B, c)" "election_inv n (B, c)" "B \<subseteq> B'" "cluster_step S now a c = Some c'"
  shows "log_inv n (B', c')"
  using cluster_step_moves [OF assms(1) inv_length [OF assms(2)] assms(4)]
proof (elim disjE exE conjE)
  assume "moves n c c'"
  then show ?thesis by (rule log_inv_moves [OF assms(1) inv_length [OF assms(2)] _ assms(3)])
next
  fix i opt assume x: "i < n" "identity (nodes c ! i) = LEADER"
    "c' = c\<lparr>nodes := (nodes c)[i := snd (raft_execute S opt (nodes c ! i))]\<rparr>"
  show ?thesis by (rule log_inv_execute [OF assms(1,2) x(1,2) _ _ assms(3)]) (simp_all add: x(3))
qed

text \<open>No log gets shorter.\<close>

lemma cluster_step_last:
  assumes "log_inv n (B, c)" "length (nodes c) = n" "cluster_step S now a c = Some c'" "j < n"
  shows "M_getLastLogIndex (nodes c ! j) \<le> M_getLastLogIndex (nodes c' ! j)"
  using cluster_step_moves [OF assms(1-3)]
proof (elim disjE exE conjE)
  assume "moves n c c'"
  then show ?thesis by (rule moves_last [OF _ assms(2,4)])
next
  fix i opt assume "i < n" "c' = c\<lparr>nodes := (nodes c)[i := snd (raft_execute S opt (nodes c ! i))]\<rparr>"
  then show ?thesis
    using execute_log [of S opt "nodes c ! i"] assms(2,4) by (cases "i = j") (auto split: if_splits)
qed

lemma log_start: "history_start S n h \<Longrightarrow> log_inv n h"
proof -
  assume "history_start S n h"
  then obtain c where h: "h = ({}, c)" "length (nodes c) = n" "\<forall>i < n. node_start S n i (nodes c ! i)" "threads c = []"
    by (cases h) (auto simp: history_start_def cluster_start_def)
  then have "logs s = []" if "s \<in> set (nodes c)" for s
    using that node_start_fields(8) by (metis in_set_conv_nth)
  then have "entries_of c = {}" by (auto simp: entries_of_def h(4))
  moreover have "core (nodes c ! i)" if "i < n" for i using h(3) that node_start_fields(1) node_inv_core by blast
  ultimately show ?thesis by (simp add: log_inv_def h(1,4) determined_def)
qed

interpretation agreed: step_invariant "history_start S n" "history_step S" "\<lambda>h. election_inv n h \<and> log_inv n h" for S n
proof
  fix h h' assume I: "election_inv n h \<and> log_inv n h" and H: "history_step S h h'"
  obtain B c where h: "h = (B, c)" by fastforce
  obtain now a where a: "cluster_step S now a c = Some (snd h')" "fst h' = B \<union> votes_of (snd h')"
    using H h by (auto simp: history_step_def elim: cstepE)
  have "log_inv n (fst h', snd h')" by (rule log_cluster_step [OF _ _ _ a(1)]) (use I h a(2) in auto)
  with votes.step_inv [of n h S h'] I H show "election_inv n h' \<and> log_inv n h'" by simp
qed (simp add: log_start history_start_inv)

lemma cluster_log_inv:
  assumes "cluster_start S n c0" "(cstep S)\<^sup>*\<^sup>* c0 c"
  shows "\<exists>B. election_inv n (B, c) \<and> log_inv n (B, c)"
  using run_has_history [OF assms(2), of "{}"] agreed.reach_inv [of S n "({}, c0)"] assms(1)
  by (auto simp: history_start_def)

lemma append_returns:
  assumes "core s" "args_ok a" "determined (set (logs s) \<union> set (aa_entries a))"
  shows "\<exists>r t. L_appendEntries S now a s = Ret (r, t)"
proof (cases "aa_term a < cur_term s")
  case True
  then show ?thesis by (simp add: L_appendEntries_def)
next
  case False
  let ?s = "follower s"
  have I: "node_inv ?s" using assms(1) by (simp add: core_follower)
  have w: "wf_log s" using assms(1) by (simp add: core_def)
  have "\<exists>r t. L_appendEntries S now a ?s = Ret (r, t)"
  proof (cases "accepts a ?s")
    case acc: True
    have "\<not> conflicts (logs ?s) (base a ?s) (aa_entries a)"
    proof
      assume "conflicts (logs ?s) (base a ?s) (aa_entries a)"
      then obtain j where j: "j < length (aa_entries a)" "base a ?s + j < length (logs s)"
        "clash (logs s ! (base a ?s + j)) (aa_entries a ! j)" by (auto simp: conflicts_def)
      have "entry_index (logs s ! (base a ?s + j)) = lastSnapshotIndex s + 1 + int (base a ?s + j)"
        using w j(2) by (simp add: wf_log_def)
      also have "\<dots> = aa_prev_log_index a + 1 + int j" using acc by (simp add: base_def accepts_def)
      also have "\<dots> = entry_index (aa_entries a ! j)" using assms(2) j(1) by (simp add: args_ok_def)
      finally have "logs s ! (base a ?s + j) = aa_entries a ! j"
        using assms(3) j by (auto simp: determined_def clash_def)
      with j(3) show False by (simp add: clash_def)
    qed
    then show ?thesis using L_appendEntries_accept [OF I assms(2) acc, of S now] by simp
  next
    case False
    then show ?thesis using L_appendEntries_reject [OF I False, of S now] by blast
  qed
  then show ?thesis using append_role [OF False] by simp
qed

end
