(* ===== verification/ClusterProps.thy ===== *)
theory ClusterProps
  imports LogIdentity RaftDemo
begin

text \<open>
  What holds of a whole cluster: election safety for every run, and one run that shows that
  logs can diverge: a committed and applied entry is replaced at another leader.
\<close>

section \<open>A freshly started cluster\<close>

definition boot :: "serial \<Rightarrow> nat \<Rightarrow> nat \<Rightarrow> raft_state" where
  "boot S n i = (case raft_ctor S 0 (int i) (persister_ctor Map.empty (\<lambda>_. True) i) n of
     Ret s \<Rightarrow> s | _ \<Rightarrow> undefined)"

definition boot_cluster :: "serial \<Rightarrow> nat \<Rightarrow> cluster" where
  "boot_cluster S n = \<lparr>nodes = map (boot S n) [0..<n], applying = replicate n [],
     chans = replicate n [], threads = [],
     voteNum = (\<lambda>_. 0), appendNum = (\<lambda>_. 0), rounds = 0\<rparr>"

lemma boot_start: "i < n \<Longrightarrow> node_start S n i (boot S n i)"
proof -
  assume "i < n"
  moreover obtain s where s: "raft_ctor S 0 (int i) (persister_ctor Map.empty (\<lambda>_. True) i) n = Ret s"
    using raft_ctor_fresh [of "\<lambda>_. True" i S 0 "int i" Map.empty n] by metis
  moreover have "(\<lambda>_ :: string. True) (state_path i) \<and> (\<lambda>_ :: string. True) (snapshot_path i)" by simp
  ultimately show ?thesis unfolding node_start_def boot_def by (metis outcome.case(1))
qed

lemma boot_cluster_start: "cluster_start S n (boot_cluster S n)"
  by (simp add: cluster_start_def boot_cluster_def boot_start)

text \<open>Node 0 is elected in a cluster of three.\<close>

definition first_election :: "(int \<times> action) list" where
  "first_election = [(1, Elect 0), (2, RunThread 0 True), (3, RunThread 0 True)]"

lemma first_election_run:
  "\<exists>c. run_schedule demo_serial first_election (boot_cluster demo_serial 3) = Some c
     \<and> map identity (nodes c) = [LEADER, FOLLOWER, FOLLOWER] \<and> map cur_term (nodes c) = [1, 1, 0]"
proof -
  have "map_option (\<lambda>c. (map identity (nodes c), map cur_term (nodes c)))
      (run_schedule demo_serial first_election (boot_cluster demo_serial 3))
      = Some ([LEADER, FOLLOWER, FOLLOWER], [1, 1, 0])" by code_simp
  then show ?thesis by auto
qed

section \<open>Properties\<close>

text \<open>
  C1. Election safety. In every run of a cluster whose nodes start with new files, whatever
  is delivered, lost or delayed and whenever timeouts fire, two leaders of the same term
  are the same node.
\<close>
theorem election_safety:
  assumes "cluster_start S n c0" "(cstep S)\<^sup>*\<^sup>* c0 c" "i < n" "j < n"
    and "identity (nodes c ! i) = LEADER" "identity (nodes c ! j) = LEADER"
    and "cur_term (nodes c ! i) = cur_term (nodes c ! j)"
  shows "i = j"
  using cluster_run_inv [OF assms(1,2)] election_inv_unique assms(3-7) by blast

theorem election_safety_witness:
  "\<exists>c. (cstep demo_serial)\<^sup>*\<^sup>* (boot_cluster demo_serial 3) c \<and> identity (nodes c ! 0) = LEADER
    \<and> (\<forall>j < 3. identity (nodes c ! j) = LEADER \<and> cur_term (nodes c ! j) = 1 \<longrightarrow> j = 0)"
proof -
  obtain c where c: "run_schedule demo_serial first_election (boot_cluster demo_serial 3) = Some c"
    "map identity (nodes c) = [LEADER, FOLLOWER, FOLLOWER]" "map cur_term (nodes c) = [1, 1, 0]"
    using first_election_run by (elim exE conjE) (rule that)
  have "length (nodes c) = 3" using arg_cong [OF c(2), of length] by simp
  then have "identity (nodes c ! 0) = map identity (nodes c) ! 0" "cur_term (nodes c ! 0) = map cur_term (nodes c) ! 0"
    by (simp_all add: nth_map del: list.map)
  then have "identity (nodes c ! 0) = LEADER" "cur_term (nodes c ! 0) = 1" unfolding c(2,3) by simp_all
  moreover have "j = 0" if "j < 3" "identity (nodes c ! j) = LEADER" "cur_term (nodes c ! j) = 1" for j
  proof (rule election_safety)
    show "cluster_start demo_serial 3 (boot_cluster demo_serial 3)" by (rule boot_cluster_start)
    show "(cstep demo_serial)\<^sup>*\<^sup>* (boot_cluster demo_serial 3) c" by (rule run_schedule_reaches [OF c(1)])
  qed (simp_all add: that calculation)
  ultimately show ?thesis using run_schedule_reaches [OF c(1)] by blast
qed

text \<open>
  The run that diverges, in a cluster of five. Node 0 leads term 1 and sends three entries to
  node 3 only. Node 1 leads term 2 and replaces the first entry on nodes 0 and 2, which
  commits it, but node 0 keeps the two old entries behind it. Those make node 0 take node
  3's log for up to date, node 3 leads term 3 and commits its own first entry.
\<close>

definition put_value :: "string \<Rightarrow> op" where
  "put_value v = \<lparr>operation = Put, okey = ''k'', ovalue = v, oclientId = ''c'', orequestId = 1\<rparr>"

definition both :: "nat \<Rightarrow> action list" where
  "both k = [RunThread k True, RunThread k True]"

definition divergent_schedule :: "(int \<times> action) list" where
  "divergent_schedule = map (Pair 0)
    ([Elect 0] @ both 2 @ both 3 @
     [Execute 0 (put_value ''x''), Execute 0 (put_value ''y''), Execute 0 (put_value ''z''), Tick 0,
      RunThread 7 True, Elect 1, Elect 1] @ both 14 @ both 16 @
     [Execute 1 (put_value ''u''), Tick 1] @ both 18 @ both 19 @
     [ApplyMsgs 1, Elect 3, Elect 3] @ both 26 @ both 29 @
     [Execute 3 (put_value ''w''), Tick 3] @ both 31 @ both 34 @ [Tick 3] @ both 35 @ both 38 @
     [ApplyMsgs 3])"

definition first_entries :: "cluster \<Rightarrow> (int \<times> int option) list" where
  "first_entries c = map (\<lambda>s. (appliedIndex s, map_option entry_term (entry_at s 1))) (nodes c)"

lemma divergent_run:
  "map_option first_entries (run_schedule demo_serial divergent_schedule (boot_cluster demo_serial 5))
     = Some [(0, Some 2), (1, Some 2), (0, Some 2), (4, Some 1), (0, Some 1)]"
  by code_simp


text \<open>
  C7. Entry identity. In every run of a cluster, wherever two logs have entries of the same
  term at the same index, the entries are the same, commands included. So a call to append
  entries never meets the conflict for which the code throws: every one on its way returns,
  whenever it is delivered. And every log is contiguous above its snapshot, with the applied
  and the committed index inside it.
\<close>
theorem entries_agree:
  assumes "cluster_start S n c0" "(cstep S)\<^sup>*\<^sup>* c0 c"
  shows "(\<forall>i < n. \<forall>j < n. \<forall>x e f. entry_at (nodes c ! i) x = Some e \<and> entry_at (nodes c ! j) x = Some f
      \<and> entry_term e = entry_term f \<longrightarrow> e = f)
    \<and> (\<forall>src dst a r now. AppendCall src dst a r \<in> set (threads c) \<and> dst < n \<longrightarrow>
        (\<exists>reply t. L_appendEntries S now a (nodes c ! dst) = Ret (reply, t)))
    \<and> (\<forall>i < n. wf_log (nodes c ! i) \<and> wf_progress (nodes c ! i))"
proof -
  obtain B where I: "election_inv n (B, c)" "log_inv n (B, c)" using cluster_log_inv [OF assms] by blast
  have len: "length (nodes c) = n" by (rule inv_length [OF I(1)])
  have core: "core (nodes c ! i)" if "i < n" for i using I(2) that by (simp add: log_inv_def)
  have det: "determined (entries_of c)" and args: "\<And>a. a \<in> flying (threads c) \<Longrightarrow> args_ok a"
    using I(2) by (auto simp: log_inv_def)
  have at: "e \<in> entries_of c \<and> entry_index e = x" if "i < n" "entry_at (nodes c ! i) x = Some e" for i x e
  proof -
    have "wf_log (nodes c ! i)" using core [OF that(1)] by (simp add: core_def)
    then have "entry_index e = x" using that(2) by (auto simp: entry_at_def wf_log_def split: if_splits)
    then show ?thesis using node_entries [of i c] entry_at_in [OF that(2)] that(1) len by blast
  qed
  have "\<exists>reply t. L_appendEntries S now a (nodes c ! dst) = Ret (reply, t)"
    if "AppendCall src dst a r \<in> set (threads c)" "dst < n" for src dst a r now
  proof (rule append_returns [OF core [OF that(2)]])
    have a: "a \<in> flying (threads c)" using that(1) by (auto simp: flying_def)
    then show "args_ok a" by (rule args)
    have "set (logs (nodes c ! dst)) \<union> set (aa_entries a) \<subseteq> entries_of c"
      using call_entries [OF a] node_entries [of dst c] that(2) len by simp
    with det show "determined (set (logs (nodes c ! dst)) \<union> set (aa_entries a))" unfolding determined_def by blast
  qed
  moreover have "e = f" if "i < n" "j < n" "entry_at (nodes c ! i) x = Some e" "entry_at (nodes c ! j) x = Some f"
    "entry_term e = entry_term f" for i j x e f
    using at [OF that(1,3)] at [OF that(2,4)] det that(5) by (auto simp: determined_def)
  moreover have "wf_log (nodes c ! i) \<and> wf_progress (nodes c ! i)" if "i < n" for i
    using core [OF that] by (simp add: core_def)
  ultimately show ?thesis by blast
qed

text \<open>In the divergent run, nodes 1 and 2 have the same entry of term 2 at index 1.\<close>

theorem entries_agree_witness:
  "\<exists>c e. (cstep demo_serial)\<^sup>*\<^sup>* (boot_cluster demo_serial 5) c \<and> entry_at (nodes c ! 1) 1 = Some e
    \<and> entry_at (nodes c ! 2) 1 = Some e \<and> entry_term e = 2"
proof -
  obtain c where c: "run_schedule demo_serial divergent_schedule (boot_cluster demo_serial 5) = Some c"
    "first_entries c = [(0, Some 2), (1, Some 2), (0, Some 2), (4, Some 1), (0, Some 1)]"
    using divergent_run by auto
  have "length (nodes c) = 5" using arg_cong [OF c(2), of length] by (simp add: first_entries_def)
  then have "(appliedIndex (nodes c ! k), map_option entry_term (entry_at (nodes c ! k) 1)) = first_entries c ! k"
    if "k < 5" for k using that by (simp add: first_entries_def)
  from this [of 1] this [of 2] obtain e f where e: "entry_at (nodes c ! 1) 1 = Some e" "entry_term e = 2"
    "entry_at (nodes c ! 2) 1 = Some f" "entry_term f = 2" using c(2) by auto
  have r: "(cstep demo_serial)\<^sup>*\<^sup>* (boot_cluster demo_serial 5) c" by (rule run_schedule_reaches [OF c(1)])
  have "(1 :: nat) < 5" "(2 :: nat) < 5" "entry_term e = entry_term f" using e(2,4) by simp_all
  with entries_agree [OF boot_cluster_start r] e(1,3) have "e = f" by blast
  with r e show ?thesis by blast
qed

end
