(* ===== verification/Config.thy ===== *)
theory Config
  imports Persister "HOL-Library.Word"
begin

text \<open>
  \<open>src/rpc/mprpcConfig.cpp\<close> and the loop with which the server and the clerk read the
  addresses of the nodes from it. The file is its content; a failing \<open>fopen\<close> ends the
  process and is not modelled.
\<close>

section \<open>Reading the file\<close>

text \<open>\<open>fgets(buf, 512, pf)\<close>: at most 511 characters, the line break included.\<close>

fun fgets_loop :: "nat \<Rightarrow> string \<Rightarrow> string \<times> string" where
  "fgets_loop 0 s = ([], s)"
| "fgets_loop (Suc n) [] = ([], [])"
| "fgets_loop (Suc n) (c # s) =
     (if c = CHR 0x0A then ([c], s) else let (l, r) = fgets_loop n s in (c # l, r))"

definition fgets :: "string \<Rightarrow> string \<times> string" where
  "fgets s = fgets_loop 511 s"

text \<open>A string made from a buffer ends at the first NUL.\<close>

definition c_string :: "string \<Rightarrow> string" where
  "c_string s = takeWhile (\<lambda>c. c \<noteq> CHR 0x00) s"

section \<open>The table\<close>

type_synonym config = "string \<Rightarrow> string option"

text \<open>A string of blanks only is left as it is: both searches return \<open>npos\<close>.\<close>

definition M_trim :: "string \<Rightarrow> string" where
  "M_trim src =
     (let blank = (\<lambda>c. c = CHR '' '');
          src = (if \<exists>c \<in> set src. \<not> blank c then rev (dropWhile blank (rev src)) else src)
      in if \<exists>c \<in> set src. \<not> blank c then dropWhile blank src else src)"

text \<open>\<open>unordered_map::insert\<close> does not overwrite.\<close>

definition insert_new :: "'k \<Rightarrow> 'v \<Rightarrow> ('k \<Rightarrow> 'v option) \<Rightarrow> 'k \<Rightarrow> 'v option" where
  "insert_new k v m = (if m k = None then m(k \<mapsto> v) else m)"

definition load_line :: "string \<Rightarrow> config \<Rightarrow> config" where
  "load_line buf cfg =
     (let data = M_trim (c_string buf) in
      if data = [] \<or> hd data = CHR ''#'' then cfg
      else if CHR ''='' \<notin> set data then cfg
      else let key = takeWhile (\<lambda>c. c \<noteq> CHR ''='') data;
               val = tl (dropWhile (\<lambda>c. c \<noteq> CHR ''='') data)
           in insert_new (M_trim key) (M_trim val) cfg)"

lemma fgets_loop_le: "length (snd (fgets_loop n s)) \<le> length s"
  by (induction n s rule: fgets_loop.induct) (auto simp: case_prod_beta)

lemma fgets_length: "s \<noteq> [] \<Longrightarrow> length (snd (fgets s)) < length s"
proof -
  assume "s \<noteq> []"
  then obtain c r where s: "s = c # r" by (cases s) auto
  show ?thesis using fgets_loop_le [of 510 r]
    by (simp add: s fgets_def eval_nat_numeral case_prod_beta)
qed

function load_config :: "string \<Rightarrow> config \<Rightarrow> config" where
  "load_config s cfg =
     (if s = [] then cfg else load_config (snd (fgets s)) (load_line (fst (fgets s)) cfg))"
  by pat_completeness auto
termination
  by (relation "measure (\<lambda>(s, cfg). length s)") (auto intro: fgets_length)

declare load_config.simps [simp del]

definition config_value :: "config \<Rightarrow> string \<Rightarrow> string" where
  "config_value cfg key = (case cfg key of None \<Rightarrow> [] | Some v \<Rightarrow> v)"

section \<open>The addresses of the nodes\<close>

text \<open>\<open>atoi\<close>: white space, a sign, digits; its result is cut to a 16-bit port.\<close>

definition digit :: "char \<Rightarrow> nat" where
  "digit c = of_char c - 48"

definition is_digit :: "char \<Rightarrow> bool" where
  "is_digit c = (48 \<le> (of_char c :: nat) \<and> (of_char c :: nat) \<le> 57)"

definition digits_value :: "string \<Rightarrow> int" where
  "digits_value s = foldl (\<lambda>a c. 10 * a + int (digit c)) 0 (takeWhile is_digit s)"

definition atoi :: "string \<Rightarrow> int" where
  "atoi s = (case dropWhile is_space s of
       [] \<Rightarrow> 0
     | c # r \<Rightarrow> if c = CHR ''-'' then - digits_value r
         else if c = CHR ''+'' then digits_value r else digits_value (c # r))"

definition node_key :: "nat \<Rightarrow> string \<Rightarrow> string" where
  "node_key i what = ''node'' @ dec_digits i @ what"

function read_nodes :: "config \<Rightarrow> nat \<Rightarrow> (string \<times> 16 word) list" where
  "read_nodes cfg i =
     (if i < 65535 then
        let addr = config_value cfg (node_key i ''ip'') in
        if addr = [] then []
        else (addr, word_of_int (atoi (config_value cfg (node_key i ''port''))))
          # read_nodes cfg (Suc i)
      else [])"
  by pat_completeness auto
termination
  by (relation "measure (\<lambda>(cfg, i). 65535 - i)") auto

declare read_nodes.simps [simp del]

section \<open>One line\<close>

lemma dec_digits_chars: "set (dec_digits n) \<subseteq> set ''0123456789''"
proof (induction n rule: dec_digits.induct)
  case (1 n)
  have "''0123456789'' ! k \<in> set ''0123456789''" if "k < 10" for k
    using that by (intro nth_mem) simp
  with 1 show ?case by (subst dec_digits.simps) auto
qed

lemma dec_digits_nonempty: "dec_digits n \<noteq> []"
  by (simp add: dec_digits.simps [of n])

lemma dec_digits_short: "n < 10 ^ Suc k \<Longrightarrow> length (dec_digits n) \<le> Suc k"
proof (induction k arbitrary: n)
  case (Suc k)
  have "n div 10 < 10 ^ Suc k" using Suc.prems by (simp add: less_mult_imp_div_less mult.commute)
  from Suc.IH [OF this] show ?case by (subst dec_digits.simps) auto
qed (simp add: dec_digits.simps)

lemma digit_char: "d < 10 \<Longrightarrow> is_digit (''0123456789'' ! d) \<and> digit (''0123456789'' ! d) = d"
proof -
  assume "d < 10"
  then have "d \<in> {0, 1, 2, 3, 4, 5, 6, 7, 8, 9}" by auto
  then show ?thesis by (auto simp: is_digit_def digit_def)
qed

lemma dec_digits_value:
  "takeWhile is_digit (dec_digits n) = dec_digits n
     \<and> foldl (\<lambda>a c. 10 * a + int (digit c)) 0 (dec_digits n) = int n"
proof (induction n rule: dec_digits.induct)
  case (1 n)
  show ?case
  proof (cases "n < 10")
    case True
    then show ?thesis using digit_char [of n] by (simp add: dec_digits.simps)
  next
    case False
    have all: "\<forall>c \<in> set (dec_digits (n div 10)). is_digit c"
      using 1 [OF False] by (metis set_takeWhileD)
    have "10 * int (n div 10) + int (n mod 10) = int n"
      by (metis mult_div_mod_eq of_nat_add of_nat_mult of_nat_numeral)
    with 1 [OF False] False all show ?thesis using digit_char [of "n mod 10"]
      by (subst (1 2 3) dec_digits.simps) (simp add: takeWhile_append2)
  qed
qed

lemma atoi_dec: "atoi (dec_digits n @ [CHR 0x0A]) = int n"
proof -
  obtain c r where d: "dec_digits n = c # r" using dec_digits_nonempty by (meson neq_Nil_conv)
  have c: "c \<in> set ''0123456789''" using dec_digits_chars [of n] d by auto
  have "\<forall>c \<in> set (dec_digits n). is_digit c"
    using dec_digits_value [of n] by (metis set_takeWhileD)
  then have "takeWhile is_digit (dec_digits n @ [CHR 0x0A]) = dec_digits n"
    by (simp add: takeWhile_append is_digit_def)
  then show ?thesis using c dec_digits_value [of n]
    by (auto simp: atoi_def d is_space_def digits_value_def)
qed

lemma trim_id: "s = [] \<or> hd s \<noteq> CHR '' '' \<and> last s \<noteq> CHR '' '' \<Longrightarrow> M_trim s = s"
proof (cases "s = []")
  case False
  assume "s = [] \<or> hd s \<noteq> CHR '' '' \<and> last s \<noteq> CHR '' ''"
  with False have h: "hd s \<noteq> CHR '' ''" and l: "hd (rev s) \<noteq> CHR '' ''" by (simp_all add: hd_rev)
  have id: "dropWhile (\<lambda>c. c = CHR '' '') xs = xs" if "hd xs \<noteq> CHR '' ''" for xs
    using that by (cases xs) auto
  show ?thesis using id [OF h] id [OF l] by (simp add: M_trim_def Let_def)
qed (simp add: M_trim_def)

lemma load_line_break:
  assumes "length l < 511" "CHR 0x0A \<notin> set l"
  shows "load_config (l @ CHR 0x0A # rest) cfg = load_config rest (load_line (l @ [CHR 0x0A]) cfg)"
proof -
  have "fgets_loop n (l @ CHR 0x0A # rest) = (l @ [CHR 0x0A], rest)" if "length l < n" for n
    using that assms(2)
  proof (induction l arbitrary: n)
    case Nil
    then show ?case by (cases n) auto
  next
    case (Cons c l)
    then show ?case by (cases n) auto
  qed
  with assms(1) have "fgets (l @ CHR 0x0A # rest) = (l @ [CHR 0x0A], rest)" by (simp add: fgets_def)
  then show ?thesis by (subst load_config.simps) simp
qed

text \<open>A line \<open>key=value\<close> without blanks at its edges.\<close>

definition plain :: "string \<Rightarrow> bool" where
  "plain s \<longleftrightarrow> (\<forall>c \<in> set s. c \<notin> {CHR 0x00, CHR 0x0A, CHR '' ''})"

lemma load_line_pair:
  assumes "plain k" "CHR ''='' \<notin> set k" "k \<noteq> []" "hd k \<noteq> CHR ''#''" "plain v"
  shows "load_line (k @ CHR ''='' # v @ [CHR 0x0A]) cfg = insert_new k (v @ [CHR 0x0A]) cfg"
proof -
  let ?l = "k @ CHR ''='' # v @ [CHR 0x0A]"
  have "c_string ?l = ?l"
    using assms(1,5) by (auto simp: c_string_def plain_def takeWhile_eq_all_conv)
  moreover have "M_trim ?l = ?l"
    using assms(1,3) by (intro trim_id) (auto simp: plain_def neq_Nil_conv)
  moreover have "takeWhile (\<lambda>c. c \<noteq> CHR ''='') ?l = k"
    "tl (dropWhile (\<lambda>c. c \<noteq> CHR ''='') ?l) = v @ [CHR 0x0A]"
    using assms(2) by (auto simp: takeWhile_append dropWhile_append)
  moreover have "M_trim k = k" using assms(1,3) by (intro trim_id) (auto simp: plain_def)
  moreover have "M_trim (v @ [CHR 0x0A]) = v @ [CHR 0x0A]"
    using assms(5) by (intro trim_id) (cases v; auto simp: plain_def)
  ultimately show ?thesis using assms(3,4) by (simp add: load_line_def Let_def)
qed

section \<open>The node table\<close>

text \<open>The file the server expects: two lines for every node.\<close>

definition node_line :: "nat \<Rightarrow> string \<Rightarrow> string \<Rightarrow> string" where
  "node_line i what v = node_key i what @ CHR ''='' # v @ [CHR 0x0A]"

primrec nodes_text :: "nat \<Rightarrow> (string \<times> nat) list \<Rightarrow> string" where
  "nodes_text i [] = []"
| "nodes_text i (n # ns) =
     node_line i ''ip'' (fst n) @ node_line i ''port'' (dec_digits (snd n)) @ nodes_text (Suc i) ns"

definition nodes_cfg :: "nat \<Rightarrow> (string \<times> nat) list \<Rightarrow> config \<Rightarrow> bool" where
  "nodes_cfg i ns cfg \<longleftrightarrow> (\<forall>j < length ns.
     cfg (node_key (i + j) ''ip'') = Some (fst (ns ! j) @ [CHR 0x0A])
     \<and> cfg (node_key (i + j) ''port'') = Some (dec_digits (snd (ns ! j)) @ [CHR 0x0A]))"

lemma node_key_inj:
  "w \<in> {''ip'', ''port''} \<Longrightarrow> w' \<in> {''ip'', ''port''} \<Longrightarrow>
     node_key i w = node_key j w' \<longleftrightarrow> i = j \<and> w = w'"
proof -
  have "False" if "dec_digits i @ ''ip'' = dec_digits j @ ''port''" for i j
    using arg_cong [OF that, of last] by simp
  then show "w \<in> {''ip'', ''port''} \<Longrightarrow> w' \<in> {''ip'', ''port''} \<Longrightarrow> ?thesis"
    using dec_digits_inj by (fastforce simp: node_key_def)
qed

lemma node_key_plain:
  "w \<in> {''ip'', ''port''} \<Longrightarrow> plain (node_key i w) \<and> CHR ''='' \<notin> set (node_key i w)
     \<and> node_key i w \<noteq> [] \<and> hd (node_key i w) \<noteq> CHR ''#''"
  using dec_digits_chars [of i] by (auto simp: node_key_def plain_def)

lemma load_node_line:
  assumes "w \<in> {''ip'', ''port''}" "i < 10 ^ 5" "plain v" "length v < 400"
  shows "load_config (node_line i w v @ rest) cfg
     = load_config rest (insert_new (node_key i w) (v @ [CHR 0x0A]) cfg)"
proof -
  let ?l = "node_key i w @ CHR ''='' # v"
  have "length (node_key i w) \<le> 13"
    using dec_digits_short [of i 4] assms(1,2) by (auto simp: node_key_def)
  then have "length ?l < 511" using assms(4) by simp
  moreover have "CHR 0x0A \<notin> set ?l"
    using node_key_plain [OF assms(1), of i] assms(3) by (auto simp: plain_def)
  ultimately have "load_config (?l @ CHR 0x0A # rest) cfg = load_config rest (load_line (?l @ [CHR 0x0A]) cfg)"
    by (rule load_line_break)
  then show ?thesis
    using load_line_pair [of "node_key i w" v cfg] node_key_plain [OF assms(1), of i] assms(3)
    by (simp add: node_line_def)
qed

definition good_nodes :: "(string \<times> nat) list \<Rightarrow> bool" where
  "good_nodes ns \<longleftrightarrow> (\<forall>n \<in> set ns. plain (fst n) \<and> length (fst n) < 400 \<and> snd n < 2 ^ 16)"

definition unset :: "nat \<Rightarrow> config \<Rightarrow> bool" where
  "unset i cfg \<longleftrightarrow> (\<forall>j \<ge> i. cfg (node_key j ''ip'') = None \<and> cfg (node_key j ''port'') = None)"

lemma load_nodes_text:
  assumes "good_nodes ns" "i + length ns < 65535" "unset i cfg"
  shows "nodes_cfg i ns (load_config (nodes_text i ns) cfg)
     \<and> unset (i + length ns) (load_config (nodes_text i ns) cfg)
     \<and> (\<forall>k v. cfg k = Some v \<longrightarrow> load_config (nodes_text i ns) cfg k = Some v)"
  using assms
proof (induction ns arbitrary: i cfg)
  case Nil
  then show ?case by (simp add: nodes_cfg_def load_config.simps)
next
  case (Cons n ns)
  define c1 where "c1 = insert_new (node_key i ''ip'') (fst n @ [CHR 0x0A]) cfg"
  define c2 where "c2 = insert_new (node_key i ''port'') (dec_digits (snd n) @ [CHR 0x0A]) c1"
  have "plain (dec_digits (snd n))" using dec_digits_chars [of "snd n"] by (auto simp: plain_def)
  moreover have "length (dec_digits (snd n)) \<le> 5"
    using Cons.prems(1) dec_digits_short [of "snd n" 4] by (auto simp: good_nodes_def)
  moreover have "plain (fst n)" "length (fst n) < 400" using Cons.prems(1) by (auto simp: good_nodes_def)
  ultimately have load: "load_config (nodes_text i (n # ns)) cfg = load_config (nodes_text (Suc i) ns) c2"
    using Cons.prems(2) by (simp add: load_node_line c1_def c2_def)
  have c2: "c2 = cfg(node_key i ''ip'' \<mapsto> fst n @ [CHR 0x0A], node_key i ''port'' \<mapsto> dec_digits (snd n) @ [CHR 0x0A])"
    using Cons.prems(3) by (simp add: c1_def c2_def insert_new_def unset_def node_key_inj)
  then have "unset (Suc i) c2" using Cons.prems(3) by (simp add: unset_def node_key_inj)
  with Cons.IH [of "Suc i" c2] Cons.prems have IH: "nodes_cfg (Suc i) ns (load_config (nodes_text (Suc i) ns) c2)
     \<and> unset (Suc i + length ns) (load_config (nodes_text (Suc i) ns) c2)
     \<and> (\<forall>k v. c2 k = Some v \<longrightarrow> load_config (nodes_text (Suc i) ns) c2 k = Some v)"
    by (simp add: good_nodes_def)
  have "c2 k = Some v" if "cfg k = Some v" for k v
    using that Cons.prems(3) by (auto simp: c2 unset_def)
  with IH show ?case
    unfolding load by (auto simp: nodes_cfg_def c2 node_key_inj less_Suc_eq_0_disj)
qed

lemma read_nodes_cfg:
  assumes "nodes_cfg i ns cfg" "i + length ns < 65535" "unset (i + length ns) cfg"
  shows "read_nodes cfg i = map (\<lambda>(a, p). (a @ [CHR 0x0A], of_nat p)) ns"
  using assms
proof (induction ns arbitrary: i)
  case Nil
  then show ?case by (simp add: read_nodes.simps unset_def config_value_def)
next
  case (Cons n ns)
  have "nodes_cfg (Suc i) ns cfg" using Cons.prems(1) by (force simp: nodes_cfg_def)
  with Cons have "read_nodes cfg (Suc i) = map (\<lambda>(a, p). (a @ [CHR 0x0A], of_nat p)) ns" by simp
  moreover have "cfg (node_key i ''ip'') = Some (fst n @ [CHR 0x0A])"
    "cfg (node_key i ''port'') = Some (dec_digits (snd n) @ [CHR 0x0A])"
    using Cons.prems(1) by (force simp: nodes_cfg_def)+
  ultimately show ?case using Cons.prems(2)
    by (subst read_nodes.simps) (simp add: config_value_def atoi_dec case_prod_beta Let_def)
qed

section \<open>Properties\<close>

text \<open>
  A configuration file with two lines per node, read back by the loop of the server and
  the clerk: the nodes come back in their order and with their ports, but every address
  carries the line break of its line, because only blanks are trimmed.
\<close>
theorem nodes_read_back:
  assumes "\<forall>n \<in> set ns. plain (fst n) \<and> length (fst n) < 400 \<and> snd n < 2 ^ 16"
    and "length ns < 65535"
  shows "read_nodes (load_config (nodes_text 0 ns) Map.empty) 0
    = map (\<lambda>(addr, port). (addr @ [CHR 0x0A], of_nat port)) ns"
  using load_nodes_text [of ns 0 Map.empty] read_nodes_cfg [of 0 ns] assms
  by (simp add: good_nodes_def unset_def)

theorem nodes_read_back_witness:
  "read_nodes (load_config (nodes_text 0 [(''127.0.0.1'', 8000), (''h'', 70)]) Map.empty) 0
    = [(''127.0.0.1'' @ [CHR 0x0A], 8000), (''h'' @ [CHR 0x0A], 70)]"
  using nodes_read_back [of "[(''127.0.0.1'', 8000), (''h'', 70)]"] by (simp add: plain_def)

end
