(* ===== verification/KvServer.thy ===== *)
theory KvServer
  imports KvTable RaftStep Config "HOL-Library.AList" "HOL-Library.List_Lexorder" "HOL-Library.Char_ord"
begin

text \<open>
  \<open>src/raft/include/core/kvServer.h\<close> and \<open>kvServer.cpp\<close>: the table, the request ids, the
  channels of the waiting put calls, and the message loop. Every definition is one critical
  section under the server's \<open>_M_mutex\<close> (or under the mutex of the node or of a channel);
  the calls of clients are the small machines \<open>put_step\<close> and \<open>L_get\<close>.

  \<open>lastRequestId\<close> is the unordered map in its iteration order; \<open>appliedChan\<close> holds pointers
  into the store \<open>queues\<close>, so that a deleted channel is an address without a queue.
\<close>

section \<open>Messages and state\<close>

record get_args =
  ga_key :: string
  ga_clientid :: string
  ga_requestid :: int

record get_reply =
  gr_err :: string
  gr_value :: string

record put_args =
  pa_key :: string
  pa_value :: string
  pa_clientid :: string
  pa_requestid :: int

record put_reply =
  pr_err :: string

definition RAFT_OK :: string where "RAFT_OK = ''OK''"
definition RAFT_ERR_NO_KEY :: string where "RAFT_ERR_NO_KEY = ''ErrNoKey''"
definition RAFT_TIMEOUT :: string where "RAFT_TIMEOUT = ''Timeout''"
definition RAFT_ERR_WRONG_LEADER :: string where "RAFT_ERR_WRONG_LEADER = ''ErrWrongLeader''"

type_synonym table = "(string, string) skiplist"
type_synonym request_ids = "(string \<times> int) list"

text \<open>The serialisation libraries: those of the node, of the table and of the server.\<close>

record kv_serial =
  ser :: serial
  out_table :: "(string, string) dumper \<Rightarrow> string"
  in_table :: "string \<Rightarrow> (string, string) dumper option"
  out_server :: "string \<times> request_ids \<Rightarrow> string"
  in_server :: "string \<Rightarrow> (string \<times> request_ids) option"

definition kv_serial_ok :: "kv_serial \<Rightarrow> bool" where
  "kv_serial_ok K \<longleftrightarrow> serial_ok (ser K) \<and> codec (out_table K) (in_table K)
     \<and> codec (out_server K) (in_server K)"

record kv_server =
  table_data :: table
  lastRequestId :: request_ids
  appliedChan :: "int \<Rightarrow> nat option"
  queues :: "nat \<Rightarrow> op safequeue option"
  nextQueue :: nat
  raftNode :: raft_state
  applyChan :: "apply_message safequeue"
  server_id :: int
  maxRaftStateSize :: int
  lastSnapshotCommandIndex :: int

section \<open>Snapshots of the server\<close>

definition kv_M_dump :: "kv_serial \<Rightarrow> kv_server \<Rightarrow> string option" where
  "kv_M_dump K s = do {
     str \<leftarrow> dump_kv (out_table K) (table_data s);
     Some (out_server K (str, lastRequestId s)) }"

definition kv_M_load :: "kv_serial \<Rightarrow> string \<Rightarrow> kv_server \<Rightarrow> kv_server outcome" where
  "kv_M_load K str s =
     (if str = [] then Ret s
      else case in_server K str of
        None \<Rightarrow> Throw ''archive_exception''
      | Some (t, ids) \<Rightarrow>
          (if t \<noteq> [] \<and> in_table K t = None then Throw ''archive_exception''
           else and_then (of_opt (load_kv (in_table K) t (table_data s))) (\<lambda>d.
             Ret (s\<lparr>table_data := d, lastRequestId := ids\<rparr>))))"

section \<open>Executing commands\<close>

definition L_duplicateRequest :: "string \<Rightarrow> int \<Rightarrow> kv_server \<Rightarrow> bool" where
  "L_duplicateRequest client requestId s =
     (case map_of (lastRequestId s) client of None \<Rightarrow> False | Some r \<Rightarrow> requestId \<le> r)"

definition note_request :: "op \<Rightarrow> kv_server \<Rightarrow> kv_server" where
  "note_request c s = s\<lparr>lastRequestId := AList.update (oclientId c) (orequestId c) (lastRequestId s)\<rparr>"

definition L_executePutOp :: "op \<Rightarrow> kv_server \<Rightarrow> kv_server option" where
  "L_executePutOp c s = do {
     d \<leftarrow> index_assign [] (okey c) (ovalue c) (table_data s);
     Some (note_request c (s\<lparr>table_data := d\<rparr>)) }"

definition L_executeGetOp :: "op \<Rightarrow> kv_server \<Rightarrow> ((bool \<times> string) \<times> kv_server) option" where
  "L_executeGetOp c s = do {
     it \<leftarrow> find_kv (table_data s) (okey c);
     let s = note_request c s;
     (if it = end_kv then Some ((False, []), s)
      else do {
        p \<leftarrow> it;
        (k, v) \<leftarrow> iter_deref (table_data s) p;
        Some ((True, v), s) }) }"

definition L_maySnapshot :: "kv_serial \<Rightarrow> int \<Rightarrow> kv_server \<Rightarrow> kv_server option" where
  "L_maySnapshot K index s =
     (if maxRaftStateSize s = - 1 then Some s
      else if getRaftStateSize (raftNode s) > maxRaftStateSize s then do {
        shot \<leftarrow> kv_M_dump K s;
        (b, r) \<leftarrow> raft_persist (ser K) index shot (raftNode s);
        Some (s\<lparr>raftNode := r\<rparr>) }
      else Some s)"

definition L_tryPush2Wait :: "op \<Rightarrow> int \<Rightarrow> kv_server \<Rightarrow> (bool \<times> kv_server) option" where
  "L_tryPush2Wait c index s =
     (case appliedChan s index of
        None \<Rightarrow> Some (False, s)
      | Some p \<Rightarrow> do {
          q \<leftarrow> queues s p;
          Some (True, s\<lparr>queues := (queues s)(p \<mapsto> sq_push c q)\<rparr>) })"

text \<open>
  The comparison is between a \<open>size_t\<close> and an \<open>int\<close> converted to it; the index is cut to an
  \<open>int\<close> where it is passed on. \<open>u\<close> is what the uninitialised \<open>command\<close> holds, which is seen
  only if the message carries the empty string.
\<close>

definition to_int :: "64 word \<Rightarrow> int" where
  "to_int w = sint (ucast w :: 32 word)"

definition L_executeCommand :: "kv_serial \<Rightarrow> op \<Rightarrow> apply_message \<Rightarrow> kv_server \<Rightarrow> kv_server outcome" where
  "L_executeCommand K u msg s =
     (if commandIndex msg \<le> word_of_int (lastSnapshotCommandIndex s) then Ret s
      else case op_load (in_op (ser K)) u (command msg) of
        None \<Rightarrow> Throw ''archive_exception''
      | Some (loaded, c) \<Rightarrow>
          and_then (of_opt
            (if \<not> L_duplicateRequest (oclientId c) (orequestId c) s \<and> operation c = Put
             then L_executePutOp c s else Some s)) (\<lambda>s.
          and_then (of_opt (L_maySnapshot K (to_int (commandIndex msg)) s)) (\<lambda>s.
          and_then (of_opt (L_tryPush2Wait c (to_int (commandIndex msg)) s)) (\<lambda>(b, s). Ret s))))"

definition kv_L_installSnapshot :: "kv_serial \<Rightarrow> apply_message \<Rightarrow> kv_server \<Rightarrow> kv_server outcome" where
  "kv_L_installSnapshot K msg s =
     and_then (kv_M_load K (snapshot msg) s) (\<lambda>s.
       Ret (s\<lparr>lastSnapshotCommandIndex := to_int (snapshotIndex msg)\<rparr>))"

definition handle_message :: "kv_serial \<Rightarrow> op \<Rightarrow> apply_message \<Rightarrow> kv_server \<Rightarrow> kv_server outcome" where
  "handle_message K u msg s =
     and_then (if validCommand msg then L_executeCommand K u msg s else Ret s) (\<lambda>s.
       if validSnapshot msg then kv_L_installSnapshot K msg s else Ret s)"

text \<open>The message loop, for at most \<open>n\<close> rounds; it blocks on an empty channel.\<close>

primrec L_popMessageLoop :: "nat \<Rightarrow> kv_serial \<Rightarrow> op \<Rightarrow> kv_server \<Rightarrow> kv_server outcome" where
  "L_popMessageLoop 0 K u s = Ret s"
| "L_popMessageLoop (Suc n) K u s =
     (case sq_pop (applyChan s) of
        None \<Rightarrow> Ret s
      | Some (msg, q) \<Rightarrow>
          and_then (handle_message K u msg (s\<lparr>applyChan := q\<rparr>)) (L_popMessageLoop n K u))"

section \<open>Calls of clients\<close>

text \<open>
  \<open>_L_get\<close>, run by the reading threads of the node: \<open>r\<close> is the node when the wait begins,
  \<open>obs\<close> the states seen at its wake-ups, \<open>s\<close> the server afterwards. The flag says whether
  \<open>done->Run()\<close> sends the reply.
\<close>

definition get_op :: "get_args \<Rightarrow> op" where
  "get_op args = \<lparr>operation = Get, okey = ga_key args, ovalue = [], oclientId = ga_clientid args,
     orequestId = ga_requestid args\<rparr>"

definition L_get :: "get_args \<Rightarrow> raft_state \<Rightarrow> raft_state list \<Rightarrow> kv_server
    \<Rightarrow> (get_reply \<times> bool \<times> kv_server) option" where
  "L_get args r obs s =
     (let reply = \<lparr>gr_err = [], gr_value = []\<rparr> in
      if \<not> waitApplied r obs then Some (reply\<lparr>gr_err := RAFT_TIMEOUT\<rparr>, False, s)
      else do {
        ((found, v), s) \<leftarrow> L_executeGetOp (get_op args) s;
        Some (if \<not> found then (reply\<lparr>gr_err := RAFT_ERR_NO_KEY\<rparr>, False, s)
              else (reply\<lparr>gr_value := v, gr_err := RAFT_OK\<rparr>, True, s)) })"

text \<open>The remote entry point only queues the call for the reading threads.\<close>

definition kv_get :: "get_args \<Rightarrow> get_args pool \<Rightarrow> get_args pool" where
  "kv_get args readThreads = pool_push args readThreads"

text \<open>
  \<open>_L_put\<close>, cut at its critical sections. \<open>PutWaiting\<close> holds the address of the channel the
  call waits on, \<open>PutPopped\<close> what the wait returned.
\<close>

datatype put_call =
    PutCalled put_args
  | PutExecuted put_args int
  | PutWaiting put_args int nat
  | PutPopped put_args int "op option"
  | PutDecided put_reply int
  | PutReplied put_reply

definition put_op :: "put_args \<Rightarrow> op" where
  "put_op args = \<lparr>operation = Put, okey = pa_key args, ovalue = pa_value args,
     oclientId = pa_clientid args, orequestId = pa_requestid args\<rparr>"

definition decide_put :: "op \<Rightarrow> op option \<Rightarrow> kv_server \<Rightarrow> put_reply" where
  "decide_put c popped s =
     \<lparr>pr_err = (case popped of
        None \<Rightarrow> if L_duplicateRequest (oclientId c) (orequestId c) s then RAFT_OK
                else RAFT_ERR_WRONG_LEADER
      | Some raftCommitOp \<Rightarrow>
          if oclientId raftCommitOp = oclientId c \<and> orequestId raftCommitOp = orequestId c
          then RAFT_OK else RAFT_ERR_WRONG_LEADER)\<rparr>"

text \<open>\<open>timeout\<close> says whether an empty wait ends by its time limit or goes on.\<close>

fun put_step :: "kv_serial \<Rightarrow> bool \<Rightarrow> put_call \<Rightarrow> kv_server \<Rightarrow> (put_call \<times> kv_server) option" where
  "put_step K timeout (PutCalled args) s =
     (let ((index, t), r) = raft_execute (ser K) (put_op args) (raftNode s);
          s = s\<lparr>raftNode := r\<rparr>
      in Some (if index = - 1 \<or> t = - 1 then PutReplied \<lparr>pr_err = RAFT_ERR_WRONG_LEADER\<rparr>
               else PutExecuted args index, s))"
| "put_step K timeout (PutExecuted args index) s =
     (let s = (if appliedChan s index = None
               then s\<lparr>appliedChan := (appliedChan s)(index \<mapsto> nextQueue s),
                      queues := (queues s)(nextQueue s \<mapsto> []), nextQueue := Suc (nextQueue s)\<rparr>
               else s)
      in do { que \<leftarrow> appliedChan s index; Some (PutWaiting args index que, s) })"
| "put_step K timeout (PutWaiting args index que) s = do {
     q \<leftarrow> queues s que;
     Some (case sq_pop q of
         Some (c, q) \<Rightarrow> (PutPopped args index (Some c), s\<lparr>queues := (queues s)(que \<mapsto> q)\<rparr>)
       | None \<Rightarrow> (if timeout then PutPopped args index None else PutWaiting args index que, s)) }"
| "put_step K timeout (PutPopped args index popped) s =
     Some (PutDecided (decide_put (put_op args) popped s) index, s)"
| "put_step K timeout (PutDecided reply index) s =
     (case appliedChan s index of
        None \<Rightarrow> Some (PutReplied reply, s)
      | Some que \<Rightarrow> do {
          q \<leftarrow> queues s que;
          Some (PutReplied reply,
            s\<lparr>appliedChan := (appliedChan s)(index := None), queues := (queues s)(que := None)\<rparr>) })"
| "put_step K timeout (PutReplied reply) s = Some (PutReplied reply, s)"

section \<open>Construction\<close>

text \<open>\<open>files\<close> and \<open>w\<close> are the file system; the random bits of the table are \<open>bits\<close>.\<close>

definition kvServer_ctor ::
  "kv_serial \<Rightarrow> int \<Rightarrow> (nat \<Rightarrow> bool) \<Rightarrow> files \<Rightarrow> (string \<Rightarrow> bool) \<Rightarrow> int \<Rightarrow> int \<Rightarrow> string
    \<Rightarrow> kv_server outcome" where
  "kvServer_ctor K now bits fs w id0 maxSize content =
     (let addr_port = read_nodes (load_config content Map.empty) 0 in
      if id0 < 0 \<or> int (length addr_port) \<le> id0 then Throw ''Bad me''
      else let p = persister_ctor fs w (nat id0) in
        and_then (of_opt (kvskiplist 32 [] [] bits)) (\<lambda>d.
        and_then (raft_ctor (ser K) now id0 p (length addr_port)) (\<lambda>r.
        let s = \<lparr>table_data = d, lastRequestId = [], appliedChan = Map.empty, queues = Map.empty,
               nextQueue = 0, raftNode = r, applyChan = [], server_id = id0,
               maxRaftStateSize = maxSize, lastSnapshotCommandIndex = 0\<rparr>;
            (b, shot) = loadSnapshot (pstr r) []
        in if b \<and> shot \<noteq> [] then kv_M_load K shot s else Ret s)))"

section \<open>Invariant and abstraction\<close>

definition kv_inv :: "kv_server \<Rightarrow> bool" where
  "kv_inv s \<longleftrightarrow> sl_inv (table_data s) \<and> node_inv (raftNode s)
     \<and> (\<forall>i p. appliedChan s i = Some p \<longrightarrow> queues s p \<noteq> None \<and> p < nextQueue s)
     \<and> (\<forall>i j p. appliedChan s i = Some p \<and> appliedChan s j = Some p \<longrightarrow> i = j)"

type_synonym abs_server = "(string \<Rightarrow> string option) \<times> (string \<Rightarrow> int option)"

definition abs_server :: "kv_server \<Rightarrow> abs_server" where
  "abs_server s = (abs_kv (table_data s), map_of (lastRequestId s))"

text \<open>The state machine the log drives: a put whose request id is not new is skipped.\<close>

definition stale :: "op \<Rightarrow> abs_server \<Rightarrow> bool" where
  "stale c a = (case snd a (oclientId c) of None \<Rightarrow> False | Some r \<Rightarrow> orequestId c \<le> r)"

definition apply_cmd :: "op \<Rightarrow> abs_server \<Rightarrow> abs_server" where
  "apply_cmd c a =
     (if \<not> stale c a \<and> operation c = Put
      then ((fst a)(okey c \<mapsto> ovalue c), (snd a)(oclientId c \<mapsto> orequestId c)) else a)"

lemma duplicate_stale: "L_duplicateRequest (oclientId c) (orequestId c) s = stale c (abs_server s)"
  by (simp add: L_duplicateRequest_def stale_def abs_server_def)

lemma kv_inv_fields:
  "kv_inv s \<Longrightarrow> sl_inv (table_data s)" "kv_inv s \<Longrightarrow> node_inv (raftNode s)"
  "kv_inv s \<Longrightarrow> appliedChan s i = Some p \<Longrightarrow> \<exists>q. queues s p = Some q"
  by (auto simp: kv_inv_def)

lemma note_request_kept [simp]:
  "table_data (note_request c s) = table_data s" "raftNode (note_request c s) = raftNode s"
  "appliedChan (note_request c s) = appliedChan s" "queues (note_request c s) = queues s"
  "nextQueue (note_request c s) = nextQueue s" "applyChan (note_request c s) = applyChan s"
  "lastSnapshotCommandIndex (note_request c s) = lastSnapshotCommandIndex s"
  "maxRaftStateSize (note_request c s) = maxRaftStateSize s"
  "map_of (lastRequestId (note_request c s)) = (map_of (lastRequestId s))(oclientId c \<mapsto> orequestId c)"
  by (simp_all add: note_request_def update_conv')

lemma kv_inv_table: "kv_inv s \<Longrightarrow> sl_inv d \<Longrightarrow> kv_inv (s\<lparr>table_data := d\<rparr>)"
  by (simp add: kv_inv_def)

lemma kv_inv_note [simp]: "kv_inv (note_request c s) = kv_inv s"
  by (simp add: kv_inv_def)

lemma kv_inv_other [simp]:
  "kv_inv (s\<lparr>applyChan := q\<rparr>) = kv_inv s" "kv_inv (s\<lparr>lastRequestId := ids\<rparr>) = kv_inv s"
  "kv_inv (s\<lparr>lastSnapshotCommandIndex := n\<rparr>) = kv_inv s"
  by (simp_all add: kv_inv_def)

lemma abs_server_other [simp]:
  "abs_server (s\<lparr>applyChan := q\<rparr>) = abs_server s" "abs_server (s\<lparr>raftNode := r\<rparr>) = abs_server s"
  "abs_server (s\<lparr>queues := m\<rparr>) = abs_server s"
  by (simp_all add: abs_server_def)

section \<open>What the operations do\<close>

lemma L_executePutOp_ok:
  assumes "kv_inv s"
  obtains d where "L_executePutOp c s = Some (note_request c (s\<lparr>table_data := d\<rparr>))" "sl_inv d"
    "abs_kv d = (abs_kv (table_data s))(okey c \<mapsto> ovalue c)"
  using skip_table.store_ok [OF kv_inv_fields(1) [OF assms], of "[]" "okey c" "ovalue c"]
  by (auto simp: L_executePutOp_def)

lemma L_executeGetOp_ok:
  assumes "kv_inv s"
  shows "L_executeGetOp c s = Some (case abs_kv (table_data s) (okey c) of None \<Rightarrow> (False, [])
     | Some v \<Rightarrow> (True, v), note_request c s)"
proof -
  have "lookup_value (table_data s) (okey c) = Some (abs_kv (table_data s) (okey c))"
    using skip_table.look_ok [OF kv_inv_fields(1) [OF assms]] .
  then show ?thesis
    by (auto simp: L_executeGetOp_def lookup_value_def bind_eq_Some_conv Let_def split: if_splits option.splits)
qed

lemma raft_persist_returns: "node_inv r \<Longrightarrow> \<exists>b t. raft_persist S index shot r = Some (b, t) \<and> node_inv t"
  using raft_persist_inv [of r S index shot] raft_persist_accept [of r index S shot]
    raft_persist_refuse [of r index S shot] by fastforce

lemma kv_M_dump_ok: "kv_inv s \<Longrightarrow> \<exists>w. kv_M_dump K s = Some w"
  using kv_inv_fields(1) [of s] by (auto simp: kv_M_dump_def sl_inv_def dump_kv_repr)

lemma L_maySnapshot_ok:
  assumes "kv_inv s"
  obtains r where "L_maySnapshot K index s = Some (s\<lparr>raftNode := r\<rparr>)" "node_inv r"
proof -
  obtain w where w: "kv_M_dump K s = Some w" using kv_M_dump_ok [OF assms] by blast
  obtain b r where "raft_persist (ser K) index w (raftNode s) = Some (b, r)" "node_inv r"
    using raft_persist_returns kv_inv_fields(2) [OF assms] by blast
  with w have "L_maySnapshot K index s \<in> {Some (s\<lparr>raftNode := raftNode s\<rparr>), Some (s\<lparr>raftNode := r\<rparr>)}"
    by (simp add: L_maySnapshot_def)
  with that [of r] that [of "raftNode s"] \<open>node_inv r\<close> kv_inv_fields(2) [OF assms] show ?thesis by blast
qed

lemma L_tryPush2Wait_ok:
  assumes "kv_inv s"
  obtains b m where "L_tryPush2Wait c index s = Some (b, s\<lparr>queues := m\<rparr>)" "kv_inv (s\<lparr>queues := m\<rparr>)"
proof (cases "appliedChan s index")
  case None
  then show ?thesis using that [of False "queues s"] assms by (simp add: L_tryPush2Wait_def)
next
  case (Some p)
  then obtain q where "queues s p = Some q" using kv_inv_fields(3) [OF assms] by blast
  with Some assms show ?thesis
    using that [of True "(queues s)(p \<mapsto> sq_push c q)"] by (simp add: L_tryPush2Wait_def kv_inv_def)
qed

text \<open>One command of the log: the table and the request ids move as the state machine does.\<close>

lemma L_executeCommand_ok:
  assumes "kv_inv s" "codec (out_op (ser K)) (in_op (ser K))" "command msg = op_dump (out_op (ser K)) c"
    "\<not> commandIndex msg \<le> word_of_int (lastSnapshotCommandIndex s)"
  obtains t where "L_executeCommand K u msg s = Ret t" "kv_inv t" "abs_server t = apply_cmd c (abs_server s)"
    "applyChan t = applyChan s" "lastSnapshotCommandIndex t = lastSnapshotCommandIndex s"
proof -
  let ?go = "if \<not> L_duplicateRequest (oclientId c) (orequestId c) s \<and> operation c = Put
    then L_executePutOp c s else Some s"
  obtain s1 where s1: "?go = Some s1" "kv_inv s1" "abs_server s1 = apply_cmd c (abs_server s)"
    "applyChan s1 = applyChan s" "lastSnapshotCommandIndex s1 = lastSnapshotCommandIndex s"
  proof (cases "\<not> L_duplicateRequest (oclientId c) (orequestId c) s \<and> operation c = Put")
    case True
    obtain d where "L_executePutOp c s = Some (note_request c (s\<lparr>table_data := d\<rparr>))" "sl_inv d"
      "abs_kv d = (abs_kv (table_data s))(okey c \<mapsto> ovalue c)" by (rule L_executePutOp_ok [OF assms(1)])
    with True kv_inv_table [OF assms(1)] that show ?thesis
      by (simp add: apply_cmd_def duplicate_stale abs_server_def)
  next
    case False
    with that assms(1) show ?thesis by (auto simp: apply_cmd_def duplicate_stale)
  qed
  obtain r where r: "L_maySnapshot K (to_int (commandIndex msg)) s1 = Some (s1\<lparr>raftNode := r\<rparr>)" "node_inv r"
    by (rule L_maySnapshot_ok [OF s1(2)])
  then have "kv_inv (s1\<lparr>raftNode := r\<rparr>)" using s1(2) by (simp add: kv_inv_def)
  then obtain b m where m: "L_tryPush2Wait c (to_int (commandIndex msg)) (s1\<lparr>raftNode := r\<rparr>)
      = Some (b, s1\<lparr>raftNode := r, queues := m\<rparr>)" "kv_inv (s1\<lparr>raftNode := r, queues := m\<rparr>)"
    by (rule L_tryPush2Wait_ok)
  show ?thesis
    using assms(3,4) s1 r(1) m that [of "s1\<lparr>raftNode := r, queues := m\<rparr>"]
    by (simp add: L_executeCommand_def op_load_dump [OF assms(2)])
qed

definition command_of :: "kv_serial \<Rightarrow> 64 word \<times> op \<Rightarrow> apply_message" where
  "command_of K x = command_message True (fst x) (op_dump (out_op (ser K)) (snd x))"

lemma handle_command_ok:
  assumes "kv_inv s" "codec (out_op (ser K)) (in_op (ser K))"
    "\<not> fst x \<le> word_of_int (lastSnapshotCommandIndex s)"
  obtains t where "handle_message K u (command_of K x) s = Ret t" "kv_inv t"
    "abs_server t = apply_cmd (snd x) (abs_server s)"
    "applyChan t = applyChan s" "lastSnapshotCommandIndex t = lastSnapshotCommandIndex s"
proof -
  have m: "command (command_of K x) = op_dump (out_op (ser K)) (snd x)" "commandIndex (command_of K x) = fst x"
    "validCommand (command_of K x)" "\<not> validSnapshot (command_of K x)"
    by (simp_all add: command_of_def command_message_def)
  obtain t where t: "L_executeCommand K u (command_of K x) s = Ret t" "kv_inv t"
    "abs_server t = apply_cmd (snd x) (abs_server s)"
    "applyChan t = applyChan s" "lastSnapshotCommandIndex t = lastSnapshotCommandIndex s"
    using L_executeCommand_ok [OF assms(1,2) m(1)] assms(3) m(2) by metis
  then have "handle_message K u (command_of K x) s = Ret t" by (simp add: handle_message_def m)
  with t show ?thesis by (intro that)
qed

lemma loop_refines:
  assumes "kv_inv s" "codec (out_op (ser K)) (in_op (ser K))" "applyChan s = map (command_of K) cs"
    "\<forall>x \<in> set cs. \<not> fst x \<le> word_of_int (lastSnapshotCommandIndex s)"
  shows "\<exists>t. L_popMessageLoop (length cs) K u s = Ret t \<and> kv_inv t \<and> applyChan t = []
    \<and> abs_server t = fold apply_cmd (map snd cs) (abs_server s)"
  using assms
proof (induction cs arbitrary: s)
  case (Cons x cs)
  let ?s = "s\<lparr>applyChan := map (command_of K) cs\<rparr>"
  obtain t where t: "handle_message K u (command_of K x) ?s = Ret t" "kv_inv t"
    "abs_server t = apply_cmd (snd x) (abs_server ?s)"
    "applyChan t = map (command_of K) cs" "lastSnapshotCommandIndex t = lastSnapshotCommandIndex s"
    using handle_command_ok [of ?s K x] Cons.prems by auto
  with Cons.IH [of t] Cons.prems show ?case by (simp add: sq_pop_def)
qed simp

section \<open>Request ids only grow\<close>

lemma apply_keeps_stale: "stale c a \<Longrightarrow> stale c (apply_cmd d a)"
  by (auto simp: stale_def apply_cmd_def split: option.splits)

lemma fold_keeps_stale: "stale c a \<Longrightarrow> stale c (fold apply_cmd cs a)"
  by (induction cs arbitrary: a) (auto simp: apply_keeps_stale)

lemma applied_stale: "operation c = Put \<Longrightarrow> stale c (apply_cmd c a)"
  by (auto simp: stale_def apply_cmd_def split: option.splits)

lemma apply_again: "operation c = Put \<Longrightarrow>
    apply_cmd c (fold apply_cmd cs (apply_cmd c a)) = fold apply_cmd cs (apply_cmd c a)"
  using fold_keeps_stale [OF applied_stale, of c cs a] by (simp add: apply_cmd_def)

end
