(* ===== verification/KvServerProps.thy ===== *)
theory KvServerProps
  imports KvServer RaftDemo
begin

text \<open>
  What the server promises: its table is the log applied in order, each request once; a
  snapshot restores it; the replies of a get call. And two places where it does not: loading
  a snapshot keeps old values, and a get call moves the request ids outside the log.
\<close>

section \<open>Concrete servers\<close>

definition demo_kv :: kv_serial where
  "demo_kv = \<lparr>ser = demo_serial,
     out_table = put_map (\<lambda>d. (dkeys d, dvalues d)) (put_pair (put_list put_str) (put_list put_str)),
     in_table = whole (get_map (\<lambda>(ks, vs). \<lparr>dkeys = ks, dvalues = vs\<rparr>)
       (get_pair (get_list get_str) (get_list get_str))),
     out_server = put_pair put_str (put_list (put_pair put_str put_int)),
     in_server = whole (get_pair get_str (get_list (get_pair get_str get_int)))\<rparr>"

lemma demo_kv_ok: "kv_serial_ok demo_kv"
proof -
  have "codec (out_table demo_kv) (in_table demo_kv)"
    by (simp add: demo_kv_def) (intro prefix_whole prefix_codecs, simp)
  moreover have "codec (out_server demo_kv) (in_server demo_kv)"
    by (simp add: demo_kv_def) (intro prefix_whole prefix_codecs)
  ultimately show ?thesis using demo_serial_ok by (simp add: kv_serial_ok_def demo_kv_def)
qed

lemma demo_op_codec: "codec (out_op (ser demo_kv)) (in_op (ser demo_kv))"
  using demo_kv_ok by (simp add: kv_serial_ok_def serial_ok_def)

definition demo_table :: table where
  "demo_table = the (kvskiplist 32 [] [] (\<lambda>n. even n))"

lemma demo_table_ok: "sl_inv demo_table" "abs_kv demo_table = Map.empty"
proof -
  obtain t :: table where "kvskiplist 32 [] [] (\<lambda>n. even n) = Some t" "repr t []"
    by (rule kvskiplist_repr [of 32 "[]" "[]" "\<lambda>n. even n"]) auto
  then show "sl_inv demo_table" "abs_kv demo_table = Map.empty"
    by (auto simp: demo_table_def sl_inv_def abs_repr contents_def)
qed

definition demo_server :: kv_server where
  "demo_server = \<lparr>table_data = demo_table, lastRequestId = [], appliedChan = Map.empty,
     queues = Map.empty, nextQueue = 0, raftNode = demo_leader, applyChan = [], server_id = 0,
     maxRaftStateSize = - 1, lastSnapshotCommandIndex = 0\<rparr>"

lemma demo_server_ok: "kv_inv demo_server" "abs_server demo_server = (Map.empty, Map.empty)"
  by (simp_all add: kv_inv_def demo_server_def demo_table_ok demo_leader_inv abs_server_def)

definition put_of :: "string \<Rightarrow> string \<Rightarrow> int \<Rightarrow> op" where
  "put_of k v r = \<lparr>operation = Put, okey = k, ovalue = v, oclientId = ''c'', orequestId = r\<rparr>"

definition no_op :: op where
  "no_op = \<lparr>operation = Invalid, okey = [], ovalue = [], oclientId = [], orequestId = 0\<rparr>"

definition demo_cmds :: "(64 word \<times> op) list" where
  "demo_cmds = [(1, put_of ''k'' ''x'' 1), (2, put_of ''k'' ''y'' 2), (3, put_of ''k'' ''x'' 1)]"

section \<open>The table is the log\<close>

text \<open>
  C6. The message loop refines the state machine of the log: after as many rounds as there
  are command messages the channel is empty and table and request ids are those of applying
  the commands in their order, each put only when its request id is newer than the client's
  last one. Snapshots taken on the way change nothing of this.
\<close>
theorem server_refines_log:
  assumes "kv_serial_ok K" "kv_inv s" "applyChan s = map (command_of K) cs"
    and "\<forall>x \<in> set cs. \<not> fst x \<le> word_of_int (lastSnapshotCommandIndex s)"
  shows "\<exists>t. L_popMessageLoop (length cs) K u s = Ret t \<and> kv_inv t \<and> applyChan t = []
    \<and> (abs_kv (table_data t), map_of (lastRequestId t))
      = fold apply_cmd (map snd cs) (abs_kv (table_data s), map_of (lastRequestId s))"
  using loop_refines [OF assms(2) _ assms(3,4)] assms(1)
  by (simp add: kv_serial_ok_def serial_ok_def abs_server_def)

theorem server_refines_log_witness:
  "\<exists>t. L_popMessageLoop 3 demo_kv no_op (demo_server\<lparr>applyChan := map (command_of demo_kv) demo_cmds\<rparr>) = Ret t
    \<and> abs_kv (table_data t) = [''k'' \<mapsto> ''y''] \<and> map_of (lastRequestId t) = [''c'' \<mapsto> 2]"
proof -
  let ?s = "demo_server\<lparr>applyChan := map (command_of demo_kv) demo_cmds\<rparr>"
  have a: "abs_kv (table_data ?s) = Map.empty" "map_of (lastRequestId ?s) = Map.empty"
    by (simp_all add: demo_server_def demo_table_ok)
  have "lastSnapshotCommandIndex ?s = 0" by (simp add: demo_server_def)
  then have "\<forall>x \<in> set demo_cmds. \<not> fst x \<le> word_of_int (lastSnapshotCommandIndex ?s)"
    by (simp add: demo_cmds_def)
  with server_refines_log [OF demo_kv_ok, of ?s demo_cmds no_op] demo_server_ok(1)
  obtain t where t: "L_popMessageLoop (length demo_cmds) demo_kv no_op ?s = Ret t"
    "(abs_kv (table_data t), map_of (lastRequestId t)) = fold apply_cmd (map snd demo_cmds) (Map.empty, Map.empty)"
    unfolding a by auto
  have "fold apply_cmd (map snd demo_cmds) (Map.empty, Map.empty) = ([''k'' \<mapsto> ''y''], [''c'' \<mapsto> 2])"
    by (simp add: demo_cmds_def put_of_def apply_cmd_def stale_def)
  with t show ?thesis by (simp add: demo_cmds_def eval_nat_numeral)
qed

text \<open>
  C18. A put is executed at most once: a second decision of the same command later in the log
  (a client that retried after a time-out) leaves the table and the request ids as if it were
  not there, whatever was applied in between.
\<close>
theorem put_at_most_once:
  assumes "kv_serial_ok K" "kv_inv s" "operation c = Put"
    and "\<forall>x \<in> set (xs @ (i, c) # ys @ [(j, c)]). \<not> fst x \<le> word_of_int (lastSnapshotCommandIndex s)"
  shows "\<exists>t t'. L_popMessageLoop (length xs + length ys + 2) K u
        (s\<lparr>applyChan := map (command_of K) (xs @ (i, c) # ys @ [(j, c)])\<rparr>) = Ret t
    \<and> L_popMessageLoop (length xs + length ys + 1) K u
        (s\<lparr>applyChan := map (command_of K) (xs @ (i, c) # ys)\<rparr>) = Ret t'
    \<and> abs_server t = abs_server t'"
proof -
  let ?cs = "xs @ (i, c) # ys"
  have C: "codec (out_op (ser K)) (in_op (ser K))" using assms(1) by (simp add: kv_serial_ok_def serial_ok_def)
  obtain t where t: "L_popMessageLoop (length (?cs @ [(j, c)])) K u
      (s\<lparr>applyChan := map (command_of K) (?cs @ [(j, c)])\<rparr>) = Ret t"
    "abs_server t = fold apply_cmd (map snd (?cs @ [(j, c)])) (abs_server s)"
    using loop_refines [OF _ C, of "s\<lparr>applyChan := map (command_of K) (?cs @ [(j, c)])\<rparr>" "?cs @ [(j, c)]" u]
      assms(2,4) by auto
  obtain t' where t': "L_popMessageLoop (length ?cs) K u (s\<lparr>applyChan := map (command_of K) ?cs\<rparr>) = Ret t'"
    "abs_server t' = fold apply_cmd (map snd ?cs) (abs_server s)"
    using loop_refines [OF _ C, of "s\<lparr>applyChan := map (command_of K) ?cs\<rparr>" ?cs u] assms(2,4) by auto
  have "abs_server t = abs_server t'" using t(2) t'(2) by (simp add: apply_again [OF assms(3)])
  with t(1) t'(1) show ?thesis by (intro exI [of _ t] exI [of _ t']) simp
qed

theorem put_at_most_once_witness:
  "\<exists>t t'. L_popMessageLoop 3 demo_kv no_op (demo_server\<lparr>applyChan := map (command_of demo_kv) demo_cmds\<rparr>) = Ret t
    \<and> L_popMessageLoop 2 demo_kv no_op (demo_server\<lparr>applyChan := map (command_of demo_kv) (take 2 demo_cmds)\<rparr>) = Ret t'
    \<and> abs_server t = abs_server t'"
proof -
  have c: "[] @ (1, put_of ''k'' ''x'' 1) # [(2, put_of ''k'' ''y'' 2)] @ [(3, put_of ''k'' ''x'' 1)] = demo_cmds"
    "[] @ (1, put_of ''k'' ''x'' 1) # [(2, put_of ''k'' ''y'' 2)] = take 2 demo_cmds"
    by (simp_all add: demo_cmds_def numeral_2_eq_2)
  have "\<forall>x \<in> set demo_cmds. \<not> fst x \<le> word_of_int (lastSnapshotCommandIndex demo_server)"
    by (simp add: demo_cmds_def demo_server_def)
  moreover have "operation (put_of ''k'' ''x'' 1) = Put" by (simp add: put_of_def)
  ultimately have "\<exists>t t'. L_popMessageLoop (length ([] :: (64 word \<times> op) list) + length [(2 :: 64 word, put_of ''k'' ''y'' 2)] + 2)
        demo_kv no_op (demo_server\<lparr>applyChan := map (command_of demo_kv) demo_cmds\<rparr>) = Ret t
    \<and> L_popMessageLoop (length ([] :: (64 word \<times> op) list) + length [(2 :: 64 word, put_of ''k'' ''y'' 2)] + 1)
        demo_kv no_op (demo_server\<lparr>applyChan := map (command_of demo_kv) (take 2 demo_cmds)\<rparr>) = Ret t'
    \<and> abs_server t = abs_server t'"
    using put_at_most_once [OF demo_kv_ok demo_server_ok(1), of "put_of ''k'' ''x'' 1" "[]" 1
      "[(2, put_of ''k'' ''y'' 2)]" 3 no_op] unfolding c by blast
  then show ?thesis by (simp add: numeral_3_eq_3 numeral_2_eq_2 del: L_popMessageLoop.simps)
qed

section \<open>Snapshots\<close>

text \<open>
  C33. A snapshot another server dumped, when it is loaded: the request ids become those of
  the dump, and the table that of the dump, except that every key the receiver already had
  keeps its own value. Into an empty table this is a round trip; a lagging replica keeps old
  values for good, since the request ids now say the newer puts are done.
\<close>
theorem snapshot_keeps_old:
  assumes "kv_serial_ok K" "kv_inv src" "kv_inv dst"
  shows "\<exists>w t. kv_M_dump K src = Some w
    \<and> kv_L_installSnapshot K (snapshot_message True index trm w) dst = Ret t \<and> kv_inv t
    \<and> map_of (lastRequestId t) = map_of (lastRequestId src)
    \<and> lastSnapshotCommandIndex t = to_int index
    \<and> (\<forall>k. abs_kv (table_data t) k = (case abs_kv (table_data dst) k of
         None \<Rightarrow> abs_kv (table_data src) k | Some v \<Rightarrow> Some v))"
proof -
  have C: "codec (out_table K) (in_table K)" "codec (out_server K) (in_server K)"
    using assms(1) by (simp_all add: kv_serial_ok_def)
  obtain w d where w: "dump_kv (out_table K) (table_data src) = Some w"
    "load_kv (in_table K) w (table_data dst) = Some d" "sl_inv d"
    "abs_kv d = abs_kv (table_data src) ++ abs_kv (table_data dst)"
    using load_dump_ok [OF C(1)] assms(2,3) by (metis kv_inv_fields(1))
  then have "w = [] \<or> in_table K w \<noteq> None" by (auto simp: load_kv_def bind_eq_Some_conv split: if_splits)
  then have "kv_M_load K (out_server K (w, lastRequestId src)) dst
      = Ret (dst\<lparr>table_data := d, lastRequestId := lastRequestId src\<rparr>)"
    using w(2) codecD [OF C(2)] by (auto simp: kv_M_load_def)
  with w kv_inv_table [OF assms(3)] show ?thesis
    by (auto simp: kv_M_dump_def kv_L_installSnapshot_def snapshot_message_def map_add_def)
qed

theorem snapshot_keeps_old_witness:
  "\<exists>w t. kv_M_dump demo_kv demo_server = Some w
    \<and> kv_L_installSnapshot demo_kv (snapshot_message True 7 2 w) demo_server = Ret t
    \<and> abs_kv (table_data t) ''k'' = None \<and> lastSnapshotCommandIndex t = 7"
  using snapshot_keeps_old [OF demo_kv_ok demo_server_ok(1) demo_server_ok(1), of 7 2]
  by (auto simp: demo_server_def demo_table_ok to_int_def)

section \<open>Reading\<close>

text \<open>
  A get call: it returns; a time-out and a missing key are answered by setting the error
  but never sent (\<open>done\<close> is not run), and only a value found is sent; the table does not
  change, and when the wait succeeded the client's request id becomes that of the get.
\<close>
theorem get_reply_cases:
  assumes "kv_inv s"
  shows "\<exists>t. L_get args r obs s =
    Some (if \<not> waitApplied r obs then (\<lparr>gr_err = RAFT_TIMEOUT, gr_value = []\<rparr>, False, s)
      else case abs_kv (table_data s) (ga_key args) of
          None \<Rightarrow> (\<lparr>gr_err = RAFT_ERR_NO_KEY, gr_value = []\<rparr>, False, t)
        | Some v \<Rightarrow> (\<lparr>gr_err = RAFT_OK, gr_value = v\<rparr>, True, t))
    \<and> kv_inv t \<and> table_data t = table_data s
    \<and> map_of (lastRequestId t) = (map_of (lastRequestId s))(ga_clientid args \<mapsto> ga_requestid args)"
  by (rule exI [of _ "note_request (get_op args) s"])
    (use assms in \<open>simp add: L_get_def L_executeGetOp_ok Let_def get_op_def split: option.splits\<close>)

theorem get_reply_cases_witness:
  "\<exists>t. L_get \<lparr>ga_key = ''k'', ga_clientid = ''c'', ga_requestid = 9\<rparr> demo_follower [] demo_server
    = Some (\<lparr>gr_err = ''ErrNoKey'', gr_value = []\<rparr>, False, t) \<and> map_of (lastRequestId t) ''c'' = Some 9"
  using get_reply_cases [OF demo_server_ok(1), of "\<lparr>ga_key = ''k'', ga_clientid = ''c'', ga_requestid = 9\<rparr>"
      demo_follower "[]"]
  by (auto simp: demo_server_def demo_table_ok demo_follower_def waitApplied_def waitApplied_loop.simps
      RAFT_ERR_NO_KEY_def)

text \<open>
  C38. A get call, which is not in the log, can make its server lose a write for good: after
  it, a put of the same client that was decided earlier, with a smaller request id, but is
  applied only now, is dropped, while a server that did not serve the get executes it.
\<close>
theorem get_drops_put:
  assumes "kv_serial_ok K" "kv_inv s" "waitApplied r obs" "operation c = Put"
    and "oclientId c = ga_clientid args" "orequestId c \<le> ga_requestid args"
    and "\<not> L_duplicateRequest (oclientId c) (orequestId c) s"
    and "\<not> i \<le> word_of_int (lastSnapshotCommandIndex s)"
  shows "\<exists>reply sent s' t t'. L_get args r obs s = Some (reply, sent, s')
    \<and> L_executeCommand K u (command_of K (i, c)) s = Ret t
    \<and> L_executeCommand K u (command_of K (i, c)) s' = Ret t'
    \<and> abs_kv (table_data t) = (abs_kv (table_data s))(okey c \<mapsto> ovalue c)
    \<and> abs_kv (table_data t') = abs_kv (table_data s)"
proof -
  have C: "codec (out_op (ser K)) (in_op (ser K))" using assms(1) by (simp add: kv_serial_ok_def serial_ok_def)
  define s' where "s' = note_request (get_op args) s"
  have m: "command (command_of K (i, c)) = op_dump (out_op (ser K)) c"
    "\<not> commandIndex (command_of K (i, c)) \<le> word_of_int (lastSnapshotCommandIndex s)"
    "\<not> commandIndex (command_of K (i, c)) \<le> word_of_int (lastSnapshotCommandIndex s')"
    using assms(8) by (simp_all add: command_of_def command_message_def s'_def)
  have "\<exists>reply sent. L_get args r obs s = Some (reply, sent, s')"
    using assms(2,3) by (cases "abs_kv (table_data s) (okey (get_op args))")
      (auto simp: L_get_def L_executeGetOp_ok s'_def)
  moreover obtain t where "L_executeCommand K u (command_of K (i, c)) s = Ret t"
    "abs_server t = apply_cmd c (abs_server s)" using L_executeCommand_ok [OF assms(2) C m(1,2)] by metis
  moreover obtain t' where "L_executeCommand K u (command_of K (i, c)) s' = Ret t'"
    "abs_server t' = apply_cmd c (abs_server s')"
    using L_executeCommand_ok [OF _ C m(1,3), of u] assms(2) by (metis kv_inv_note s'_def)
  moreover have "stale c (abs_server s')"
    using assms(5,6) by (simp add: stale_def s'_def abs_server_def get_op_def)
  ultimately show ?thesis
    using assms(4,7) by (auto simp: apply_cmd_def duplicate_stale abs_server_def s'_def)
qed

theorem get_drops_put_witness:
  "\<exists>reply sent s' t t'. L_get \<lparr>ga_key = ''k'', ga_clientid = ''c'', ga_requestid = 2\<rparr> demo_follower [] demo_server
      = Some (reply, sent, s')
    \<and> L_executeCommand demo_kv no_op (command_of demo_kv (1, put_of ''k'' ''x'' 1)) demo_server = Ret t
    \<and> L_executeCommand demo_kv no_op (command_of demo_kv (1, put_of ''k'' ''x'' 1)) s' = Ret t'
    \<and> abs_kv (table_data t) ''k'' = Some ''x'' \<and> abs_kv (table_data t') ''k'' = None"
proof -
  have "waitApplied demo_follower []" by (simp add: demo_follower_def waitApplied_def waitApplied_loop.simps)
  moreover have "\<not> L_duplicateRequest ''c'' 1 demo_server" "lastSnapshotCommandIndex demo_server = 0"
    "abs_kv (table_data demo_server) = Map.empty"
    by (simp_all add: L_duplicateRequest_def demo_server_def demo_table_ok)
  ultimately show ?thesis
    using get_drops_put [OF demo_kv_ok demo_server_ok(1), of demo_follower "[]" "put_of ''k'' ''x'' 1"
        "\<lparr>ga_key = ''k'', ga_clientid = ''c'', ga_requestid = 2\<rparr>" 1 no_op]
    by (auto simp: put_of_def)
qed

end
