(* ===== verification/KvCalls.thy ===== *)
theory KvCalls
  imports KvServerProps LogGrowth
begin

text \<open>
  The server with any number of put calls in flight, interleaved with the message loop, get
  calls and the steps of its node. A put call registers a channel under the index the node
  gave it and deletes that channel at its end; what makes this safe is that the log of a node
  never gets shorter, so that no two calls ever share an index.
\<close>

section \<open>The server moves\<close>

text \<open>What every move but those of the put calls keeps: the channels, and the log's end.\<close>

definition chan_frame :: "kv_server \<Rightarrow> kv_server \<Rightarrow> bool" where
  "chan_frame s t \<longleftrightarrow> kv_inv t \<and> appliedChan t = appliedChan s
     \<and> M_getLastLogIndex (raftNode s) \<le> M_getLastLogIndex (raftNode t)"

lemma frame_trans: "chan_frame s t \<Longrightarrow> chan_frame t u \<Longrightarrow> chan_frame s u"
  by (auto simp: chan_frame_def)

lemma frame_refl: "kv_inv s \<Longrightarrow> chan_frame s s"
  by (simp add: chan_frame_def)

lemma frame_kv_inv: "chan_frame s t \<Longrightarrow> kv_inv t"
  by (simp add: chan_frame_def)

lemma load_loop_keeps: "sl_inv sl \<Longrightarrow> load_loop d i sl = Some t \<Longrightarrow> sl_inv t"
proof (induction d i sl rule: load_loop.induct)
  case (1 d i sl)
  show ?case
  proof (cases "i < length (dkeys d)")
    case True
    obtain xs where "repr sl xs" using "1.prems"(1) by (auto simp: sl_inv_def)
    then obtain r s ys where s: "insert_kv (dkeys d ! i) (dvalues d ! i) sl = Some (r, s)" "repr s ys"
      by (rule insert_kv_repr) auto
    have "arr_get (dvalues d) i = Some (dvalues d ! i) \<and> load_loop d (Suc i) s = Some t"
      using True "1.prems"(2) s(1) load_loop.simps [of d i sl]
      by (auto simp: bind_eq_Some_conv arr_get_Some split: if_splits)
    then have v: "arr_get (dvalues d) i = Some (dvalues d ! i)" "load_loop d (Suc i) s = Some t" by simp_all
    from s(2) have "sl_inv s" by (auto simp: sl_inv_def)
    from "1.IH" [OF True v(1) s(1) refl this v(2)] show ?thesis .
  qed (use "1.prems" in \<open>simp add: load_loop.simps\<close>)
qed

lemma load_kv_keeps: "sl_inv d \<Longrightarrow> load_kv dec w d = Some t \<Longrightarrow> sl_inv t"
  using load_loop_keeps [of d _ 0 t] by (auto simp: load_kv_def bind_eq_Some_conv split: if_splits)

lemma frame_load: "kv_inv s \<Longrightarrow> kv_M_load K w s = Ret t \<Longrightarrow> chan_frame s t"
  using load_kv_keeps [of "table_data s" "in_table K"]
  by (auto simp: kv_M_load_def chan_frame_def kv_inv_def and_then_Ret of_opt_def
      split: if_splits option.splits)

lemma frame_get: "kv_inv s \<Longrightarrow> L_get args r obs s = Some (reply, b, t) \<Longrightarrow> chan_frame s t"
  by (auto simp: L_get_def L_executeGetOp_ok chan_frame_def Let_def split: if_splits option.splits)

lemma frame_snapshot:
  assumes "kv_inv s" "L_maySnapshot K index s = Some t"
  shows "chan_frame s t"
proof -
  obtain r where r: "t = s\<lparr>raftNode := r\<rparr>" "node_inv r"
    using L_maySnapshot_ok [OF assms(1), of K index] assms(2) by auto
  have "M_getLastLogIndex (raftNode t) = M_getLastLogIndex (raftNode s)"
    using assms persist_log [OF kv_inv_fields(2) [OF assms(1)]]
    by (auto simp: L_maySnapshot_def bind_eq_Some_conv split: if_splits)
  with r assms(1) show ?thesis by (simp add: chan_frame_def kv_inv_def)
qed

lemma frame_push:
  assumes "kv_inv s" "L_tryPush2Wait c index s = Some (b, t)"
  shows "chan_frame s t"
proof -
  obtain m where "t = s\<lparr>queues := m\<rparr>" "kv_inv (s\<lparr>queues := m\<rparr>)"
    by (rule L_tryPush2Wait_ok [OF assms(1), of c index]) (use assms(2) in simp)
  then show ?thesis by (simp add: chan_frame_def)
qed

lemma frame_put:
  assumes "kv_inv s" "L_executePutOp c s = Some t"
  shows "chan_frame s t"
proof -
  obtain d where "t = note_request c (s\<lparr>table_data := d\<rparr>)" "sl_inv d"
    by (rule L_executePutOp_ok [OF assms(1), of c]) (use assms(2) in simp)
  with assms(1) show ?thesis by (simp add: chan_frame_def kv_inv_table)
qed

lemma frame_command:
  assumes "kv_inv s" "L_executeCommand K u msg s = Ret t"
  shows "chan_frame s t"
proof (cases "commandIndex msg \<le> word_of_int (lastSnapshotCommandIndex s)")
  case False
  then obtain c s1 s2 b where "(if \<not> L_duplicateRequest (oclientId c) (orequestId c) s \<and> operation c = Put
      then L_executePutOp c s else Some s) = Some s1"
    and s2: "L_maySnapshot K (to_int (commandIndex msg)) s1 = Some s2"
    and t: "L_tryPush2Wait c (to_int (commandIndex msg)) s2 = Some (b, t)"
    using assms(2) by (auto simp: L_executeCommand_def and_then_Ret of_opt_def split: option.splits)
  then have s1: "chan_frame s s1"
    using frame_put [OF assms(1)] frame_refl [OF assms(1)] by (auto split: if_splits)
  note f2 = frame_snapshot [OF frame_kv_inv [OF s1] s2]
  from frame_trans [OF s1 frame_trans [OF f2 frame_push [OF frame_kv_inv [OF f2] t]]] show ?thesis .
qed (use assms in \<open>simp add: L_executeCommand_def frame_refl\<close>)

lemma frame_message:
  assumes "kv_inv s" "handle_message K u msg s = Ret t"
  shows "chan_frame s t"
proof -
  obtain s1 where s1: "(if validCommand msg then L_executeCommand K u msg s else Ret s) = Ret s1"
    "(if validSnapshot msg then kv_L_installSnapshot K msg s1 else Ret s1) = Ret t"
    using assms(2) by (auto simp: handle_message_def and_then_Ret)
  have "chan_frame s s1"
    using s1(1) frame_command [OF assms(1)] frame_refl [OF assms(1)] by (auto split: if_splits)
  moreover have "chan_frame s1 t"
    using s1(2) frame_kv_inv [OF calculation] frame_load [of s1 K "snapshot msg"]
    by (auto simp: kv_L_installSnapshot_def and_then_Ret chan_frame_def split: if_splits)
  ultimately show ?thesis by (rule frame_trans)
qed

section \<open>The calls\<close>

record kv_system =
  server :: kv_server
  calls :: "put_call list"

inductive sys_step :: "kv_serial \<Rightarrow> op \<Rightarrow> kv_system \<Rightarrow> kv_system \<Rightarrow> bool" for K u where
  call: "sys_step K u y (y\<lparr>calls := calls y @ [PutCalled args]\<rparr>)"
| advance: "k < length (calls y) \<Longrightarrow> put_step K timeout (calls y ! k) (server y) = Some (c, s) \<Longrightarrow>
    sys_step K u y (y\<lparr>server := s, calls := (calls y)[k := c]\<rparr>)"
| message: "sq_pop (applyChan (server y)) = Some (msg, q) \<Longrightarrow>
    handle_message K u msg ((server y)\<lparr>applyChan := q\<rparr>) = Ret s \<Longrightarrow> sys_step K u y (y\<lparr>server := s\<rparr>)"
| get: "L_get args r obs (server y) = Some (reply, sent, s) \<Longrightarrow> sys_step K u y (y\<lparr>server := s\<rparr>)"
| node: "node_step (ser K) (raftNode (server y)) r \<Longrightarrow>
    sys_step K u y (y\<lparr>server := (server y)\<lparr>raftNode := r, applyChan := applyChan (server y) @ msgs\<rparr>\<rparr>)"

definition sys_start :: "kv_system \<Rightarrow> bool" where
  "sys_start y \<longleftrightarrow> kv_inv (server y) \<and> calls y = []"

text \<open>The index a call holds, and what it relies on.\<close>

fun holds :: "put_call \<Rightarrow> int option" where
  "holds (PutExecuted a i) = Some i"
| "holds (PutWaiting a i p) = Some i"
| "holds (PutPopped a i r) = Some i"
| "holds (PutDecided r i) = Some i"
| "holds _ = None"

definition call_ok :: "kv_server \<Rightarrow> put_call \<Rightarrow> bool" where
  "call_ok s c \<longleftrightarrow> (\<forall>i. holds c = Some i \<longrightarrow> i \<le> M_getLastLogIndex (raftNode s))
     \<and> (\<forall>a i p. c = PutWaiting a i p \<longrightarrow> appliedChan s i = Some p)"

definition calls_ok :: "kv_server \<Rightarrow> put_call list \<Rightarrow> bool" where
  "calls_ok s cs \<longleftrightarrow> (\<forall>k < length cs. call_ok s (cs ! k))
     \<and> (\<forall>k < length cs. \<forall>l < length cs. holds (cs ! k) \<noteq> None \<and> holds (cs ! k) = holds (cs ! l) \<longrightarrow> k = l)"

definition sys_inv :: "kv_system \<Rightarrow> bool" where
  "sys_inv y \<longleftrightarrow> kv_inv (server y) \<and> calls_ok (server y) (calls y)"

lemma call_ok_frame: "call_ok s c \<Longrightarrow> chan_frame s t \<Longrightarrow> call_ok t c"
  by (fastforce simp: call_ok_def chan_frame_def)

lemma sys_inv_frame: "sys_inv y \<Longrightarrow> chan_frame (server y) s \<Longrightarrow> sys_inv (y\<lparr>server := s\<rparr>)"
  using call_ok_frame by (auto simp: sys_inv_def calls_ok_def frame_kv_inv)

text \<open>
  One call moves from \<open>c\<close> to \<open>d\<close>: its own facts, its index (kept, given up, or new), and the
  facts of the calls with other indices.
\<close>

definition call_moves :: "kv_server \<Rightarrow> put_call \<Rightarrow> kv_server \<Rightarrow> put_call \<Rightarrow> bool" where
  "call_moves s c t d \<longleftrightarrow> kv_inv t \<and> call_ok t d
     \<and> (holds d = holds c \<or> holds d = None \<or> (\<exists>i. holds d = Some i \<and> M_getLastLogIndex (raftNode s) < i))
     \<and> M_getLastLogIndex (raftNode s) \<le> M_getLastLogIndex (raftNode t)
     \<and> (\<forall>i. holds c \<noteq> Some i \<longrightarrow> appliedChan t i = appliedChan s i)"

lemma calls_ok_moves:
  assumes "calls_ok s cs" "k < length cs" "call_moves s (cs ! k) t d"
  shows "calls_ok t (cs[k := d])"
proof -
  have other: "call_ok t (cs ! l)" if "l < length cs" "l \<noteq> k" for l
  proof -
    have ok: "call_ok s (cs ! l)" and ne: "holds (cs ! l) \<noteq> None \<Longrightarrow> holds (cs ! l) \<noteq> holds (cs ! k)"
      using assms(1,2) that by (auto simp: calls_ok_def)
    have "appliedChan t i = Some p" if "cs ! l = PutWaiting a i p" for a i p
      using that ok ne assms(3) by (auto simp: call_ok_def call_moves_def)
    with ok assms(3) show ?thesis by (fastforce simp: call_ok_def call_moves_def)
  qed
  have uniq: "holds (cs ! l) \<noteq> holds d" if "l < length cs" "l \<noteq> k" "holds d \<noteq> None" for l
  proof
    assume "holds (cs ! l) = holds d"
    moreover have "call_ok s (cs ! l)" using assms(1) that by (simp add: calls_ok_def)
    ultimately show False
      using that assms unfolding calls_ok_def call_moves_def call_ok_def by (metis leD)
  qed
  show ?thesis
    unfolding calls_ok_def
  proof (intro conjI allI impI)
    fix l assume "l < length (cs[k := d])"
    then show "call_ok t (cs[k := d] ! l)"
      using other assms(3) by (cases "l = k") (auto simp: call_moves_def)
  next
    fix l m assume "l < length (cs[k := d])" "m < length (cs[k := d])"
      and "holds (cs[k := d] ! l) \<noteq> None \<and> holds (cs[k := d] ! l) = holds (cs[k := d] ! m)"
    then show "l = m"
      using uniq [of l] uniq [of m] assms(1) unfolding calls_ok_def
      by (cases "l = k"; cases "m = k") (auto simp: nth_list_update_neq)
  qed
qed

lemma kv_inv_node: "kv_inv s \<Longrightarrow> node_inv r \<Longrightarrow> kv_inv (s\<lparr>raftNode := r\<rparr>)"
  by (simp add: kv_inv_def)

lemma raft_execute_moves:
  assumes "node_inv s"
  shows "node_inv (snd (raft_execute S c s))"
    "M_getLastLogIndex s \<le> M_getLastLogIndex (snd (raft_execute S c s))"
  using node_step_inv [OF node_step.execute assms] node_step_log [OF node_step.execute assms] by blast+

lemma kv_inv_register:
  "kv_inv s \<Longrightarrow> appliedChan s i = None \<Longrightarrow>
     kv_inv (s\<lparr>appliedChan := (appliedChan s)(i \<mapsto> nextQueue s),
       queues := (queues s)(nextQueue s \<mapsto> []), nextQueue := Suc (nextQueue s)\<rparr>)"
  by (fastforce simp: kv_inv_def)

lemma kv_inv_delete:
  "kv_inv s \<Longrightarrow> appliedChan s i = Some p \<Longrightarrow>
     kv_inv (s\<lparr>appliedChan := (appliedChan s)(i := None), queues := (queues s)(p := None)\<rparr>)"
  by (fastforce simp: kv_inv_def)

lemma put_step_moves:
  assumes I: "kv_inv s" and C: "call_ok s c"
  shows "\<exists>d t. put_step K timeout c s = Some (d, t) \<and> call_moves s c t d"
proof (cases c)
  case (PutCalled args)
  obtain index tm r where e: "raft_execute (ser K) (put_op args) (raftNode s) = ((index, tm), r)"
    by (metis prod.collapse)
  have r: "node_inv r" "M_getLastLogIndex (raftNode s) \<le> M_getLastLogIndex r"
    using raft_execute_moves [OF kv_inv_fields(2) [OF I], of "ser K" "put_op args"] e by simp_all
  have "index = - 1 \<or> index = M_getLastLogIndex r \<and> M_getLastLogIndex (raftNode s) < index"
    using execute_log [of "ser K" "put_op args" "raftNode s"] e by (auto split: if_splits)
  with r e PutCalled I show ?thesis
    by (auto simp: call_moves_def call_ok_def kv_inv_node)
next
  case (PutExecuted args i)
  show ?thesis
  proof (cases "appliedChan s i")
    case None
    then show ?thesis using PutExecuted C kv_inv_register [OF I None]
      by (auto simp: call_moves_def call_ok_def)
  qed (use PutExecuted C I in \<open>auto simp: call_moves_def call_ok_def\<close>)
next
  case (PutWaiting args i p)
  then obtain q where q: "queues s p = Some q" using C kv_inv_fields(3) [OF I] by (auto simp: call_ok_def)
  then have "kv_inv (s\<lparr>queues := (queues s)(p \<mapsto> q')\<rparr>)" for q' using I by (simp add: kv_inv_def)
  with PutWaiting C I q show ?thesis
    by (cases q) (auto simp: call_moves_def call_ok_def sq_pop_def)
next
  case (PutPopped args i r)
  with C I show ?thesis by (auto simp: call_moves_def call_ok_def)
next
  case (PutDecided r i)
  show ?thesis
  proof (cases "appliedChan s i")
    case (Some p)
    then obtain q where "queues s p = Some q" using kv_inv_fields(3) [OF I] by blast
    then show ?thesis using PutDecided Some kv_inv_delete [OF I Some]
      by (auto simp: call_moves_def call_ok_def)
  qed (use PutDecided C I in \<open>auto simp: call_moves_def call_ok_def\<close>)
next
  case (PutReplied r)
  with C I show ?thesis by (auto simp: call_moves_def call_ok_def)
qed

lemma calls_ok_new:
  assumes "calls_ok s cs"
  shows "calls_ok s (cs @ [PutCalled args])"
  unfolding calls_ok_def
proof (intro conjI allI impI)
  fix k assume "k < length (cs @ [PutCalled args])"
  then show "call_ok s ((cs @ [PutCalled args]) ! k)"
    using assms by (cases "k < length cs") (auto simp: calls_ok_def call_ok_def nth_append less_Suc_eq)
next
  fix k l assume "k < length (cs @ [PutCalled args])" "l < length (cs @ [PutCalled args])"
    and "holds ((cs @ [PutCalled args]) ! k) \<noteq> None
      \<and> holds ((cs @ [PutCalled args]) ! k) = holds ((cs @ [PutCalled args]) ! l)"
  then show "k = l"
    using assms unfolding calls_ok_def
    by (cases "k < length cs"; cases "l < length cs") (auto simp: nth_append less_Suc_eq)
qed

lemma sys_step_inv:
  assumes "sys_step K u y z" "sys_inv y"
  shows "sys_inv z"
  using assms
proof (induction rule: sys_step.induct)
  case (call y args)
  then show ?case by (simp add: sys_inv_def calls_ok_new)
next
  case (advance k y timeout c s)
  then have I: "kv_inv (server y)" "call_ok (server y) (calls y ! k)" "calls_ok (server y) (calls y)"
    by (auto simp: sys_inv_def calls_ok_def)
  have m: "call_moves (server y) (calls y ! k) s c"
    using put_step_moves [OF I(1,2), of K timeout] advance(2) by auto
  from calls_ok_moves [OF I(3) advance(1) m] m show ?case by (simp add: sys_inv_def call_moves_def)
next
  case (message y msg q s)
  then have "kv_inv ((server y)\<lparr>applyChan := q\<rparr>)" by (simp add: sys_inv_def)
  from frame_message [OF this message(2)] have "chan_frame (server y) s" by (simp add: chan_frame_def)
  with message show ?case by (simp add: sys_inv_frame)
next
  case (get args r obs y reply sent s)
  then have "chan_frame (server y) s" using frame_get by (auto simp: sys_inv_def)
  with get show ?case by (simp add: sys_inv_frame)
next
  case (node y r msgs)
  then have I: "kv_inv (server y)" "node_inv (raftNode (server y))"
    by (auto simp: sys_inv_def kv_inv_def)
  have "chan_frame (server y) ((server y)\<lparr>raftNode := r, applyChan := applyChan (server y) @ msgs\<rparr>)"
    using node_step_log [OF node(1) I(2)] node_step_inv [OF node(1) I(2)] I(1)
    by (simp add: chan_frame_def kv_inv_node)
  with node show ?case by (simp add: sys_inv_frame)
qed

interpretation system: step_invariant sys_start "sys_step K u" sys_inv for K u
proof
  show "sys_start y \<Longrightarrow> sys_inv y" for y by (simp add: sys_start_def sys_inv_def calls_ok_def)
qed (rule sys_step_inv)

section \<open>Properties\<close>

text \<open>
  C24. Put calls never touch a deleted channel. However many put calls are in flight and
  however they interleave with each other, with the message loop, with get calls and with
  the steps of the node: the next action of every call is defined, and a channel a call
  waits on is registered under its index and alive until the call itself deletes it.
\<close>
theorem puts_never_dangle:
  assumes "kv_inv (server y0)" "calls y0 = []" "(sys_step K u)\<^sup>*\<^sup>* y0 y" "k < length (calls y)"
  shows "(\<exists>c s. put_step K timeout (calls y ! k) (server y) = Some (c, s))
    \<and> (\<forall>args index que. calls y ! k = PutWaiting args index que \<longrightarrow>
         appliedChan (server y) index = Some que \<and> queues (server y) que \<noteq> None)"
proof -
  have I: "sys_inv y" using system.reach_inv [of y0 K u y] assms(1-3) by (simp add: sys_start_def)
  then have c: "kv_inv (server y)" "call_ok (server y) (calls y ! k)"
    using assms(4) by (auto simp: sys_inv_def calls_ok_def)
  show ?thesis
    using put_step_moves [OF c, of K timeout] c(2) kv_inv_fields(3) [OF c(1)] by (auto simp: call_ok_def)
qed

text \<open>A put of the leader: it is executed, registered, answered by the message loop and removed.\<close>

definition demo_put_args :: put_args where
  "demo_put_args = \<lparr>pa_key = ''k'', pa_value = ''x'', pa_clientid = ''c'', pa_requestid = 1\<rparr>"

definition demo_system :: kv_system where
  "demo_system = \<lparr>server = demo_server, calls = []\<rparr>"

lemma demo_waiting:
  "\<exists>y s. (sys_step demo_kv no_op)\<^sup>*\<^sup>* demo_system y \<and> y = \<lparr>server = s, calls = [PutWaiting demo_put_args 4 0]\<rparr>"
proof -
  let ?s0 = "demo_server"
  obtain r where r: "raft_execute (ser demo_kv) (put_op demo_put_args) (raftNode ?s0) = ((4, 2), r)"
    by (simp add: raft_execute_def demo_server_def demo_leader_def Let_def M_getNewCommandIndex_def
        M_getLastLogIndex_def entry_def node_simps)
  let ?s1 = "?s0\<lparr>raftNode := r\<rparr>"
  let ?s2 = "?s1\<lparr>appliedChan := [4 \<mapsto> 0], queues := [0 \<mapsto> []], nextQueue := 1\<rparr>"
  have 1: "sys_step demo_kv no_op demo_system \<lparr>server = ?s0, calls = [PutCalled demo_put_args]\<rparr>"
    using sys_step.call [of demo_kv no_op demo_system demo_put_args] by (simp add: demo_system_def)
  have 2: "sys_step demo_kv no_op \<lparr>server = ?s0, calls = [PutCalled demo_put_args]\<rparr>
      \<lparr>server = ?s1, calls = [PutExecuted demo_put_args 4]\<rparr>"
    using sys_step.advance [of 0 "\<lparr>server = ?s0, calls = [PutCalled demo_put_args]\<rparr>" demo_kv False
        "PutExecuted demo_put_args 4" ?s1 no_op] r by simp
  have 3: "sys_step demo_kv no_op \<lparr>server = ?s1, calls = [PutExecuted demo_put_args 4]\<rparr>
      \<lparr>server = ?s2, calls = [PutWaiting demo_put_args 4 0]\<rparr>"
    using sys_step.advance [of 0 "\<lparr>server = ?s1, calls = [PutExecuted demo_put_args 4]\<rparr>" demo_kv False
        "PutWaiting demo_put_args 4 0" ?s2 no_op] by (simp add: demo_server_def)
  from 1 2 3 show ?thesis
    by (intro exI [of _ "\<lparr>server = ?s2, calls = [PutWaiting demo_put_args 4 0]\<rparr>"] exI [of _ ?s2]) auto
qed

theorem puts_never_dangle_witness:
  "\<exists>y. (sys_step demo_kv no_op)\<^sup>*\<^sup>* demo_system y \<and> calls y = [PutWaiting demo_put_args 4 0]
    \<and> queues (server y) 0 \<noteq> None"
proof -
  obtain y s where y: "(sys_step demo_kv no_op)\<^sup>*\<^sup>* demo_system y"
    "y = \<lparr>server = s, calls = [PutWaiting demo_put_args 4 0]\<rparr>" using demo_waiting by blast
  have "kv_inv (server demo_system)" "calls demo_system = []"
    using demo_server_ok(1) by (simp_all add: demo_system_def)
  from puts_never_dangle [OF this y(1), of 0 False] y show ?thesis by auto
qed

end
