(* ===== verification/Clerk.thy ===== *)
theory Clerk
  imports KvServer
begin

text \<open>
  \<open>src/raft/include/clerk/clerk.h\<close> and \<open>clerk.cpp\<close>, with the helpers of \<open>kvHepler.cpp\<close>: the
  client that asks the servers in turn until one answers. \<open>ans n i args\<close> is what attempt
  number \<open>n\<close>, made at server \<open>i\<close>, brings back: \<open>None\<close> when the call fails, else the reply.
\<close>

section \<open>State\<close>

record clerk =
  servers :: "(string \<times> 16 word) list"
  clientId :: string
  requestId :: "64 word"
  leaderId :: nat

text \<open>\<open>_M_uuid\<close> prints four random numbers one after the other.\<close>

definition M_uuid :: "nat \<times> nat \<times> nat \<times> nat \<Rightarrow> string" where
  "M_uuid r = (case r of (a, b, c, d) \<Rightarrow> dec_digits a @ dec_digits b @ dec_digits c @ dec_digits d)"

definition clerk_ctor :: "nat \<times> nat \<times> nat \<times> nat \<Rightarrow> clerk" where
  "clerk_ctor r = \<lparr>servers = [], clientId = M_uuid r, requestId = 0, leaderId = 0\<rparr>"

definition clerk_init :: "string \<Rightarrow> clerk \<Rightarrow> clerk" where
  "clerk_init content c = c\<lparr>servers := read_nodes (load_config content Map.empty) 0\<rparr>"

text \<open>The message field is an \<open>int32\<close>, the counter a \<open>size_t\<close>.\<close>

definition next_server :: "nat \<Rightarrow> nat \<Rightarrow> nat" where
  "next_server cnt leader = (leader + 1) mod cnt"

section \<open>Reading\<close>

type_synonym get_answers = "nat \<Rightarrow> nat \<Rightarrow> get_args \<Rightarrow> get_reply option"
type_synonym put_answers = "nat \<Rightarrow> nat \<Rightarrow> put_args \<Rightarrow> put_reply option"

text \<open>
  The loops return \<open>None\<close> when they never end or index past the servers. The second component
  of the result is the server to remember, if any.
\<close>

partial_function (option) get_loop ::
  "get_answers \<Rightarrow> nat \<Rightarrow> get_args \<Rightarrow> nat \<Rightarrow> nat \<Rightarrow> (string \<times> nat option) option" where
  "get_loop ans cnt args n leader =
     (if cnt \<le> leader then None
      else case ans n leader args of
        None \<Rightarrow> get_loop ans cnt args (Suc n) (next_server cnt leader)
      | Some reply \<Rightarrow>
          (if gr_err reply = RAFT_ERR_WRONG_LEADER
           then get_loop ans cnt args (Suc n) (next_server cnt leader)
           else if gr_err reply = RAFT_ERR_NO_KEY then Some ([], None)
           else if gr_err reply = RAFT_OK then Some (gr_value reply, Some leader)
           else get_loop ans cnt args (Suc n) leader))"

definition clerk_get_args :: "string \<Rightarrow> clerk \<Rightarrow> get_args" where
  "clerk_get_args key c =
     \<lparr>ga_key = key, ga_clientid = clientId c, ga_requestid = to_int (requestId c)\<rparr>"

definition clerk_get :: "get_answers \<Rightarrow> string \<Rightarrow> clerk \<Rightarrow> (string \<times> clerk) option" where
  "clerk_get ans key c =
     (let c = c\<lparr>requestId := requestId c + 1\<rparr> in
      do {
        (v, l) \<leftarrow> get_loop ans (length (servers c)) (clerk_get_args key c) 0 (leaderId c);
        Some (v, case l of None \<Rightarrow> c | Some l \<Rightarrow> c\<lparr>leaderId := l\<rparr>) })"

section \<open>Writing\<close>

partial_function (option) put_loop ::
  "put_answers \<Rightarrow> nat \<Rightarrow> put_args \<Rightarrow> nat \<Rightarrow> nat \<Rightarrow> nat option" where
  "put_loop ans cnt args n leader =
     (if cnt \<le> leader then None
      else case ans n leader args of
        None \<Rightarrow> put_loop ans cnt args (Suc n) (next_server cnt leader)
      | Some reply \<Rightarrow>
          (if pr_err reply = RAFT_OK then Some leader
           else if pr_err reply = RAFT_ERR_WRONG_LEADER
           then put_loop ans cnt args (Suc n) (next_server cnt leader)
           else put_loop ans cnt args (Suc n) leader))"

definition clerk_put_args :: "string \<Rightarrow> string \<Rightarrow> clerk \<Rightarrow> put_args" where
  "clerk_put_args key v c =
     \<lparr>pa_key = key, pa_value = v, pa_clientid = clientId c, pa_requestid = to_int (requestId c)\<rparr>"

definition clerk_put :: "put_answers \<Rightarrow> string \<Rightarrow> string \<Rightarrow> clerk \<Rightarrow> clerk option" where
  "clerk_put ans key v c =
     (let c = c\<lparr>requestId := requestId c + 1\<rparr> in
      do {
        l \<leftarrow> put_loop ans (length (servers c)) (clerk_put_args key v c) 0 (leaderId c);
        Some (c\<lparr>leaderId := l\<rparr>) })"

section \<open>Round robin\<close>

lemma error_codes [simp]:
  "RAFT_OK \<noteq> RAFT_ERR_WRONG_LEADER" "RAFT_ERR_WRONG_LEADER \<noteq> RAFT_OK"
  "RAFT_OK \<noteq> RAFT_ERR_NO_KEY" "RAFT_ERR_NO_KEY \<noteq> RAFT_OK"
  "RAFT_ERR_NO_KEY \<noteq> RAFT_ERR_WRONG_LEADER" "RAFT_ERR_WRONG_LEADER \<noteq> RAFT_ERR_NO_KEY"
  by (simp_all add: RAFT_OK_def RAFT_ERR_WRONG_LEADER_def RAFT_ERR_NO_KEY_def)

text \<open>Steps from \<open>l\<close> to \<open>target\<close> going round.\<close>

definition distance :: "nat \<Rightarrow> nat \<Rightarrow> nat \<Rightarrow> nat" where
  "distance cnt l target = (if l \<le> target then target - l else cnt - l + target)"

lemma next_server_less: "l < cnt \<Longrightarrow> next_server cnt l < cnt"
  by (simp add: next_server_def)

lemma distance_next:
  "l < cnt \<Longrightarrow> target < cnt \<Longrightarrow> l \<noteq> target \<Longrightarrow>
     distance cnt (next_server cnt l) target < distance cnt l target"
  by (cases "l + 1 = cnt") (auto simp: distance_def next_server_def)

definition helpful :: "put_answers \<Rightarrow> nat \<Rightarrow> put_args \<Rightarrow> nat \<Rightarrow> nat \<Rightarrow> bool" where
  "helpful ans cnt args N L \<longleftrightarrow> L < cnt
     \<and> (\<forall>n \<ge> N. \<exists>r. ans n L args = Some r \<and> pr_err r = RAFT_OK)
     \<and> (\<forall>n i r. ans n i args = Some r \<longrightarrow> pr_err r \<in> {RAFT_OK, RAFT_ERR_WRONG_LEADER})"

lemma put_loop_on:
  assumes "helpful ans cnt args N L" "l < cnt" "\<not> (\<exists>r. ans n l args = Some r \<and> pr_err r = RAFT_OK)"
  shows "put_loop ans cnt args n l = put_loop ans cnt args (Suc n) (next_server cnt l)"
proof (cases "ans n l args")
  case (Some r)
  then have "pr_err r = RAFT_ERR_WRONG_LEADER"
    using assms(1,3) unfolding helpful_def by (metis insertE singletonD)
  with Some assms(2) show ?thesis by (subst put_loop.simps) simp
qed (use assms(2) in \<open>subst put_loop.simps, simp\<close>)

lemma put_loop_late:
  assumes "helpful ans cnt args N L" "N \<le> n" "l < cnt"
  shows "\<exists>m j r. put_loop ans cnt args n l = Some j \<and> j < cnt \<and> ans m j args = Some r \<and> pr_err r = RAFT_OK"
  using assms
proof (induction "distance cnt l L" arbitrary: n l rule: less_induct)
  case less
  show ?case
  proof (cases "\<exists>r. ans n l args = Some r \<and> pr_err r = RAFT_OK")
    case True
    then obtain r where r: "ans n l args = Some r" "pr_err r = RAFT_OK" by blast
    with less.prems(3) have "put_loop ans cnt args n l = Some l" by (subst put_loop.simps) simp
    with less.prems(3) r show ?thesis by blast
  next
    case False
    with less.prems have "l \<noteq> L" "L < cnt" by (auto simp: helpful_def)
    from less.hyps [OF distance_next [OF less.prems(3) this(2,1)] less.prems(1)] less.prems(2,3)
    have IH: "\<exists>m j r. put_loop ans cnt args (Suc n) (next_server cnt l) = Some j \<and> j < cnt
        \<and> ans m j args = Some r \<and> pr_err r = RAFT_OK" by (simp add: next_server_less)
    have "put_loop ans cnt args n l = put_loop ans cnt args (Suc n) (next_server cnt l)"
      by (rule put_loop_on [OF less.prems(1,3) False])
    with IH show ?thesis by simp
  qed
qed

lemma put_loop_returns:
  assumes "helpful ans cnt args N L" "l < cnt"
  shows "\<exists>m j r. put_loop ans cnt args n l = Some j \<and> j < cnt \<and> ans m j args = Some r \<and> pr_err r = RAFT_OK"
  using assms(2)
proof (induction "N - n" arbitrary: n l)
  case 0
  then show ?case using put_loop_late [OF assms(1)] by simp
next
  case (Suc d)
  show ?case
  proof (cases "\<exists>r. ans n l args = Some r \<and> pr_err r = RAFT_OK")
    case True
    then obtain r where r: "ans n l args = Some r" "pr_err r = RAFT_OK" by blast
    with Suc.prems have "put_loop ans cnt args n l = Some l" by (subst put_loop.simps) simp
    with Suc.prems r show ?thesis by blast
  next
    case False
    have "d = N - Suc n" using Suc.hyps(2) by simp
    from Suc.hyps(1) [OF this next_server_less [OF Suc.prems]]
    have IH: "\<exists>m j r. put_loop ans cnt args (Suc n) (next_server cnt l) = Some j \<and> j < cnt
        \<and> ans m j args = Some r \<and> pr_err r = RAFT_OK" .
    have "put_loop ans cnt args n l = put_loop ans cnt args (Suc n) (next_server cnt l)"
      by (rule put_loop_on [OF assms(1) Suc.prems False])
    with IH show ?thesis by simp
  qed
qed

lemma get_loop_result:
  "get_loop ans cnt args n l = Some (v, k) \<Longrightarrow>
     \<exists>m i r. i < cnt \<and> ans m i args = Some r
       \<and> (k = Some i \<and> gr_err r = RAFT_OK \<and> v = gr_value r \<or> k = None \<and> gr_err r = RAFT_ERR_NO_KEY \<and> v = [])"
proof -
  let ?P = "\<lambda>ans cnt args (n :: nat) (l :: nat) (y :: string \<times> nat option). \<exists>m i r. i < cnt \<and> ans m i args = Some r
       \<and> (snd y = Some i \<and> gr_err r = RAFT_OK \<and> fst y = gr_value r
          \<or> snd y = None \<and> gr_err r = RAFT_ERR_NO_KEY \<and> fst y = [])"
  assume "get_loop ans cnt args n l = Some (v, k)"
  then have "?P ans cnt args n l (v, k)"
  proof (rule get_loop.raw_induct [of ?P, rotated])
    fix f ans cnt args n l y
    assume IH: "\<And>ans cnt args n l y. f ans cnt args n l = Some y \<Longrightarrow> ?P ans cnt args n l y"
      and "(if cnt \<le> l then None
         else case ans n l args of None \<Rightarrow> f ans cnt args (Suc n) (next_server cnt l)
         | Some reply \<Rightarrow>
             if gr_err reply = RAFT_ERR_WRONG_LEADER then f ans cnt args (Suc n) (next_server cnt l)
             else if gr_err reply = RAFT_ERR_NO_KEY then Some ([], None)
             else if gr_err reply = RAFT_OK then Some (gr_value reply, Some l)
             else f ans cnt args (Suc n) l) = Some y"
    then show "?P ans cnt args n l y"
      by (auto split: if_splits option.splits) (metis not_le)+
  qed
  then show ?thesis by auto
qed

section \<open>Properties\<close>

text \<open>
  C39. A put of the clerk returns: if some server answers OK to this request from some attempt
  on, and the others fail, refuse or answer OK, then the loop ends, at a server that did answer
  OK, which the clerk remembers; the request id grew by one and was the same in every attempt.
\<close>
theorem clerk_put_returns:
  assumes "leaderId c < length (servers c)" "L < length (servers c)"
    and "args = clerk_put_args key v (c\<lparr>requestId := requestId c + 1\<rparr>)"
    and "\<forall>n \<ge> N. \<exists>r. ans n L args = Some r \<and> pr_err r = RAFT_OK"
    and "\<forall>n i r. ans n i args = Some r \<longrightarrow> pr_err r \<in> {RAFT_OK, RAFT_ERR_WRONG_LEADER}"
  shows "\<exists>t n r. clerk_put ans key v c = Some t \<and> leaderId t < length (servers t)
    \<and> ans n (leaderId t) args = Some r \<and> pr_err r = RAFT_OK \<and> requestId t = requestId c + 1
    \<and> servers t = servers c \<and> clientId t = clientId c"
proof -
  have "helpful ans (length (servers c)) args N L" using assms by (simp add: helpful_def)
  from put_loop_returns [OF this assms(1), of 0]
  obtain n j r where j: "put_loop ans (length (servers c)) args 0 (leaderId c) = Some j"
    "j < length (servers c)" "ans n j args = Some r" "pr_err r = RAFT_OK" by blast
  then have "clerk_put ans key v c = Some (c\<lparr>requestId := requestId c + 1, leaderId := j\<rparr>)"
    using assms(3) by (simp add: clerk_put_def Let_def)
  with j show ?thesis by (intro exI [of _ "c\<lparr>requestId := requestId c + 1, leaderId := j\<rparr>"]) auto
qed

definition demo_answers :: put_answers where
  "demo_answers n i args = (if i = 2 then (if n < 7 then None else Some \<lparr>pr_err = RAFT_OK\<rparr>)
     else Some \<lparr>pr_err = RAFT_ERR_WRONG_LEADER\<rparr>)"

definition demo_clerk :: clerk where
  "demo_clerk = \<lparr>servers = [(''a'', 1), (''b'', 2), (''c'', 3)], clientId = ''c'', requestId = 0, leaderId = 0\<rparr>"

theorem clerk_put_returns_witness:
  "\<exists>t. clerk_put demo_answers ''k'' ''v'' demo_clerk = Some t \<and> leaderId t = 2 \<and> requestId t = 1"
proof -
  obtain t n r where "clerk_put demo_answers ''k'' ''v'' demo_clerk = Some t"
    "demo_answers n (leaderId t) (clerk_put_args ''k'' ''v'' (demo_clerk\<lparr>requestId := requestId demo_clerk + 1\<rparr>)) = Some r"
    "pr_err r = RAFT_OK" "requestId t = requestId demo_clerk + 1"
    using clerk_put_returns [of demo_clerk 2 _ "''k''" "''v''" 7 demo_answers, OF _ _ refl]
    by (fastforce simp: demo_answers_def demo_clerk_def split: if_splits)
  then show ?thesis by (auto simp: demo_answers_def demo_clerk_def split: if_splits)
qed

text \<open>
  What a get of the clerk returns, when it returns: the value of an OK answer, whose server
  is remembered, or the empty string after an answer that the key does not exist; never
  anything else. The empty string is also what an empty value gives.
\<close>
lemma clerk_get_result:
  assumes "clerk_get ans key c = Some (v, t)"
  shows "\<exists>n i r. i < length (servers c) \<and> ans n i (clerk_get_args key (c\<lparr>requestId := requestId c + 1\<rparr>)) = Some r
    \<and> (gr_err r = RAFT_OK \<and> v = gr_value r \<and> leaderId t = i
       \<or> gr_err r = RAFT_ERR_NO_KEY \<and> v = [] \<and> leaderId t = leaderId c)
    \<and> requestId t = requestId c + 1"
proof -
  let ?c = "c\<lparr>requestId := requestId c + 1\<rparr>"
  obtain k where k: "get_loop ans (length (servers c)) (clerk_get_args key ?c) 0 (leaderId c) = Some (v, k)"
    "t = (case k of None \<Rightarrow> ?c | Some l \<Rightarrow> ?c\<lparr>leaderId := l\<rparr>)"
    using assms by (auto simp: clerk_get_def Let_def bind_eq_Some_conv)
  from get_loop_result [OF k(1)] k(2) show ?thesis by (fastforce simp: clerk_get_args_def)
qed

definition demo_get_answers :: get_answers where
  "demo_get_answers n i args = (if i = 1 then Some \<lparr>gr_err = RAFT_OK, gr_value = ga_key args @ ''v''\<rparr> else None)"

lemma clerk_get_result_witness:
  "\<exists>t. clerk_get demo_get_answers ''k'' demo_clerk = Some (''kv'', t)
    \<and> (\<exists>n i r. i < 3 \<and> demo_get_answers n i (clerk_get_args ''k'' (demo_clerk\<lparr>requestId := 1\<rparr>)) = Some r
         \<and> leaderId t = i)"
proof -
  let ?a = "clerk_get_args ''k'' (demo_clerk\<lparr>requestId := 1\<rparr>)"
  have "get_loop demo_get_answers 3 ?a 0 0 = Some (''kv'', Some 1)"
    by (subst get_loop.simps, subst get_loop.simps)
      (simp add: demo_get_answers_def next_server_def clerk_get_args_def RAFT_OK_def
        RAFT_ERR_WRONG_LEADER_def RAFT_ERR_NO_KEY_def)
  then have g: "clerk_get demo_get_answers ''k'' demo_clerk = Some (''kv'', demo_clerk\<lparr>requestId := 1, leaderId := 1\<rparr>)"
    by (simp add: clerk_get_def demo_clerk_def numeral_3_eq_3)
  from clerk_get_result [OF g] show ?thesis
    by (intro exI [of _ "demo_clerk\<lparr>requestId := 1, leaderId := 1\<rparr>"] conjI g)
      (fastforce simp: demo_clerk_def numeral_3_eq_3)
qed

end
