(* ===== verification/Timer.thy ===== *)
theory Timer
  imports Prelude "HOL-Library.Word" "HOL-Library.Signed_Division"
begin

text \<open>
  \<open>src/cort/timer.cpp\<close> and \<open>timer.h\<close>: timers on an explicit heap, and the manager with its
  ordered set of pointers. Times are 64-bit words of milliseconds and wrap. Every definition
  is one critical section under the manager's lock; \<open>now\<close> is the clock reading it makes.
\<close>

section \<open>State\<close>

text \<open>A conditional timer wraps its callback: it runs only while the watched object lives.\<close>

datatype 'f callback = Plain 'f | Guarded nat 'f

fun run_callback :: "(nat \<Rightarrow> bool) \<Rightarrow> 'f callback \<Rightarrow> 'f option" where
  "run_callback alive (Plain f) = Some f"
| "run_callback alive (Guarded w f) = (if alive w then Some f else None)"

record 'f timer =
  t_next :: "64 word"
  t_recurring :: bool
  t_period :: "64 word"
  t_cb :: "'f callback option"

type_synonym 'f heap = "nat \<Rightarrow> 'f timer option"

text \<open>
  \<open>tm_memory\<close> is what the memory of a timer's \<open>_M_period\<close> holds before the timer is constructed
  at that address.
\<close>

record 'f manager =
  tm_heap :: "'f heap"
  tm_timers :: "nat list"
  tm_tickled :: bool
  tm_previousTime :: "64 word"
  tm_fresh :: nat
  tm_memory :: "nat \<Rightarrow> 64 word"

definition noNext :: "64 word" where
  "noNext = - 1"

definition timerManager :: "(nat \<Rightarrow> 64 word) \<Rightarrow> 64 word \<Rightarrow> 'f manager" where
  "timerManager mem now = \<lparr>tm_heap = Map.empty, tm_timers = [], tm_tickled = False,
     tm_previousTime = now, tm_fresh = 0, tm_memory = mem\<rparr>"

text \<open>\<open>now_ms\<close>, from the seconds and nanoseconds of the clock.\<close>

definition now_ms :: "int \<Rightarrow> int \<Rightarrow> 64 word" where
  "now_ms sec nsec = word_of_int (sec * 1000 + nsec sdiv 1000000)"

text \<open>
  The constructor of a timer. Members are initialised in the order of their declaration, and
  \<open>_M_next\<close> is declared first: \<open>now_ms() + _M_period\<close> is computed before \<open>_M_period\<close> is set, so
  it adds what the memory held, \<open>old\<close>.
\<close>

definition timer_ctor :: "64 word \<Rightarrow> 64 word \<Rightarrow> 64 word \<Rightarrow> 'f callback \<Rightarrow> bool \<Rightarrow> 'f timer" where
  "timer_ctor old now period cb recurring =
     \<lparr>t_next = now + old, t_recurring = recurring, t_period = period, t_cb = Some cb\<rparr>"

section \<open>The ordered set\<close>

definition comparator :: "'f heap \<Rightarrow> nat \<Rightarrow> nat \<Rightarrow> bool" where
  "comparator h a b = (case (h a, h b) of
       (Some x, Some y) \<Rightarrow>
         (if t_next x < t_next y then True else if t_next y < t_next x then False else a < b)
     | _ \<Rightarrow> False)"

primrec set_insert :: "'f heap \<Rightarrow> nat \<Rightarrow> nat list \<Rightarrow> nat list" where
  "set_insert h a [] = [a]"
| "set_insert h a (b # bs) =
     (if comparator h a b then a # b # bs
      else if comparator h b a then b # set_insert h a bs else b # bs)"

definition set_find :: "'f heap \<Rightarrow> nat \<Rightarrow> nat list \<Rightarrow> nat option" where
  "set_find h a xs = find (\<lambda>b. \<not> comparator h a b \<and> \<not> comparator h b a) xs"

section \<open>Adding\<close>

text \<open>The flag says whether \<open>_M_afterAddTimerAtFront\<close> is called.\<close>

definition M_addTimer :: "nat \<Rightarrow> 'f manager \<Rightarrow> bool \<times> 'f manager" where
  "M_addTimer a m =
     (let m = m\<lparr>tm_timers := set_insert (tm_heap m) a (tm_timers m)\<rparr> in
      if hd (tm_timers m) \<noteq> a \<or> tm_tickled m then (False, m)
      else (True, m\<lparr>tm_tickled := True\<rparr>))"

definition addTimer ::
  "64 word \<Rightarrow> 64 word \<Rightarrow> 'f callback \<Rightarrow> bool \<Rightarrow> 'f manager \<Rightarrow> nat \<times> bool \<times> 'f manager" where
  "addTimer now period cb recurring m =
     (let a = tm_fresh m;
          t = timer_ctor (tm_memory m a) now period cb recurring;
          (tick, m) = M_addTimer a (m\<lparr>tm_heap := (tm_heap m)(a \<mapsto> t), tm_fresh := Suc a\<rparr>)
      in (a, tick, m))"

definition addConditionTimer ::
  "64 word \<Rightarrow> 64 word \<Rightarrow> 'f \<Rightarrow> nat \<Rightarrow> bool \<Rightarrow> 'f manager \<Rightarrow> nat \<times> bool \<times> 'f manager" where
  "addConditionTimer now period f cond recurring m = addTimer now period (Guarded cond f) recurring m"

section \<open>The operations of a timer\<close>

definition set_timer :: "nat \<Rightarrow> 'f timer \<Rightarrow> 'f manager \<Rightarrow> 'f manager" where
  "set_timer a t m = m\<lparr>tm_heap := (tm_heap m)(a \<mapsto> t)\<rparr>"

text \<open>\<open>cancel\<close> erases what \<open>find\<close> returned without looking; \<open>None\<close> when that is \<open>end()\<close>.\<close>

definition timer_cancel :: "nat \<Rightarrow> 'f manager \<Rightarrow> (bool \<times> 'f manager) option" where
  "timer_cancel a m = do {
     t \<leftarrow> tm_heap m a;
     (if t_cb t \<noteq> None then do {
        let m = set_timer a (t\<lparr>t_cb := None\<rparr>) m;
        b \<leftarrow> set_find (tm_heap m) a (tm_timers m);
        Some (True, m\<lparr>tm_timers := remove1 b (tm_timers m)\<rparr>) }
      else Some (False, m)) }"

definition timer_refresh :: "64 word \<Rightarrow> nat \<Rightarrow> 'f manager \<Rightarrow> (bool \<times> 'f manager) option" where
  "timer_refresh now a m = do {
     t \<leftarrow> tm_heap m a;
     Some (if t_cb t \<noteq> None then (False, m)
       else case set_find (tm_heap m) a (tm_timers m) of
         None \<Rightarrow> (False, m)
       | Some b \<Rightarrow>
           (let m = set_timer a (t\<lparr>t_next := now + t_period t\<rparr>)
                  (m\<lparr>tm_timers := remove1 b (tm_timers m)\<rparr>)
            in (True, m\<lparr>tm_timers := set_insert (tm_heap m) a (tm_timers m)\<rparr>))) }"

text \<open>
  \<open>reset\<close>: the first component is the value returned, \<open>None\<close> where the function flows off its
  end without one; the second says whether the manager is notified.
\<close>

definition timer_reset ::
  "64 word \<Rightarrow> 64 word \<Rightarrow> bool \<Rightarrow> nat \<Rightarrow> 'f manager \<Rightarrow> (bool option \<times> bool \<times> 'f manager) option" where
  "timer_reset now period from_now a m = do {
     t \<leftarrow> tm_heap m a;
     Some (if period = t_period t \<and> \<not> from_now then (Some True, False, m)
       else if t_cb t = None then (Some True, False, m)
       else case set_find (tm_heap m) a (tm_timers m) of
         None \<Rightarrow> (Some False, False, m)
       | Some b \<Rightarrow>
           (let m = m\<lparr>tm_timers := remove1 b (tm_timers m)\<rparr>;
                t = (if from_now then t\<lparr>t_next := now\<rparr>
                     else t\<lparr>t_next := t_next t + (period - t_period t)\<rparr>);
                (tick, m) = M_addTimer a (set_timer a (t\<lparr>t_period := period\<rparr>) m)
            in (None, tick, m))) }"

section \<open>The manager's clock\<close>

definition getNextDuration :: "64 word \<Rightarrow> 'f manager \<Rightarrow> (64 word \<times> 'f manager) option" where
  "getNextDuration now m =
     (let m = m\<lparr>tm_tickled := False\<rparr> in
      case tm_timers m of
        [] \<Rightarrow> Some (noNext, m)
      | a # r \<Rightarrow> do {
          t \<leftarrow> tm_heap m a;
          Some (if now \<ge> t_next t then 0 else t_next t - now, m) })"

definition M_clockRollover :: "64 word \<Rightarrow> 'f manager \<Rightarrow> bool \<times> 'f manager" where
  "M_clockRollover now m =
     (now < tm_previousTime m \<and> now < tm_previousTime m - 60 * 60 * 1000,
      m\<lparr>tm_previousTime := now\<rparr>)"

definition next_of :: "'f heap \<Rightarrow> nat \<Rightarrow> 64 word" where
  "next_of h a = (case h a of None \<Rightarrow> 0 | Some t \<Rightarrow> t_next t)"

text \<open>
  The end of the expired timers: \<open>lower_bound\<close> of a new timer, at the unknown address \<open>z\<close>, that
  is due now, and then past those due at the same time.
\<close>

definition timeout_end :: "64 word \<Rightarrow> nat \<Rightarrow> 'f heap \<Rightarrow> nat list \<Rightarrow> nat list" where
  "timeout_end now z h xs =
     dropWhile (\<lambda>b. now = next_of h b)
       (dropWhile (\<lambda>b. next_of h b < now \<or> next_of h b = now \<and> b < z) xs)"

definition iter_of :: "nat list \<Rightarrow> nat option" where
  "iter_of xs = (case xs of [] \<Rightarrow> None | x # r \<Rightarrow> Some x)"

definition iter_succ :: "nat \<Rightarrow> nat list \<Rightarrow> nat option" where
  "iter_succ a xs = iter_of (tl (dropWhile (\<lambda>b. b \<noteq> a) xs))"

text \<open>The collecting loop: the iterator \<open>it\<close> moves on before its timer is taken out.\<close>

partial_function (option) collect ::
  "64 word \<Rightarrow> nat option \<Rightarrow> nat option \<Rightarrow> 'f heap \<Rightarrow> nat list \<Rightarrow> 'f callback option list
    \<Rightarrow> ('f callback option list \<times> 'f heap \<times> nat list) option" where
  "collect now stop it h xs cbs =
     (if it = stop then Some (cbs, h, xs)
      else do {
        a \<leftarrow> it;
        t \<leftarrow> h a;
        let cbs = cbs @ [t_cb t];
        let it = iter_succ a xs;
        let xs = remove1 a xs;
        (if t_recurring t then
           let h = h(a \<mapsto> t\<lparr>t_next := now + t_period t\<rparr>)
           in collect now stop it h (set_insert h a xs) cbs
         else collect now stop it (h(a \<mapsto> t\<lparr>t_cb := None\<rparr>)) xs cbs) })"

definition timeoutCallbacks ::
  "64 word \<Rightarrow> nat \<Rightarrow> 'f callback option list \<Rightarrow> 'f manager
    \<Rightarrow> ('f callback option list \<times> 'f manager) option" where
  "timeoutCallbacks now z cbs m =
     (if tm_timers m = [] then Some (cbs, m)
      else let (rollover, m) = M_clockRollover now m in
        if \<not> rollover \<and> next_of (tm_heap m) (hd (tm_timers m)) > now then Some (cbs, m)
        else do {
          let stop = (if rollover then None else iter_of (timeout_end now z (tm_heap m) (tm_timers m)));
          (temp, h, xs) \<leftarrow> collect now stop (iter_of (tm_timers m)) (tm_heap m) (tm_timers m) [];
          Some (temp, m\<lparr>tm_heap := h, tm_timers := xs\<rparr>) })"

definition tm_empty :: "'f manager \<Rightarrow> bool" where
  "tm_empty m = (tm_timers m = [])"

end
