(* ===== verification/TimerProps.thy ===== *)
theory TimerProps
  imports Timer
begin

text \<open>
  The timer manager's invariant (the set is ordered and holds exactly the timers with a
  callback), that every operation keeps it and returns, what expires when, and a run in which
  recurring timers are collected twice.
\<close>

section \<open>The clock\<close>

text \<open>Readings of a clock that goes forward are ordered, for the next ten million years.\<close>

lemma now_ms_mono:
  assumes "0 \<le> s" "0 \<le> n" "0 \<le> n'" "n < 10 ^ 9" "n' < 10 ^ 9" "s' < 2 ^ 50" "s < s' \<or> s = s' \<and> n \<le> n'"
  shows "now_ms s n \<le> now_ms s' n'"
proof -
  have d: "n sdiv 1000000 = n div 1000000" "n' sdiv 1000000 = n' div 1000000"
    using assms(2,3) by (auto simp: signed_divide_int_def sgn_if)
  have r: "0 \<le> n div 1000000" "n div 1000000 < 1000" "0 \<le> n' div 1000000" "n' div 1000000 < 1000"
    "n \<le> n' \<Longrightarrow> n div 1000000 \<le> n' div 1000000"
    using assms(2-5) by (auto intro: zdiv_mono1)
  define x where "x = s * 1000 + n div 1000000"
  define y where "y = s' * 1000 + n' div 1000000"
  have b: "0 \<le> x" "x \<le> y" "y < 2 ^ 64" using assms r by (auto simp: x_def y_def)
  then have "uint (word_of_int x :: 64 word) = x" "uint (word_of_int y :: 64 word) = y"
    by (simp_all add: uint_word_of_int_eq take_bit_int_eq_self)
  then show ?thesis using b(2) by (simp add: now_ms_def d word_le_def x_def y_def)
qed

section \<open>The order\<close>

definition live :: "'f heap \<Rightarrow> nat \<Rightarrow> bool" where
  "live h a \<longleftrightarrow> (\<exists>t. h a = Some t \<and> t_cb t \<noteq> None)"

lemma comparator_key:
  "h a \<noteq> None \<Longrightarrow> h b \<noteq> None \<Longrightarrow> comparator h a b \<longleftrightarrow>
     next_of h a < next_of h b \<or> next_of h a = next_of h b \<and> a < b"
  by (auto simp: comparator_def next_of_def)

lemma live_heap: "live h a \<Longrightarrow> h a \<noteq> None"
  by (auto simp: live_def)

lemma comparator_irrefl [simp]: "\<not> comparator h a a"
  by (auto simp: comparator_def split: option.splits)

lemma comparator_trans: "comparator h a b \<Longrightarrow> comparator h b c \<Longrightarrow> comparator h a c"
proof -
  assume ab: "comparator h a b" and bc: "comparator h b c"
  then have "h a \<noteq> None" "h b \<noteq> None" "h c \<noteq> None" by (auto simp: comparator_def split: option.splits)
  with ab bc show ?thesis by (auto simp: comparator_key)
qed

lemma comparator_upd: "a \<noteq> b \<Longrightarrow> a \<noteq> c \<Longrightarrow> comparator (h(a := t)) b c = comparator h b c"
  by (simp add: comparator_def)

lemma sorted_upd:
  "a \<notin> set xs \<Longrightarrow> sorted_wrt (comparator (h(a := t))) xs = sorted_wrt (comparator h) xs"
proof (induction xs)
  case (Cons b xs)
  then have "comparator (h(a := t)) b x = comparator h b x" if "x \<in> set xs" for x
    using that by (intro comparator_upd) auto
  moreover have "sorted_wrt (comparator (h(a := t))) xs = sorted_wrt (comparator h) xs"
    by (rule Cons.IH) (use Cons.prems in simp)
  ultimately show ?case unfolding sorted_wrt.simps by blast
qed simp

definition ordered :: "'f heap \<Rightarrow> nat list \<Rightarrow> bool" where
  "ordered h xs \<longleftrightarrow> sorted_wrt (comparator h) xs \<and> (\<forall>a \<in> set xs. h a \<noteq> None)"

lemma ordered_distinct: "ordered h xs \<Longrightarrow> distinct xs"
proof (induction xs)
  case (Cons x xs)
  then have "x \<notin> set xs" by (auto simp: ordered_def)
  with Cons show ?case by (simp add: ordered_def)
qed simp

lemma ordered_append: "ordered h (xs @ ys) \<Longrightarrow> ordered h xs \<and> ordered h ys"
  by (auto simp: ordered_def sorted_wrt_append)

lemma set_insert_split:
  assumes "ordered h xs" "h a \<noteq> None" "a \<notin> set xs"
  shows "\<exists>A B. xs = A @ B \<and> set_insert h a xs = A @ a # B \<and> ordered h (A @ a # B)
    \<and> (\<forall>x \<in> set A. comparator h x a) \<and> (\<forall>x \<in> set B. comparator h a x)"
  using assms
proof (induction xs)
  case Nil
  then show ?case by (simp add: ordered_def)
next
  case (Cons b xs)
  then have b: "h b \<noteq> None" "a \<noteq> b" "\<forall>x \<in> set xs. comparator h b x \<and> h x \<noteq> None" "ordered h xs"
    by (auto simp: ordered_def)
  show ?case
  proof (cases "comparator h a b")
    case True
    have "\<forall>x \<in> set xs. comparator h a x"
      using True b by (blast intro: comparator_trans)
    with True Cons.prems show ?thesis by (intro exI [of _ "[]"] exI [of _ "b # xs"]) (auto simp: ordered_def)
  next
    case False
    then have ba: "comparator h b a" using b(1,2) Cons.prems(2) by (auto simp: comparator_key)
    obtain A B where AB: "xs = A @ B" "set_insert h a xs = A @ a # B" "ordered h (A @ a # B)"
      "\<forall>x \<in> set A. comparator h x a" "\<forall>x \<in> set B. comparator h a x"
      using Cons.IH [OF b(4) Cons.prems(2)] Cons.prems(3) by auto
    with False ba b Cons.prems(2) show ?thesis
      by (intro exI [of _ "b # A"] exI [of _ B]) (auto simp: ordered_def)
  qed
qed

lemma set_find_mem:
  assumes "\<forall>b \<in> set xs. h b \<noteq> None" "h a \<noteq> None"
  shows "set_find h a xs = (if a \<in> set xs then Some a else None)"
proof -
  have "\<not> comparator h a b \<and> \<not> comparator h b a \<longleftrightarrow> b = a" if "b \<in> set xs" for b
    using that assms by (auto simp: comparator_key)
  then have "set_find h a xs = find (\<lambda>b. b = a) xs"
    unfolding set_find_def by (intro find_cong) auto
  moreover have "find (\<lambda>b. b = a) xs = (if a \<in> set xs then Some a else None)"
    by (induction xs) auto
  ultimately show ?thesis by simp
qed

section \<open>The invariant\<close>

definition set_ok :: "'f heap \<Rightarrow> nat list \<Rightarrow> bool" where
  "set_ok h xs \<longleftrightarrow> ordered h xs \<and> (\<forall>a. a \<in> set xs \<longleftrightarrow> live h a)"

definition tm_inv :: "'f manager \<Rightarrow> bool" where
  "tm_inv m \<longleftrightarrow> set_ok (tm_heap m) (tm_timers m) \<and> (\<forall>a. tm_heap m a \<noteq> None \<longrightarrow> a < tm_fresh m)"

lemma set_ok_ordered: "set_ok h xs \<Longrightarrow> ordered h xs" "set_ok h xs \<Longrightarrow> distinct xs"
  by (auto simp: set_ok_def intro: ordered_distinct)

text \<open>Taking timer \<open>a\<close> out, and putting it back under new data.\<close>

lemma ordered_remove: "ordered h xs \<Longrightarrow> ordered (h(a := t)) (remove1 a xs)"
proof -
  assume o: "ordered h xs"
  then have "a \<notin> set (remove1 a xs)" using ordered_distinct by fastforce
  then have "sorted_wrt (comparator (h(a := t))) (remove1 a xs) = sorted_wrt (comparator h) (remove1 a xs)"
    by (rule sorted_upd)
  moreover have "sorted_wrt (comparator h) (remove1 a xs)"
    using o by (induction xs) (auto simp: ordered_def dest: notin_set_remove1)
  ultimately show ?thesis
    using o \<open>a \<notin> set (remove1 a xs)\<close> by (auto simp: ordered_def dest: notin_set_remove1)
qed

lemma set_ok_drop:
  assumes "set_ok h xs" "h a \<noteq> None" "t_cb t = None"
  shows "set_ok (h(a \<mapsto> t)) (remove1 a xs)"
proof -
  have "set (remove1 a xs) = set xs - {a}" using set_ok_ordered(2) [OF assms(1)] by simp
  then show ?thesis
    using assms ordered_remove [of h xs a "Some t"] by (auto simp: set_ok_def live_def)
qed

lemma set_ok_put:
  assumes "set_ok h xs" "t_cb t \<noteq> None"
  shows "set_ok (h(a \<mapsto> t)) (set_insert (h(a \<mapsto> t)) a (remove1 a xs))"
proof -
  have s: "set (remove1 a xs) = set xs - {a}" using set_ok_ordered(2) [OF assms(1)] by simp
  obtain A B where AB: "remove1 a xs = A @ B" "set_insert (h(a \<mapsto> t)) a (remove1 a xs) = A @ a # B"
    "ordered (h(a \<mapsto> t)) (A @ a # B)"
    using set_insert_split [OF ordered_remove [OF set_ok_ordered(1) [OF assms(1)], of a "Some t"], of a] s by auto
  then have "set (A @ a # B) = insert a (set xs)" using s by (metis Un_insert_right insert_Diff_single
        list.simps(15) set_append)
  then show ?thesis using AB(2,3) assms by (auto simp: set_ok_def live_def)
qed

section \<open>The operations keep it\<close>

lemma M_addTimer_fields:
  "tm_heap (snd (M_addTimer a m)) = tm_heap m" "tm_fresh (snd (M_addTimer a m)) = tm_fresh m"
  "tm_timers (snd (M_addTimer a m)) = set_insert (tm_heap m) a (tm_timers m)"
  by (auto simp: M_addTimer_def Let_def)

lemma tm_inv_ok: "tm_inv m \<Longrightarrow> set_ok (tm_heap m) (tm_timers m)"
  by (simp add: tm_inv_def)

lemma addTimer_inv:
  assumes "tm_inv m" "addTimer now period cb rec m = (a, tick, m')"
  shows "tm_inv m' \<and> set (tm_timers m') = insert a (set (tm_timers m)) \<and> a \<notin> set (tm_timers m)"
proof -
  let ?t = "timer_ctor (tm_memory m (tm_fresh m)) now period cb rec"
  have a: "a = tm_fresh m" using assms(2) by (simp add: addTimer_def Let_def case_prod_beta)
  then have n: "a \<notin> set (tm_timers m)" using assms(1) by (auto simp: tm_inv_def set_ok_def live_def)
  then have r: "remove1 a (tm_timers m) = tm_timers m" by (rule remove1_idem)
  have m': "tm_heap m' = (tm_heap m)(a \<mapsto> ?t)" "tm_fresh m' = Suc a"
    "tm_timers m' = set_insert ((tm_heap m)(a \<mapsto> ?t)) a (tm_timers m)"
    using assms(2) M_addTimer_fields [of a "m\<lparr>tm_heap := (tm_heap m)(a \<mapsto> ?t), tm_fresh := Suc a\<rparr>"] a
    by (auto simp: addTimer_def Let_def case_prod_beta)
  have ok: "set_ok (tm_heap m') (tm_timers m')"
    using set_ok_put [OF tm_inv_ok [OF assms(1)], of ?t a] by (simp add: m' r timer_ctor_def)
  moreover have "set (tm_timers m') = insert a (set (tm_timers m))"
    using ok tm_inv_ok [OF assms(1)] by (auto simp: set_ok_def live_def m' timer_ctor_def split: if_splits)
  ultimately show ?thesis using assms(1) n a by (auto simp: tm_inv_def m' less_Suc_eq)
qed

lemma find_timer:
  assumes "tm_inv m" "tm_heap m a = Some t"
  shows "set_find (tm_heap m) a (tm_timers m) = (if t_cb t = None then None else Some a)"
    "t_cb t \<noteq> None \<Longrightarrow> set_find ((tm_heap m)(a \<mapsto> t\<lparr>t_cb := c\<rparr>)) a (tm_timers m) = Some a"
proof -
  have ok: "ordered (tm_heap m) (tm_timers m)" "a \<in> set (tm_timers m) \<longleftrightarrow> live (tm_heap m) a"
    using assms(1) by (auto simp: tm_inv_def set_ok_def)
  then show "set_find (tm_heap m) a (tm_timers m) = (if t_cb t = None then None else Some a)"
    using assms(2) by (subst set_find_mem) (auto simp: ordered_def live_def)
  show "t_cb t \<noteq> None \<Longrightarrow> set_find ((tm_heap m)(a \<mapsto> t\<lparr>t_cb := c\<rparr>)) a (tm_timers m) = Some a"
    using ok assms(2) by (subst set_find_mem) (auto simp: ordered_def live_def)
qed

lemma timer_cancel_run:
  assumes "tm_inv m" "tm_heap m a = Some t"
  shows "\<exists>m'. timer_cancel a m = Some (t_cb t \<noteq> None, m') \<and> tm_inv m'
    \<and> tm_timers m' = remove1 a (tm_timers m)"
proof (cases "t_cb t = None")
  case True
  then have "a \<notin> set (tm_timers m)" using assms by (auto simp: tm_inv_def set_ok_def live_def)
  with True assms show ?thesis by (simp add: timer_cancel_def remove1_idem)
next
  case False
  then show ?thesis
    using assms find_timer(2) [OF assms False, of None] set_ok_drop [OF tm_inv_ok [OF assms(1)], of a "t\<lparr>t_cb := None\<rparr>"]
    by (auto simp: timer_cancel_def set_timer_def Let_def tm_inv_def)
qed

lemma timer_refresh_run:
  assumes "tm_inv m" "tm_heap m a = Some t"
  shows "timer_refresh now a m = Some (False, m)"
  using assms find_timer(1) [OF assms] by (simp add: timer_refresh_def)

lemma timer_reset_run:
  assumes "tm_inv m" "tm_heap m a = Some t"
  shows "\<exists>r tick m'. timer_reset now period from_now a m = Some (r, tick, m') \<and> tm_inv m'
    \<and> (r = None \<longleftrightarrow> t_cb t \<noteq> None \<and> \<not> (period = t_period t \<and> \<not> from_now))"
proof (cases "t_cb t \<noteq> None \<and> \<not> (period = t_period t \<and> \<not> from_now)")
  case False
  with assms show ?thesis by (auto simp: timer_reset_def)
next
  case True
  define t' where "t' = (if from_now then t\<lparr>t_next := now\<rparr> else t\<lparr>t_next := t_next t + (period - t_period t)\<rparr>)
    \<lparr>t_period := period\<rparr>"
  define m1 where "m1 = m\<lparr>tm_timers := remove1 a (tm_timers m), tm_heap := (tm_heap m)(a \<mapsto> t')\<rparr>"
  have r: "timer_reset now period from_now a m = Some (None, M_addTimer a m1)"
    using assms(2) True find_timer(1) [OF assms]
    by (auto simp: timer_reset_def set_timer_def Let_def case_prod_beta t'_def m1_def)
  have "t_cb t' \<noteq> None" using True by (simp add: t'_def)
  from set_ok_put [OF tm_inv_ok [OF assms(1)] this, of a]
  have "tm_inv (snd (M_addTimer a m1))"
    using assms by (auto simp: tm_inv_def M_addTimer_fields m1_def)
  with r True show ?thesis by (metis prod.collapse)
qed

section \<open>Collecting ends\<close>

definition final :: "64 word \<Rightarrow> 'f heap \<Rightarrow> nat \<Rightarrow> bool" where
  "final now h a \<longleftrightarrow> (\<exists>t. h a = Some t \<and> t_recurring t \<and> t_next t = now + t_period t)"

definition left :: "64 word \<Rightarrow> 'f heap \<Rightarrow> nat list \<Rightarrow> nat" where
  "left now h win = length (filter (\<lambda>a. \<not> final now h a) win) + length win"

lemma left_upd: "a \<notin> set xs \<Longrightarrow> left now (h(a := t)) xs = left now h xs"
proof -
  assume "a \<notin> set xs"
  then have "filter (\<lambda>b. \<not> final now (h(a := t)) b) xs = filter (\<lambda>b. \<not> final now h b) xs"
    by (intro filter_cong) (auto simp: final_def)
  then show ?thesis by (simp add: left_def)
qed

text \<open>Where a timer put back into \<open>pre @ w @ post\<close> lands, seen from the iterator and the end.\<close>

lemma window_insert:
  assumes "A @ B = pre @ w @ post"
  shows "\<exists>pre' w' post'. A @ a # B = pre' @ w' @ post' \<and> iter_of (w' @ post') = iter_of (w @ post)
    \<and> iter_of post' = iter_of post \<and> (w' = w \<or> (\<exists>x us vs. w = x # us @ vs \<and> w' = x # us @ a # vs \<and> x \<in> set A))"
proof -
  consider us where "pre = A @ us" "B = us @ w @ post" | us where "A = pre @ us" "us @ B = w @ post"
    using assms by (auto simp: append_eq_append_conv2)
  then show ?thesis
  proof cases
    case (1 us)
    then have "A @ a # B = (A @ a # us) @ w @ post" by simp
    then show ?thesis by blast
  next
    case (2 us)
    consider vs where "w = us @ vs" "B = vs @ post" | vs where "us = w @ vs" "post = vs @ B"
      using 2(2) by (auto simp: append_eq_append_conv2)
    then show ?thesis
    proof cases
      case (1 vs)
      show ?thesis
      proof (cases us)
        case Nil
        then have "A @ a # B = (pre @ [a]) @ w @ post" using 1 2 by simp
        then show ?thesis by blast
      next
        case (Cons x xs)
        then have "A @ a # B = pre @ (us @ a # vs) @ post" using 1 2 by simp
        with Cons 1 2 show ?thesis
          by (intro exI [of _ pre] exI [of _ "us @ a # vs"] exI [of _ post]) (auto simp: iter_of_def)
      qed
    next
      case (2 vs)
      show ?thesis
      proof (cases vs)
        case Nil
        with 2 \<open>A = pre @ us\<close> have A: "A = pre @ w" "B = post" by auto
        show ?thesis
        proof (cases w)
          case Nil
          with A have "A @ a # B = (pre @ [a]) @ w @ post" by simp
          then show ?thesis by blast
        next
          case (Cons x xs)
          with A have "A @ a # B = pre @ (x # xs @ a # []) @ post" by simp
          moreover have "iter_of ((x # xs @ a # []) @ post) = iter_of (w @ post)" "x \<in> set A"
            using Cons A by (auto simp: iter_of_def)
          moreover have "\<exists>y us vs. w = y # us @ vs \<and> x # xs @ a # [] = y # us @ a # vs \<and> y \<in> set A"
            using Cons \<open>x \<in> set A\<close> by (intro exI [of _ x] exI [of _ xs] exI [of _ "[]"]) simp
          ultimately show ?thesis by blast
        qed
      next
        case (Cons y ys)
        then have "A @ a # B = pre @ w @ (y # ys @ a # B)" using 2 \<open>A = pre @ us\<close> by simp
        moreover have "iter_of (w @ (y # ys @ a # B)) = iter_of (w @ post)"
          "iter_of (y # ys @ a # B) = iter_of post" using 2 Cons by (cases w; simp add: iter_of_def)+
        ultimately show ?thesis by blast
      qed
    qed
  qed
qed

lemma iter_succ_window:
  assumes "distinct (pre @ a # w)"
  shows "iter_succ a (pre @ a # w) = iter_of w" "remove1 a (pre @ a # w) = pre @ w"
  using assms by (auto simp: iter_succ_def remove1_append dropWhile_append)

lemma collect_returns:
  assumes "set_ok h xs" "xs = pre @ win @ post" "stop = iter_of post" "it = iter_of (win @ post)"
  shows "\<exists>c h' xs'. collect now stop it h xs cbs = Some (c, h', xs') \<and> set_ok h' xs'
    \<and> dom h' = dom h"
  using assms
proof (induction "left now h win" arbitrary: h xs pre win post stop it cbs rule: less_induct)
  case less
  note ok = less.prems(1) and split = less.prems(2)
  show ?case
  proof (cases win)
    case Nil
    with less.prems show ?thesis by (simp add: collect.simps)
  next
    case (Cons a w)
    have d: "distinct (pre @ a # w @ post)" using set_ok_ordered(2) [OF ok] split Cons by simp
    then have ne: "it = Some a" "stop \<noteq> Some a"
      using less.prems(3,4) Cons by (auto simp: iter_of_def split: list.splits)
    have "a \<in> set xs" using split Cons by simp
    then obtain t where t: "h a = Some t" "t_cb t \<noteq> None" using ok by (auto simp: set_ok_def live_def)
    have su: "iter_succ a xs = iter_of (w @ post)" "remove1 a xs = pre @ w @ post"
      using iter_succ_window [of pre a "w @ post"] d split Cons by simp_all
    show ?thesis
    proof (cases "t_recurring t")
      case False
      let ?h = "h(a \<mapsto> t\<lparr>t_cb := None\<rparr>)"
      have ok': "set_ok ?h (pre @ w @ post)"
        using set_ok_drop [OF ok, of a "t\<lparr>t_cb := None\<rparr>"] t su(2) by simp
      have "left now ?h w < left now h win"
        using d Cons by (simp add: left_upd) (simp add: left_def)
      from less.hyps [OF this ok' refl less.prems(3) refl, of "cbs @ [t_cb t]"]
      obtain c h' xs' where "collect now stop (iter_of (w @ post)) ?h (pre @ w @ post) (cbs @ [t_cb t])
          = Some (c, h', xs')" "set_ok h' xs'" "dom h' = dom ?h" by blast
      moreover have "dom ?h = dom h" using t(1) by auto
      ultimately show ?thesis
        using False ne su t by (subst collect.simps) (simp add: Let_def)
    next
      case True
      let ?t = "t\<lparr>t_next := now + t_period t\<rparr>"
      let ?h = "h(a \<mapsto> ?t)"
      have ok': "set_ok ?h (set_insert ?h a (pre @ w @ post))"
        using set_ok_put [OF ok, of ?t a] t su(2) by simp
      have "ordered ?h (pre @ w @ post)" using ordered_remove [OF set_ok_ordered(1) [OF ok], of a "Some ?t"] su(2) by simp
      then obtain A B where AB: "pre @ w @ post = A @ B" "set_insert ?h a (pre @ w @ post) = A @ a # B"
        "\<forall>x \<in> set A. comparator ?h x a" using set_insert_split [of ?h "pre @ w @ post" a] d by auto
      obtain pre' w' post' where W: "A @ a # B = pre' @ w' @ post'" "iter_of (w' @ post') = iter_of (w @ post)"
        "iter_of post' = iter_of post"
        "w' = w \<or> (\<exists>x us vs. w = x # us @ vs \<and> w' = x # us @ a # vs \<and> x \<in> set A)"
        using window_insert [OF AB(1) [symmetric], where a = a] by (elim exE conjE) (rule that)
      have fin: "final now ?h a" using True by (simp add: final_def)
      have "left now ?h w' < left now h win"
      proof (cases "w' = w")
        case True
        then show ?thesis using d Cons by (simp add: left_upd) (simp add: left_def)
      next
        case False
        then obtain x us vs where x: "w = x # us @ vs" "w' = x # us @ a # vs" "x \<in> set A" using W(4) by blast
        have "sorted_wrt (comparator h) (pre @ a # w @ post)"
          using set_ok_ordered(1) [OF ok] split Cons by (simp add: ordered_def)
        then have ax: "comparator h a x" by (simp add: sorted_wrt_append x(1))
        have xa: "comparator ?h x a" using AB(3) x(3) by blast
        have "t_next t \<noteq> now + t_period t"
        proof
          assume "t_next t = now + t_period t"
          then have "?h = h" using t(1) by (intro ext) auto
          with xa comparator_trans [OF ax, of a] show False by simp
        qed
        then have "\<not> final now h a" using t(1) by (simp add: final_def)
        moreover have "left now ?h w' = left now ?h w + 1" using fin by (simp add: left_def x)
        moreover have "left now ?h w = left now h w" using d by (simp add: left_upd)
        ultimately show ?thesis using Cons by (simp add: left_def)
      qed
      from less.hyps [OF this ok' [unfolded AB(2)] W(1) _ refl, of stop "cbs @ [t_cb t]"] less.prems(3) W(2,3)
      obtain c h' xs' where "collect now stop (iter_of (w @ post)) ?h (A @ a # B) (cbs @ [t_cb t])
          = Some (c, h', xs')" "set_ok h' xs'" "dom h' = dom ?h" by metis
      moreover have "dom ?h = dom h" using t(1) by auto
      ultimately show ?thesis
        using True ne su t AB(2) by (subst collect.simps) (simp add: Let_def)
    qed
  qed
qed

section \<open>What expires\<close>

lemma ordered_le: "ordered h (x # xs) \<Longrightarrow> ordered h xs \<and> (\<forall>y \<in> set xs. next_of h x \<le> next_of h y)"
  by (force simp: ordered_def comparator_key)

lemma timeout_end_expired:
  assumes "ordered h xs"
  shows "timeout_end now z h xs = dropWhile (\<lambda>b. next_of h b \<le> now) xs"
  using assms
proof (induction xs)
  case (Cons x xs)
  have o: "ordered h xs" and x: "\<forall>y \<in> set xs. next_of h x \<le> next_of h y"
    using ordered_le [OF Cons.prems] by auto
  consider "next_of h x < now \<or> next_of h x = now \<and> x < z" | "next_of h x = now" "\<not> x < z" | "now < next_of h x"
    by fastforce
  then show ?case
  proof cases
    case 1
    with Cons.IH [OF o] show ?thesis by (auto simp: timeout_end_def)
  next
    case 2
    then have "dropWhile (\<lambda>b. now = next_of h b) xs = dropWhile (\<lambda>b. next_of h b \<le> now) xs"
      using x by (intro dropWhile_cong) auto
    with 2 show ?thesis by (auto simp: timeout_end_def)
  qed (auto simp: timeout_end_def)
qed (simp add: timeout_end_def)

definition cb_of :: "'f heap \<Rightarrow> nat \<Rightarrow> 'f callback option" where
  "cb_of h a = (case h a of None \<Rightarrow> None | Some t \<Rightarrow> t_cb t)"

lemma collect_once:
  assumes "distinct (pre @ win @ post)" "\<forall>a \<in> set win. \<exists>t. h a = Some t \<and> \<not> t_recurring t"
  shows "\<exists>h'. collect now (iter_of post) (iter_of (win @ post)) h (pre @ win @ post) cbs
      = Some (cbs @ map (cb_of h) win, h', pre @ post) \<and> (\<forall>a. a \<notin> set win \<longrightarrow> h' a = h a)
    \<and> (\<forall>a \<in> set win. cb_of h' a = None)"
  using assms
proof (induction win arbitrary: h cbs)
  case Nil
  then show ?case by (auto simp: collect.simps)
next
  case (Cons a w)
  then obtain t where t: "h a = Some t" "\<not> t_recurring t" by auto
  let ?h = "h(a \<mapsto> t\<lparr>t_cb := None\<rparr>)"
  have "iter_of (a # w @ post) \<noteq> iter_of post" using Cons.prems(1) by (auto simp: iter_of_def split: list.splits)
  then have step: "collect now (iter_of post) (iter_of (a # w @ post)) h (pre @ a # w @ post) cbs
      = collect now (iter_of post) (iter_of (w @ post)) ?h (pre @ w @ post) (cbs @ [t_cb t])"
    using t iter_succ_window [of pre a "w @ post"] Cons.prems(1)
    by (subst collect.simps) (simp add: Let_def iter_of_def)
  have n: "\<forall>b \<in> set w. \<exists>u. ?h b = Some u \<and> \<not> t_recurring u" and d: "distinct (pre @ w @ post)"
    using Cons.prems by auto
  obtain h' where h': "collect now (iter_of post) (iter_of (w @ post)) ?h (pre @ w @ post) (cbs @ [t_cb t])
      = Some ((cbs @ [t_cb t]) @ map (cb_of ?h) w, h', pre @ post)" "\<forall>b. b \<notin> set w \<longrightarrow> h' b = ?h b"
    "\<forall>b \<in> set w. cb_of h' b = None"
    using Cons.IH [OF d n, of "cbs @ [t_cb t]"] by (elim exE conjE) (rule that)
  have "map (cb_of ?h) w = map (cb_of h) w" using Cons.prems(1) by (auto simp: cb_of_def)
  moreover have "cb_of h a = t_cb t" using t by (simp add: cb_of_def)
  moreover have "cb_of h' a = None" using h'(2) Cons.prems(1) by (simp add: cb_of_def)
  ultimately show ?case using step h' by (intro exI [of _ h']) auto
qed

lemma ordered_filter:
  "ordered h xs \<Longrightarrow> dropWhile (\<lambda>b. next_of h b \<le> now) xs = filter (\<lambda>b. \<not> next_of h b \<le> now) xs"
  "ordered h xs \<Longrightarrow> takeWhile (\<lambda>b. next_of h b \<le> now) xs = filter (\<lambda>b. next_of h b \<le> now) xs"
proof (induction xs)
  case (Cons x xs)
  { case 1
    then have "filter (\<lambda>b. \<not> next_of h b \<le> now) xs = xs" if "\<not> next_of h x \<le> now"
      using that ordered_le [OF 1] by (intro filter_True) auto
    with 1 Cons.IH(1) ordered_le [OF 1] show ?case by simp }
  { case 2
    then have "filter (\<lambda>b. next_of h b \<le> now) xs = []" if "\<not> next_of h x \<le> now"
      using that ordered_le [OF 2] by (intro filter_False) auto
    with 2 Cons.IH(2) ordered_le [OF 2] show ?case by simp }
qed simp_all

section \<open>Properties\<close>

lemma timeoutCallbacks_returns:
  assumes "tm_inv m"
  shows "\<exists>c m'. timeoutCallbacks now z cbs m = Some (c, m') \<and> tm_inv m'"
proof -
  let ?m = "m\<lparr>tm_previousTime := now\<rparr>"
  have inv: "tm_inv ?m" using assms by (simp add: tm_inv_def)
  have run: "\<exists>c h' xs'. collect now (iter_of post) (iter_of (tm_timers m)) (tm_heap m) (tm_timers m) [] = Some (c, h', xs')
    \<and> tm_inv (?m\<lparr>tm_heap := h', tm_timers := xs'\<rparr>)" if w': "tm_timers m = win @ post" for win post
  proof -
    have w: "tm_timers m = [] @ win @ post" using w' by simp
    obtain c h' xs' where c: "collect now (iter_of post) (iter_of (tm_timers m)) (tm_heap m) (tm_timers m) [] = Some (c, h', xs')"
      "set_ok h' xs'" "dom h' = dom (tm_heap m)"
      using collect_returns [OF tm_inv_ok [OF assms] w refl refl, of now "[]"] unfolding w' [symmetric]
      by (elim exE conjE) (rule that)
    have "h' b \<noteq> None \<longrightarrow> b < tm_fresh m" for b
      using c(3) assms by (metis domIff tm_inv_def)
    with c show ?thesis by (simp add: tm_inv_def)
  qed
  have "tm_timers m = takeWhile (\<lambda>b. next_of (tm_heap m) b \<le> now) (tm_timers m) @ timeout_end now z (tm_heap m) (tm_timers m)"
    using timeout_end_expired [of "tm_heap m" "tm_timers m" now z] set_ok_ordered(1) [OF tm_inv_ok [OF assms]] by simp
  from run [OF this] run [of "tm_timers m" "[]"] inv assms
  show ?thesis
    by (auto simp: timeoutCallbacks_def M_clockRollover_def Let_def iter_of_def split: if_splits)
qed


definition demo_timers :: "bool \<Rightarrow> string manager" where
  "demo_timers rec = (let (a, tick, m) = addTimer 0 10 (Plain ''a'') rec (timerManager (\<lambda>a. if a = 2 then 50 else 10) 0);
       (b, tick, m) = addTimer 0 10 (Plain ''b'') rec m;
       (c, tick, m) = addTimer 0 50 (Plain ''c'') rec m in m)"

lemma timerManager_inv: "tm_inv (timerManager mem now)"
  by (simp add: tm_inv_def timerManager_def set_ok_def ordered_def live_def)

lemma demo_timers_inv: "tm_inv (demo_timers rec)"
proof -
  have step: "tm_inv (snd (snd (addTimer now p cb r m)))" if "tm_inv m" for now p cb r and m :: "string manager"
    using addTimer_inv [OF that, of now p cb r] by (metis prod.collapse)
  show ?thesis unfolding demo_timers_def Let_def case_prod_beta
    by (intro step timerManager_inv)
qed

lemmas timer_run = demo_timers_def addTimer_def timer_ctor_def M_addTimer_def timerManager_def timeoutCallbacks_def
  M_clockRollover_def next_of_def timeout_end_def iter_of_def iter_succ_def comparator_def collect.simps Let_def


text \<open>
  What expires: when the clock was not set back and the timers that are due are one-shot
  timers, collecting hands out exactly their callbacks, in the order of their due times, takes
  exactly them out of the set, and leaves them without callback.
\<close>
theorem expired_collected_once:
  assumes "tm_inv m" "\<not> fst (M_clockRollover now m)" "tm_timers m \<noteq> []"
    and "\<forall>a t. tm_heap m a = Some t \<and> t_next t \<le> now \<longrightarrow> \<not> t_recurring t"
    and "next_of (tm_heap m) (hd (tm_timers m)) \<le> now"
  shows "\<exists>m'. timeoutCallbacks now z cbs m
      = Some (map (cb_of (tm_heap m)) (filter (\<lambda>a. next_of (tm_heap m) a \<le> now) (tm_timers m)), m')
    \<and> tm_timers m' = filter (\<lambda>a. now < next_of (tm_heap m) a) (tm_timers m)
    \<and> (\<forall>a \<in> set (tm_timers m). next_of (tm_heap m) a \<le> now \<longrightarrow> cb_of (tm_heap m') a = None)"
proof -
  let ?h = "tm_heap m" and ?xs = "tm_timers m"
  define win where "win = filter (\<lambda>a. next_of ?h a \<le> now) ?xs"
  define post where "post = filter (\<lambda>a. \<not> next_of ?h a \<le> now) ?xs"
  have o: "ordered ?h ?xs" using set_ok_ordered(1) [OF tm_inv_ok [OF assms(1)]] .
  have xs: "?xs = win @ post"
    using takeWhile_dropWhile_id [of "\<lambda>b. next_of ?h b \<le> now" ?xs]
    by (simp add: ordered_filter [OF o] win_def post_def)
  have stop: "timeout_end now z ?h ?xs = post"
    by (simp add: timeout_end_expired [OF o] ordered_filter [OF o] post_def)
  have n: "\<forall>a \<in> set win. \<exists>t. ?h a = Some t \<and> \<not> t_recurring t"
    using o assms(4) by (fastforce simp: win_def ordered_def next_of_def)
  have roll: "M_clockRollover now m = (False, m\<lparr>tm_previousTime := now\<rparr>)"
    using assms(2) by (auto simp: M_clockRollover_def)
  have d: "distinct ([] @ win @ post)" using ordered_distinct [OF o] xs by simp
  obtain h' where h': "collect now (iter_of post) (iter_of (win @ post)) ?h ([] @ win @ post) []
      = Some ([] @ map (cb_of ?h) win, h', [] @ post)" "\<forall>a \<in> set win. cb_of h' a = None"
    using collect_once [OF d n, of now "[]"] by (elim exE conjE) (rule that)
  have "timeoutCallbacks now z cbs m = Some (map (cb_of ?h) win, m\<lparr>tm_previousTime := now, tm_heap := h', tm_timers := post\<rparr>)"
    using assms(3) leD [OF assms(5)] h'(1) stop xs by (auto simp: timeoutCallbacks_def roll Let_def)
  with h'(2) show ?thesis by (auto simp: win_def post_def not_le)
qed

theorem expired_collected_once_witness:
  "\<exists>m'. timeoutCallbacks 10 0 [] (demo_timers False) = Some ([Some (Plain ''a''), Some (Plain ''b'')], m')
    \<and> tm_timers m' = [Suc (Suc 0)]"
proof -
  have f: "tm_timers (demo_timers False) = [0, Suc 0, Suc (Suc 0)]" "tm_heap (demo_timers False) =
    [0 \<mapsto> \<lparr>t_next = 10, t_recurring = False, t_period = 10, t_cb = Some (Plain ''a'')\<rparr>,
     Suc 0 \<mapsto> \<lparr>t_next = 10, t_recurring = False, t_period = 10, t_cb = Some (Plain ''b'')\<rparr>,
     Suc (Suc 0) \<mapsto> \<lparr>t_next = 50, t_recurring = False, t_period = 50, t_cb = Some (Plain ''c'')\<rparr>]"
    "tm_previousTime (demo_timers False) = 0" by (simp_all add: timer_run)
  have p: "\<not> fst (M_clockRollover 10 (demo_timers False))" "tm_timers (demo_timers False) \<noteq> []"
    "\<forall>a t. tm_heap (demo_timers False) a = Some t \<and> t_next t \<le> 10 \<longrightarrow> \<not> t_recurring t"
    "next_of (tm_heap (demo_timers False)) (hd (tm_timers (demo_timers False))) \<le> 10"
    by (auto simp: f M_clockRollover_def next_of_def split: if_splits)
  from expired_collected_once [OF demo_timers_inv p, of 0 "[]"]
  obtain m' where "timeoutCallbacks 10 0 [] (demo_timers False)
      = Some (map (cb_of (tm_heap (demo_timers False))) (filter (\<lambda>a. next_of (tm_heap (demo_timers False)) a \<le> 10)
        (tm_timers (demo_timers False))), m')"
    "tm_timers m' = filter (\<lambda>a. 10 < next_of (tm_heap (demo_timers False)) a) (tm_timers (demo_timers False))"
    by (elim exE conjE) (rule that)
  then show ?thesis by (simp add: f next_of_def cb_of_def)
qed

text \<open>
  Recurring timers that are due together are collected twice: a timer put back with its
  next due time can land between the iterator and the end of the expired range, where it is
  visited again. Two recurring timers of ten milliseconds, collected when they are due, give
  four callbacks.
\<close>
lemma recurring_collected_twice:
  "map_option fst (timeoutCallbacks 10 z [] (demo_timers True))
    = Some [Some (Plain ''a''), Some (Plain ''b''), Some (Plain ''a''), Some (Plain ''b'')]"
  by (simp add: timer_run)

end
