(* ===== verification/Coroutine.thy ===== *)
theory Coroutine
  imports Prelude Steps "HOL-Library.Word"
begin

text \<open>
  \<open>src/cort/coroutine.cpp\<close>, the class \<open>coroutine\<close>: the coroutines one thread works with and
  the thread's local pointers. A context switch is the pair of the coroutine whose context is
  saved and the one that goes on. Failures of \<open>malloc\<close>, \<open>getcontext\<close> and \<open>swapcontext\<close>
  are arguments.
\<close>

section \<open>State\<close>

datatype co_state = READY | RUNNING | TERM'

text \<open>The main coroutine has no stack, and its scheduler flag is never initialised.\<close>

record 'f coroutine =
  co_stackSize :: nat
  co_stack :: bool
  co_func :: "'f option"
  co_cid :: "64 word"
  co_now :: co_state
  co_inScheduler :: "bool option"

record 'f co_thread =
  co_heap :: "nat \<Rightarrow> 'f coroutine option"
  running_coroutine :: "nat option"
  scheduler_coroutine :: "nat option"
  main_coroutine :: "nat option"
  new_cid :: "64 word"
  countor :: "64 word"
  co_fresh :: nat

type_synonym switch = "(nat \<times> nat) option"

definition default_stackSize :: nat where
  "default_stackSize = 128 * 1024"

definition set_co :: "nat \<Rightarrow> 'f coroutine \<Rightarrow> 'f co_thread \<Rightarrow> 'f co_thread" where
  "set_co a c v = v\<lparr>co_heap := (co_heap v)(a \<mapsto> c)\<rparr>"

section \<open>Operations\<close>

definition coroutine_ctor ::
  "bool \<Rightarrow> bool \<Rightarrow> 'f \<Rightarrow> nat \<Rightarrow> bool \<Rightarrow> 'f co_thread \<Rightarrow> (nat \<times> 'f co_thread) outcome" where
  "coroutine_ctor malloc_ok context_ok func stackSpace inScheduler v =
     (let v = v\<lparr>countor := countor v + 1\<rparr> in
      if \<not> malloc_ok then Throw ''Malloc failure''
      else if \<not> context_ok then Throw ''getcontext failure''
      else let a = co_fresh v;
               c = \<lparr>co_stackSize = (if stackSpace \<noteq> 0 then stackSpace else default_stackSize),
                    co_stack = True, co_func = Some func, co_cid = new_cid v, co_now = READY,
                    co_inScheduler = Some inScheduler\<rparr>
           in Ret (a, (set_co a c v)\<lparr>new_cid := new_cid v + 1, co_fresh := Suc a\<rparr>))"

text \<open>The private constructor, for the main coroutine of a thread.\<close>

definition main_ctor :: "bool \<Rightarrow> 'f co_thread \<Rightarrow> (nat \<times> 'f co_thread) outcome" where
  "main_ctor context_ok v =
     (if \<not> context_ok then Throw ''getcontext failure''
      else let a = co_fresh v;
               c = \<lparr>co_stackSize = 0, co_stack = False, co_func = None, co_cid = new_cid v,
                    co_now = RUNNING, co_inScheduler = None\<rparr>
           in Ret (a, (set_co a c v)\<lparr>new_cid := new_cid v + 1, running_coroutine := Some a,
                co_fresh := Suc a, countor := countor v + 1\<rparr>))"

definition coroutine_dtor :: "nat \<Rightarrow> 'f co_thread \<Rightarrow> 'f co_thread option" where
  "coroutine_dtor a v = do {
     c \<leftarrow> co_heap v a;
     let v = v\<lparr>countor := countor v - 1\<rparr>;
     let v = (if \<not> co_stack c \<and> running_coroutine v = Some a then v\<lparr>running_coroutine := None\<rparr> else v);
     Some (v\<lparr>co_heap := (co_heap v)(a := None)\<rparr>) }"

definition co_reset :: "bool \<Rightarrow> 'f \<Rightarrow> nat \<Rightarrow> 'f co_thread \<Rightarrow> (bool \<times> 'f co_thread) option" where
  "co_reset context_ok func a v = do {
     c \<leftarrow> co_heap v a;
     Some (if \<not> co_stack c then (False, v)
       else if co_now c \<noteq> TERM' then (False, v)
       else if \<not> context_ok then (False, v)
       else (True, set_co a (c\<lparr>co_func := Some func, co_now := READY\<rparr>) v)) }"

text \<open>The coroutine a worker switches with: the scheduler's or the thread's main one.\<close>

definition partner :: "'f coroutine \<Rightarrow> 'f co_thread \<Rightarrow> nat option" where
  "partner c v = (case co_inScheduler c of
       None \<Rightarrow> None
     | Some b \<Rightarrow> if b then scheduler_coroutine v else main_coroutine v)"

definition co_resume :: "bool \<Rightarrow> nat \<Rightarrow> 'f co_thread \<Rightarrow> (switch \<times> 'f co_thread) outcome" where
  "co_resume swap_ok a v = and_then (of_opt (co_heap v a)) (\<lambda>c.
     if co_now c \<noteq> READY then Ret (None, v)
     else let v = set_co a (c\<lparr>co_now := RUNNING\<rparr>) (v\<lparr>running_coroutine := Some a\<rparr>) in
       and_then (of_opt (partner c v)) (\<lambda>p.
         if swap_ok then Ret (Some (p, a), v) else Throw ''swapcontext''))"

definition co_yield :: "bool \<Rightarrow> nat \<Rightarrow> 'f co_thread \<Rightarrow> (switch \<times> 'f co_thread) outcome" where
  "co_yield swap_ok a v = and_then (of_opt (co_heap v a)) (\<lambda>c.
     if co_now c = READY then Ret (None, v)
     else and_then (of_opt (partner c v)) (\<lambda>p.
       let v = v\<lparr>running_coroutine := Some p\<rparr>;
           v = (if co_now c = RUNNING then set_co a (c\<lparr>co_now := READY\<rparr>) v else v)
       in if swap_ok then Ret (Some (a, p), v) else Throw ''swapcontext''))"

definition getRunning :: "bool \<Rightarrow> 'f co_thread \<Rightarrow> (nat \<times> 'f co_thread) outcome" where
  "getRunning context_ok v =
     (case running_coroutine v of
        Some r \<Rightarrow> Ret (r, v)
      | None \<Rightarrow> and_then (main_ctor context_ok v) (\<lambda>(a, v).
          Ret (a, v\<lparr>main_coroutine := Some a\<rparr>)))"

text \<open>The end of \<open>_M_main\<close>, once the coroutine's function has returned.\<close>

definition co_finish :: "bool \<Rightarrow> 'f co_thread \<Rightarrow> (switch \<times> 'f co_thread) outcome" where
  "co_finish swap_ok v = and_then (getRunning True v) (\<lambda>(cur, v).
     and_then (of_opt (co_heap v cur)) (\<lambda>c.
       co_yield swap_ok cur (set_co cur (c\<lparr>co_func := None, co_now := TERM'\<rparr>) v)))"

section \<open>A worker thread\<close>

text \<open>
  A worker thread starts with nothing; its scheduling loop makes the main coroutine the
  scheduler's. From then on the scheduler creates, resets and resumes coroutines, and the one
  that runs yields or ends.
\<close>

definition co_thread0 :: "64 word \<Rightarrow> 'f co_thread" where
  "co_thread0 cid = \<lparr>co_heap = Map.empty, running_coroutine = None, scheduler_coroutine = None,
     main_coroutine = None, new_cid = cid, countor = 0, co_fresh = 0\<rparr>"

definition enter_schedule :: "'f co_thread \<Rightarrow> 'f co_thread outcome" where
  "enter_schedule v = and_then (getRunning True v) (\<lambda>(r, v). Ret (v\<lparr>scheduler_coroutine := Some r\<rparr>))"

inductive co_step :: "'f co_thread \<Rightarrow> 'f co_thread \<Rightarrow> bool" where
  create: "coroutine_ctor True True f n True v = Ret (a, w) \<Longrightarrow> co_step v w"
| resume: "running_coroutine v = scheduler_coroutine v \<Longrightarrow> co_heap v a \<noteq> None \<Longrightarrow>
    co_resume True a v = Ret (sw, w) \<Longrightarrow> co_step v w"
| yield: "running_coroutine v = Some a \<Longrightarrow> a \<noteq> the (scheduler_coroutine v) \<Longrightarrow>
    co_yield True a v = Ret (sw, w) \<Longrightarrow> co_step v w"
| finish: "running_coroutine v \<noteq> scheduler_coroutine v \<Longrightarrow> co_finish True v = Ret (sw, w) \<Longrightarrow> co_step v w"
| reset: "running_coroutine v = scheduler_coroutine v \<Longrightarrow> co_reset True f a v = Some (b, w) \<Longrightarrow> co_step v w"

definition worker :: "'f coroutine \<Rightarrow> bool" where
  "worker c \<longleftrightarrow> co_stack c \<and> co_inScheduler c = Some True"

definition co_ok :: "nat \<Rightarrow> nat \<Rightarrow> 'f co_thread \<Rightarrow> bool" where
  "co_ok s r v \<longleftrightarrow> scheduler_coroutine v = Some s \<and> running_coroutine v = Some r
     \<and> (\<exists>c. co_heap v s = Some c \<and> \<not> co_stack c \<and> co_now c = RUNNING)
     \<and> (\<exists>c. co_heap v r = Some c \<and> co_now c = RUNNING)
     \<and> (\<forall>a c. co_heap v a = Some c \<longrightarrow> a < co_fresh v)
     \<and> (\<forall>a c. co_heap v a = Some c \<and> a \<noteq> s \<longrightarrow> worker c \<and> (co_now c = RUNNING \<longrightarrow> a = r)
          \<and> (co_now c \<noteq> TERM' \<longrightarrow> co_func c \<noteq> None))"

definition co_inv :: "'f co_thread \<Rightarrow> bool" where
  "co_inv v \<longleftrightarrow> (\<exists>s r. co_ok s r v)"

lemma co_okD:
  assumes "co_ok s r v"
  shows "scheduler_coroutine v = Some s" "running_coroutine v = Some r"
    "\<exists>c. co_heap v s = Some c \<and> \<not> co_stack c \<and> co_now c = RUNNING"
    "\<exists>c. co_heap v r = Some c \<and> co_now c = RUNNING"
    "co_heap v a = Some c \<Longrightarrow> a < co_fresh v"
    "co_heap v a = Some c \<Longrightarrow> a \<noteq> s \<Longrightarrow> worker c \<and> (co_now c = RUNNING \<longrightarrow> a = r)
       \<and> (co_now c \<noteq> TERM' \<longrightarrow> co_func c \<noteq> None)"
  using assms unfolding co_ok_def by blast+

text \<open>Changing the worker \<open>a\<close> to \<open>c'\<close> and the running coroutine to \<open>r'\<close>.\<close>

lemma co_ok_change:
  assumes ok: "co_ok s r v" and a: "a \<noteq> s" "co_heap v a = Some c" "r \<in> {s, a}"
    and c': "worker c'" "co_now c' = RUNNING \<longrightarrow> r' = a" "co_now c' \<noteq> TERM' \<longrightarrow> co_func c' \<noteq> None"
    and r': "r' = s \<or> r' = a \<and> co_now c' = RUNNING"
    and w: "scheduler_coroutine w = scheduler_coroutine v" "running_coroutine w = Some r'"
      "co_heap w = (co_heap v)(a \<mapsto> c')" "co_fresh w = co_fresh v"
  shows "co_ok s r' w"
  unfolding co_ok_def
proof (intro conjI allI impI)
  show "scheduler_coroutine w = Some s" "running_coroutine w = Some r'" using w co_okD(1) [OF ok] by simp_all
  show "\<exists>c. co_heap w s = Some c \<and> \<not> co_stack c \<and> co_now c = RUNNING"
    using co_okD(3) [OF ok] a(1) w(3) by simp
  then show "\<exists>c. co_heap w r' = Some c \<and> co_now c = RUNNING" using r' w(3) by auto
  fix b e
  show "co_heap w b = Some e \<Longrightarrow> b < co_fresh w"
    using co_okD(5) [OF ok, of b] co_okD(5) [OF ok a(2)] w(3,4) by (simp split: if_splits)
  assume b: "co_heap w b = Some e \<and> b \<noteq> s"
  have old: "worker e \<and> co_now e \<noteq> RUNNING \<and> (co_now e \<noteq> TERM' \<longrightarrow> co_func e \<noteq> None)" if "b \<noteq> a"
    using that co_okD(6) [OF ok, of b e] b w(3) a(3) by auto
  show "worker e" "co_now e \<noteq> TERM' \<Longrightarrow> co_func e \<noteq> None" "co_now e = RUNNING \<Longrightarrow> b = r'"
    using old b c' w(3) by (cases "b = a"; simp)+
qed

section \<open>Switching\<close>

lemma worker_partner: "worker c \<Longrightarrow> partner c v = scheduler_coroutine v"
  by (simp add: worker_def partner_def)

lemma resume_run:
  assumes ok: "co_ok s s v" and a: "co_heap v a = Some c" "co_now c = READY"
  defines "w \<equiv> set_co a (c\<lparr>co_now := RUNNING\<rparr>) (v\<lparr>running_coroutine := Some a\<rparr>)"
  shows "co_resume True a v = Ret (Some (s, a), w)" "co_ok s a w" "a \<noteq> s" "worker c"
proof -
  show ne: "a \<noteq> s" using co_okD(3) [OF ok] a by auto
  then show wk: "worker c" using co_okD(6) [OF ok a(1)] by simp
  have "partner c w = Some s" using worker_partner [OF wk] co_okD(1) [OF ok] by (simp add: w_def set_co_def)
  then show "co_resume True a v = Ret (Some (s, a), w)" using a by (simp add: co_resume_def w_def)
  show "co_ok s a w"
    using wk co_okD(6) [OF ok a(1) ne] a
    by (intro co_ok_change [OF ok ne a(1)]) (auto simp: w_def set_co_def worker_def)
qed

lemma resume_other:
  "co_heap v a = Some c \<Longrightarrow> co_now c \<noteq> READY \<Longrightarrow> co_resume b a v = Ret (None, v)"
  by (simp add: co_resume_def)

lemma yield_run:
  assumes ok: "co_ok s a v" and a: "co_heap v a = Some c" "a \<noteq> s"
  defines "w \<equiv> set_co a (c\<lparr>co_now := READY\<rparr>) (v\<lparr>running_coroutine := Some s\<rparr>)"
  shows "co_yield True a v = Ret (Some (a, s), w)" "co_ok s s w"
proof -
  have run: "co_now c = RUNNING" using co_okD(4) [OF ok] a(1) by simp
  have wk: "worker c" "co_func c \<noteq> None" using co_okD(6) [OF ok a] run by simp_all
  then show "co_yield True a v = Ret (Some (a, s), w)"
    using a run worker_partner [OF wk(1)] co_okD(1) [OF ok]
    by (simp add: co_yield_def w_def worker_partner)
  show "co_ok s s w"
    using wk by (intro co_ok_change [OF ok a(2,1)]) (auto simp: w_def set_co_def worker_def)
qed

lemma finish_run:
  assumes ok: "co_ok s a v" and a: "co_heap v a = Some c" "a \<noteq> s"
  defines "w \<equiv> set_co a (c\<lparr>co_func := None, co_now := TERM'\<rparr>) (v\<lparr>running_coroutine := Some s\<rparr>)"
  shows "co_finish True v = Ret (Some (a, s), w)" "co_ok s s w"
proof -
  have wk: "worker c" using co_okD(6) [OF ok a] by simp
  then have p: "partner (c\<lparr>co_func := None, co_now := TERM'\<rparr>) u = scheduler_coroutine u" for u
    by (intro worker_partner) (simp add: worker_def)
  show "co_finish True v = Ret (Some (a, s), w)"
    using a p co_okD(1,2) [OF ok]
    by (simp add: co_finish_def getRunning_def co_yield_def w_def set_co_def)
  show "co_ok s s w"
    using wk by (intro co_ok_change [OF ok a(2,1)]) (auto simp: w_def set_co_def worker_def)
qed

lemma reset_run:
  assumes ok: "co_ok s s v" and r: "co_reset True f a v = Some (b, w)"
  shows "co_ok s s w"
proof (cases "b")
  case False
  with r have "w = v" by (cases "co_heap v a") (auto simp: co_reset_def split: if_splits)
  with ok show ?thesis by simp
next
  case True
  then obtain c where c: "co_heap v a = Some c" "co_stack c" "co_now c = TERM'"
    "w = set_co a (c\<lparr>co_func := Some f, co_now := READY\<rparr>) v"
    using r by (cases "co_heap v a") (auto simp: co_reset_def split: if_splits)
  then have ne: "a \<noteq> s" using co_okD(3) [OF ok] by auto
  then have "worker c" using co_okD(6) [OF ok c(1)] by simp
  then show ?thesis
    using c co_okD(2) [OF ok] by (intro co_ok_change [OF ok ne c(1)]) (auto simp: set_co_def worker_def)
qed

lemma create_run:
  assumes ok: "co_ok s r v" and c: "coroutine_ctor True True f n True v = Ret (a, w)"
  shows "co_ok s r w"
proof -
  define d where "d = \<lparr>co_stackSize = (if n \<noteq> 0 then n else default_stackSize), co_stack = True,
    co_func = Some f, co_cid = new_cid v, co_now = READY, co_inScheduler = Some True\<rparr>"
  have w: "scheduler_coroutine w = scheduler_coroutine v" "running_coroutine w = running_coroutine v"
    "co_heap w = (co_heap v)(co_fresh v \<mapsto> d)" "co_fresh w = Suc (co_fresh v)"
    using c by (auto simp: coroutine_ctor_def Let_def set_co_def d_def)
  have new: "co_heap v (co_fresh v) = None" using co_okD(5) [OF ok, of "co_fresh v"] by fastforce
  have d: "worker d" "co_now d = READY" "co_func d = Some f" by (simp_all add: d_def worker_def)
  have old: "b \<noteq> co_fresh v" if "co_heap v b = Some e" for b e using that new by auto
  show ?thesis
    unfolding co_ok_def w
  proof (intro conjI allI impI)
    show "scheduler_coroutine v = Some s" "running_coroutine v = Some r" using co_okD(1,2) [OF ok] by simp_all
    show "\<exists>c. ((co_heap v)(co_fresh v \<mapsto> d)) s = Some c \<and> \<not> co_stack c \<and> co_now c = RUNNING"
      using co_okD(3) [OF ok] old by auto
    show "\<exists>c. ((co_heap v)(co_fresh v \<mapsto> d)) r = Some c \<and> co_now c = RUNNING"
      using co_okD(4) [OF ok] old by auto
    fix b e
    show "((co_heap v)(co_fresh v \<mapsto> d)) b = Some e \<Longrightarrow> b < Suc (co_fresh v)"
      using co_okD(5) [OF ok, of b] by (auto split: if_splits)
    assume "((co_heap v)(co_fresh v \<mapsto> d)) b = Some e \<and> b \<noteq> s"
    then show "worker e" "co_now e = RUNNING \<Longrightarrow> b = r" "co_now e \<noteq> TERM' \<Longrightarrow> co_func e \<noteq> None"
      using co_okD(6) [OF ok, of b e] d by (auto split: if_splits)
  qed
qed

lemma co_step_inv: "co_step v w \<Longrightarrow> co_inv v \<Longrightarrow> co_inv w"
proof (induction rule: co_step.induct)
  case (create f n v a w)
  then obtain s r where "co_ok s r v" by (auto simp: co_inv_def)
  from create_run [OF this create(1)] show ?case by (auto simp: co_inv_def)
next
  case (resume v a sw w)
  then obtain s r where "co_ok s r v" by (auto simp: co_inv_def)
  then have ok: "co_ok s s v" using resume(1) by (auto simp: co_ok_def)
  obtain c where c: "co_heap v a = Some c" using resume(2) by auto
  show ?case
  proof (cases "co_now c = READY")
    case True
    from resume_run(1) [OF ok c True] resume(3)
    have "w = set_co a (c\<lparr>co_now := RUNNING\<rparr>) (v\<lparr>running_coroutine := Some a\<rparr>)" by simp
    with resume_run(2) [OF ok c True] have "co_ok s a w" by (simp only:)
    then show ?thesis unfolding co_inv_def by blast
  next
    case False
    from resume_other [OF c False, of True] resume(3) have "w = v" by (simp only: outcome.inject prod.inject)
    with resume(4) show ?thesis by (simp only:)
  qed
next
  case (yield v a sw w)
  then obtain s r where o: "co_ok s r v" by (auto simp: co_inv_def)
  with yield(1,2) co_okD(1,2) [OF o] have ok: "co_ok s a v" "a \<noteq> s" by simp_all
  obtain c where c: "co_heap v a = Some c" using co_okD(4) [OF ok(1)] by blast
  from yield_run(1) [OF ok(1) c ok(2)] yield(3)
  have "w = set_co a (c\<lparr>co_now := READY\<rparr>) (v\<lparr>running_coroutine := Some s\<rparr>)" by simp
  with yield_run(2) [OF ok(1) c ok(2)] have "co_ok s s w" by (simp only:)
  then show ?case unfolding co_inv_def by blast
next
  case (finish v sw w)
  then obtain s a where o: "co_ok s a v" by (auto simp: co_inv_def)
  with finish(1) co_okD(1,2) [OF o] have ok: "co_ok s a v" "a \<noteq> s" by simp_all
  obtain c where c: "co_heap v a = Some c" using co_okD(4) [OF ok(1)] by blast
  from finish_run(1) [OF ok(1) c ok(2)] finish(2)
  have "w = set_co a (c\<lparr>co_func := None, co_now := TERM'\<rparr>) (v\<lparr>running_coroutine := Some s\<rparr>)" by simp
  with finish_run(2) [OF ok(1) c ok(2)] have "co_ok s s w" by (simp only:)
  then show ?case unfolding co_inv_def by blast
next
  case (reset v f a b w)
  then obtain s r where o: "co_ok s r v" by (auto simp: co_inv_def)
  with reset(1) co_okD(1,2) [OF o] have "co_ok s s v" by simp
  from reset_run [OF this reset(2)] show ?case unfolding co_inv_def by blast
qed

definition co_start :: "'f co_thread \<Rightarrow> bool" where
  "co_start v \<longleftrightarrow> (\<exists>cid. enter_schedule (co_thread0 cid) = Ret v)"

lemma co_start_inv: "co_start v \<Longrightarrow> co_inv v"
  by (auto simp: co_start_def enter_schedule_def getRunning_def co_thread0_def main_ctor_def set_co_def
      co_inv_def co_ok_def Let_def)

interpretation coroutines: step_invariant co_start co_step co_inv
  by unfold_locales (auto intro: co_start_inv co_step_inv)

section \<open>Properties\<close>

text \<open>
  C40. Switching in a worker thread, in every state its scheduling loop can reach: resuming a
  ready coroutine saves the scheduler's context and runs it; only the scheduler's coroutine
  and this one are then running. When it yields, the scheduler goes on in exactly the state
  before; when its function ends, it is terminated without a function and the scheduler goes
  on, and it can be reset to run another function.
\<close>
theorem resume_comes_back:
  assumes "enter_schedule (co_thread0 cid) = Ret v0" "co_step\<^sup>*\<^sup>* v0 v"
    and "running_coroutine v = scheduler_coroutine v" "co_heap v a = Some c" "co_now c = READY"
  shows "\<exists>s w. scheduler_coroutine v = Some s \<and> co_resume True a v = Ret (Some (s, a), w)
    \<and> running_coroutine w = Some a
    \<and> (\<forall>b d. co_heap w b = Some d \<and> co_now d = RUNNING \<longrightarrow> b \<in> {s, a})
    \<and> co_yield True a w = Ret (Some (a, s), v)
    \<and> (\<exists>x y d. co_finish True w = Ret (Some (a, s), x) \<and> running_coroutine x = Some s
        \<and> co_heap x a = Some d \<and> co_now d = TERM' \<and> co_func d = None \<and> co_reset True f a x = Some (True, y))"
proof -
  have "co_inv v" using coroutines.reach_inv assms(1,2) by (auto simp: co_start_def)
  then obtain s r where "co_ok s r v" by (auto simp: co_inv_def)
  then have ok: "co_ok s s v" using assms(3) by (auto simp: co_ok_def)
  note R = resume_run [OF ok assms(4,5)]
  define w where "w = set_co a (c\<lparr>co_now := RUNNING\<rparr>) (v\<lparr>running_coroutine := Some a\<rparr>)"
  have w: "co_resume True a v = Ret (Some (s, a), w)" "co_ok s a w" "co_heap w a = Some (c\<lparr>co_now := RUNNING\<rparr>)"
    using R by (simp_all add: w_def set_co_def)
  have same: "set_co a (c\<lparr>co_now := RUNNING, co_now := READY\<rparr>) (w\<lparr>running_coroutine := Some s\<rparr>) = v"
  proof -
    have "c\<lparr>co_now := READY\<rparr> = c" "(co_heap v)(a \<mapsto> c) = co_heap v" using assms(4,5) by auto
    then show ?thesis using co_okD(2) [OF ok] by (simp add: w_def set_co_def)
  qed
  have y: "co_yield True a w = Ret (Some (a, s), v)"
    using yield_run(1) [OF w(2,3) R(3)] same by simp
  have f: "\<exists>x y d. co_finish True w = Ret (Some (a, s), x) \<and> running_coroutine x = Some s
        \<and> co_heap x a = Some d \<and> co_now d = TERM' \<and> co_func d = None \<and> co_reset True f a x = Some (True, y)"
    using finish_run(1) [OF w(2,3) R(3)] R(4) by (auto simp: set_co_def co_reset_def worker_def)
  have "\<forall>b d. co_heap w b = Some d \<and> co_now d = RUNNING \<longrightarrow> b \<in> {s, a}"
    using co_okD(6) [OF w(2)] by blast
  with w(1) y f co_okD(1) [OF ok] co_okD(2) [OF w(2)] show ?thesis by blast
qed

theorem resume_comes_back_witness:
  "\<exists>v w :: string co_thread. running_coroutine v = Some 0 \<and> co_resume True 1 v = Ret (Some (0, 1), w)
    \<and> co_yield True 1 w = Ret (Some (1, 0), v)"
proof -
  obtain v0 :: "string co_thread" where v0: "enter_schedule (co_thread0 0) = Ret v0"
    "running_coroutine v0 = Some 0" "scheduler_coroutine v0 = Some 0" "co_fresh v0 = 1"
    by (simp add: enter_schedule_def getRunning_def co_thread0_def main_ctor_def set_co_def Let_def)
  obtain v where v: "coroutine_ctor True True ''f'' 0 True v0 = Ret (1, v)" "running_coroutine v = Some 0"
    "scheduler_coroutine v = Some 0"
    using v0 by (simp add: coroutine_ctor_def Let_def set_co_def)
  then obtain c where c: "co_heap v 1 = Some c" "co_now c = READY"
    using v0 by (auto simp: coroutine_ctor_def Let_def set_co_def)
  have run: "co_step\<^sup>*\<^sup>* v0 v" using co_step.create [OF v(1)] by blast
  have eq: "running_coroutine v = scheduler_coroutine v" using v(2,3) by simp
  from resume_comes_back [OF v0(1) run eq c, of "''g''"] v(3)
  obtain s w where "Some 0 = Some s" "co_resume True 1 v = Ret (Some (s, 1), w)"
    "co_yield True 1 w = Ret (Some (1, s), v)" by (elim exE conjE) (rule that, simp_all)
  with v(2) show ?thesis by (intro exI [of _ v] exI [of _ w]) auto
qed

end
