(* ===== verification/Scheduler.thy ===== *)
theory Scheduler
  imports Prelude Steps "HOL-Library.Multiset"
begin

text \<open>
  \<open>src/cort/coroutine.cpp\<close>, the class \<open>scheduler\<close>: the task list its threads share, the
  choice of a task, and stopping. Every definition is one critical section under the
  scheduler's mutex; the coroutines it resumes are those of \<open>Coroutine\<close>.
\<close>

section \<open>State\<close>

record 'f sched_task =
  tk_coroutine :: "nat option"
  tk_func :: "'f option"
  tk_thread :: int

record 'f sched =
  sc_tasks :: "'f sched_task list"
  sc_threads :: nat
  sc_threadIds :: "int list"
  sc_threadsNum :: nat
  sc_active :: nat
  sc_idle :: nat
  sc_mainCoroutine :: bool
  sc_mainThreadId :: int
  sc_asWorker :: bool
  sc_stopped :: bool

definition M_construct_not_as_worker :: "nat \<Rightarrow> 'f sched \<Rightarrow> 'f sched" where
  "M_construct_not_as_worker thread_num s = s\<lparr>sc_mainThreadId := - 1, sc_threadsNum := thread_num\<rparr>"

text \<open>\<open>existing\<close>: the calling thread already has a scheduler; \<open>tid\<close> is its id.\<close>

definition M_construct_as_worker :: "bool \<Rightarrow> int \<Rightarrow> nat \<Rightarrow> 'f sched \<Rightarrow> 'f sched outcome" where
  "M_construct_as_worker existing tid thread_num s =
     (if existing then Throw ''Scheduler existed''
      else Ret (s\<lparr>sc_mainCoroutine := True, sc_mainThreadId := tid,
             sc_threadIds := sc_threadIds s @ [tid], sc_threadsNum := thread_num - 1\<rparr>))"

definition scheduler_ctor :: "bool \<Rightarrow> int \<Rightarrow> nat \<Rightarrow> bool \<Rightarrow> 'f sched outcome" where
  "scheduler_ctor existing tid thread_num as_worker =
     (let s = \<lparr>sc_tasks = [], sc_threads = 0, sc_threadIds = [], sc_threadsNum = 0, sc_active = 0,
              sc_idle = 0, sc_mainCoroutine = False, sc_mainThreadId = 0, sc_asWorker = as_worker,
              sc_stopped = False\<rparr>;
          n = (if thread_num = 0 then 1 else thread_num)
      in if as_worker then M_construct_as_worker existing tid n s
         else Ret (M_construct_not_as_worker n s))"

section \<open>Tasks\<close>

definition valid_task :: "'f sched_task \<Rightarrow> bool" where
  "valid_task t = (tk_coroutine t \<noteq> None \<or> tk_func t \<noteq> None)"

text \<open>The flag asks for a tickle: the list was empty.\<close>

definition M_addTask :: "'f sched_task \<Rightarrow> 'f sched \<Rightarrow> bool \<times> 'f sched" where
  "M_addTask t s =
     (sc_tasks s = [], if valid_task t then s\<lparr>sc_tasks := sc_tasks s @ [t]\<rparr> else s)"

text \<open>The scan of the list for thread \<open>tid\<close>: whether to tickle the others, the task, the rest.\<close>

fun pick_task :: "int \<Rightarrow> 'f sched_task list \<Rightarrow> bool \<times> 'f sched_task option \<times> 'f sched_task list" where
  "pick_task tid [] = (False, None, [])"
| "pick_task tid (t # ts) =
     (if tk_thread t \<noteq> - 1 \<and> tid \<noteq> tk_thread t
      then let (tik, r, rest) = pick_task tid ts in (True, r, t # rest)
      else (ts \<noteq> [], Some t, ts))"

definition schedule_get :: "int \<Rightarrow> 'f sched \<Rightarrow> bool \<times> 'f sched_task option \<times> 'f sched" where
  "schedule_get tid s =
     (let (tik, r, rest) = pick_task tid (sc_tasks s) in
      (tik, r, case r of None \<Rightarrow> s
         | Some t \<Rightarrow> s\<lparr>sc_tasks := rest, sc_active := sc_active s + 1\<rparr>))"

text \<open>What the loop does with what it took; \<open>idle_over\<close> says that the idle coroutine ended.\<close>

datatype 'f work = ResumeCoroutine nat | RunFunction 'f | RunIdle | LeaveLoop

definition schedule_work :: "bool \<Rightarrow> 'f sched_task option \<Rightarrow> 'f work" where
  "schedule_work idle_over r =
     (let idle = (if idle_over then LeaveLoop else RunIdle) in
      case r of None \<Rightarrow> idle
      | Some t \<Rightarrow> (case tk_coroutine t of
            Some c \<Rightarrow> ResumeCoroutine c
          | None \<Rightarrow> (case tk_func t of Some f \<Rightarrow> RunFunction f | None \<Rightarrow> idle)))"

definition task_done :: "'f sched \<Rightarrow> 'f sched" where
  "task_done s = s\<lparr>sc_active := sc_active s - 1\<rparr>"

definition idle_enter :: "'f sched \<Rightarrow> 'f sched" where
  "idle_enter s = s\<lparr>sc_idle := sc_idle s + 1\<rparr>"

definition idle_leave :: "'f sched \<Rightarrow> 'f sched" where
  "idle_leave s = s\<lparr>sc_idle := sc_idle s - 1\<rparr>"

definition anyFreeThread :: "'f sched \<Rightarrow> bool" where
  "anyFreeThread s = (sc_idle s > 0)"

section \<open>Starting and stopping\<close>

definition sched_start :: "int list \<Rightarrow> 'f sched \<Rightarrow> 'f sched" where
  "sched_start tids s =
     (if sc_stopped s then s
      else if sc_threads s > 0 then s
      else s\<lparr>sc_threads := sc_threadsNum s, sc_threadIds := sc_threadIds s @ take (sc_threadsNum s) tids\<rparr>)"

definition M_stopping :: "'f sched \<Rightarrow> bool" where
  "M_stopping s = (sc_stopped s \<and> sc_tasks s = [] \<and> sc_active s = 0)"

text \<open>
  \<open>stop\<close>, with \<open>own\<close> for \<open>this == getScheduler()\<close>: the number of tickles, whether the main
  thread's scheduling coroutine is resumed, and the threads to join. \<open>None\<close> when the call
  returns without doing anything.
\<close>

definition sched_stop :: "bool \<Rightarrow> 'f sched \<Rightarrow> (nat \<times> bool \<times> nat) option \<times> 'f sched" where
  "sched_stop own s =
     (if sc_asWorker s \<noteq> own then (None, s)
      else if M_stopping s then (None, s)
      else (Some (sc_threadsNum s + (if sc_mainCoroutine s then 1 else 0), sc_mainCoroutine s, sc_threads s),
            s\<lparr>sc_stopped := True, sc_threads := 0\<rparr>))"

text \<open>
  The destructor, in a thread whose pointer to its scheduler is \<open>current\<close>: where that is the
  scheduler itself, \<open>_M_setScheduler\<close> stores it there again.
\<close>

definition sched_dtor :: "nat \<Rightarrow> nat option \<Rightarrow> 'f sched \<Rightarrow> nat option \<times> 'f sched" where
  "sched_dtor self current s =
     (let (r, s) = sched_stop (current = Some self) s
      in (if current = Some self then Some self else current, s))"

text \<open>So a thread that has been a worker of a scheduler can never construct another one.\<close>

lemma no_second_scheduler:
  "fst (sched_dtor self (Some self) s) = Some self"
  "scheduler_ctor (fst (sched_dtor self (Some self) s) \<noteq> None) tid n True = Throw ''Scheduler existed''"
  by (simp_all add: sched_dtor_def case_prod_beta scheduler_ctor_def M_construct_as_worker_def)

text \<open>
  The idle coroutine of the base class, over the states it finds the scheduler in: the number
  of its yields, \<open>None\<close> while it has not ended.
\<close>

fun sched_idle :: "'f sched list \<Rightarrow> nat option" where
  "sched_idle [] = None"
| "sched_idle (s # ss) = (if M_stopping s then Some 0 else map_option Suc (sched_idle ss))"

lemma sched_idle_ends:
  "sched_idle ss = Some n \<longleftrightarrow> n < length ss \<and> M_stopping (ss ! n) \<and> (\<forall>k < n. \<not> M_stopping (ss ! k))"
proof (induction ss arbitrary: n)
  case (Cons s ss)
  show ?case
  proof (cases n)
    case (Suc m)
    then show ?thesis using Cons.IH [of m] by (auto simp: All_less_Suc2)
  qed auto
qed simp

section \<open>Picking\<close>

lemma pick_Some:
  "pick_task tid ts = (tik, Some t, rest) \<Longrightarrow> \<exists>us vs. ts = us @ t # vs \<and> rest = us @ vs
     \<and> (tk_thread t = - 1 \<or> tk_thread t = tid)
     \<and> (\<forall>u \<in> set us. tk_thread u \<noteq> - 1 \<and> tk_thread u \<noteq> tid) \<and> (tik \<longleftrightarrow> rest \<noteq> [])"
proof (induction ts arbitrary: tik rest)
  case (Cons u ts)
  show ?case
  proof (cases "tk_thread u \<noteq> - 1 \<and> tid \<noteq> tk_thread u")
    case True
    then obtain tik' r' where r: "pick_task tid ts = (tik', Some t, r')" "rest = u # r'" "tik"
      using Cons.prems by (auto split: prod.splits)
    from Cons.IH [OF r(1)] obtain us vs where "ts = us @ t # vs" "r' = us @ vs"
      "tk_thread t = - 1 \<or> tk_thread t = tid" "\<forall>u \<in> set us. tk_thread u \<noteq> - 1 \<and> tk_thread u \<noteq> tid" by blast
    with True r(2,3) show ?thesis by (intro exI [of _ "u # us"] exI [of _ vs]) auto
  next
    case False
    with Cons.prems show ?thesis by (intro exI [of _ "[]"] exI [of _ ts]) auto
  qed
qed simp

section \<open>A run of the scheduler\<close>

text \<open>
  Tasks added, held by the threads that took them, and finished (the coroutine they ran in came
  back); \<open>held\<close> and \<open>finished\<close> remember the thread.
\<close>

record 'f sched_run =
  sched :: "'f sched"
  added :: "'f sched_task list"
  held :: "(int \<times> 'f sched_task) list"
  finished :: "(int \<times> 'f sched_task) list"

inductive sched_step :: "'f sched_run \<Rightarrow> 'f sched_run \<Rightarrow> bool" where
  add: "M_addTask t (sched x) = (tik, s) \<Longrightarrow>
    sched_step x (x\<lparr>sched := s, added := added x @ (if valid_task t then [t] else [])\<rparr>)"
| take: "tid \<notin> fst ` set (held x) \<Longrightarrow> schedule_get tid (sched x) = (tik, Some t, s) \<Longrightarrow>
    sched_step x (x\<lparr>sched := s, held := held x @ [(tid, t)]\<rparr>)"
| over: "(tid, t) \<in> set (held x) \<Longrightarrow>
    sched_step x (x\<lparr>sched := task_done (sched x), held := remove1 (tid, t) (held x),
      finished := finished x @ [(tid, t)]\<rparr>)"
| stop: "sched_stop own (sched x) = (r, s) \<Longrightarrow> sched_step x (x\<lparr>sched := s\<rparr>)"
| idle: "s \<in> {idle_enter (sched x), idle_leave (sched x)} \<Longrightarrow> sched_step x (x\<lparr>sched := s\<rparr>)"

definition sched_start_run :: "'f sched_run \<Rightarrow> bool" where
  "sched_start_run x \<longleftrightarrow> (\<exists>existing tid n w. scheduler_ctor existing tid n w = Ret (sched x))
     \<and> added x = [] \<and> held x = [] \<and> finished x = []"

definition sched_inv :: "'f sched_run \<Rightarrow> bool" where
  "sched_inv x \<longleftrightarrow> mset (added x) = mset (sc_tasks (sched x)) + mset (map snd (held x)) + mset (map snd (finished x))
     \<and> sc_active (sched x) = length (held x) \<and> distinct (map fst (held x))
     \<and> (\<forall>(tid, t) \<in> set (held x) \<union> set (finished x). valid_task t \<and> tk_thread t \<in> {- 1, tid})
     \<and> (\<forall>t \<in> set (sc_tasks (sched x)). valid_task t)"

lemma distinct_map_remove1: "distinct (map f xs) \<Longrightarrow> distinct (map f (remove1 x xs))"
  by (meson distinct_map distinct_remove1 inj_on_subset set_remove1_subset)

lemma sched_step_inv: "sched_step x y \<Longrightarrow> sched_inv x \<Longrightarrow> sched_inv y"
proof (induction rule: sched_step.induct)
  case (add t x tik s)
  then show ?case by (auto simp: sched_inv_def M_addTask_def)
next
  case (take tid x tik t s)
  then obtain us vs where "sc_tasks (sched x) = us @ t # vs" "tk_thread t = - 1 \<or> tk_thread t = tid"
    and s: "s = (sched x)\<lparr>sc_tasks := us @ vs, sc_active := sc_active (sched x) + 1\<rparr>"
    by (auto simp: schedule_get_def split: prod.splits option.splits dest!: pick_Some)
  with take show ?case by (auto simp: sched_inv_def)
next
  case (over tid t x)
  let ?r = "remove1 (tid, t) (held x)"
  have m: "mset (held x) = add_mset (tid, t) (mset ?r)" using over(1) by simp
  have "mset (map snd (held x)) = add_mset t (mset (map snd ?r))"
    unfolding mset_map m by simp
  moreover have "length (held x) = Suc (length ?r)"
    by (metis m size_mset size_add_mset)
  moreover have "distinct (map fst ?r)"
    using over(2) by (intro distinct_map_remove1) (simp add: sched_inv_def)
  moreover have "set (held x) = insert (tid, t) (set ?r)"
    by (metis m set_mset_add_mset_insert set_mset_mset)
  moreover have "sched_inv x" by (rule over)
  ultimately show ?case by (simp add: sched_inv_def task_done_def)
next
  case (stop own x r s)
  then show ?case by (auto simp: sched_inv_def sched_stop_def split: if_splits)
next
  case (idle s x)
  then show ?case by (auto simp: sched_inv_def idle_enter_def idle_leave_def)
qed

lemma scheduler_ctor_empty:
  "scheduler_ctor existing tid n w = Ret s \<Longrightarrow> sc_tasks s = [] \<and> sc_active s = 0 \<and> \<not> sc_stopped s"
  by (auto simp: scheduler_ctor_def M_construct_as_worker_def M_construct_not_as_worker_def Let_def
      split: if_splits)

lemma sched_start_inv: "sched_start_run x \<Longrightarrow> sched_inv x"
  by (auto simp: sched_start_run_def sched_inv_def dest!: scheduler_ctor_empty)

interpretation sched_runs: step_invariant sched_start_run sched_step sched_inv
  by unfold_locales (rule sched_start_inv, assumption, rule sched_step_inv)

text \<open>
  C22. In every run of the scheduler each task accepted by \<open>addTask\<close> is in exactly one place:
  queued, held by the thread that took it, or finished; the active counter counts the held
  ones, each was taken by a thread it allows, and no task is queued without a coroutine or a
  function. When \<open>_M_stopping\<close> answers true, every task accepted has finished.
\<close>

theorem tasks_run_once:
  assumes "sched_start_run x0" "sched_step\<^sup>*\<^sup>* x0 x"
  shows "mset (added x) = mset (sc_tasks (sched x)) + mset (map snd (held x)) + mset (map snd (finished x))
    \<and> sc_active (sched x) = length (held x)
    \<and> (\<forall>(tid, t) \<in> set (held x) \<union> set (finished x).
        valid_task t \<and> (tk_thread t = - 1 \<or> tk_thread t = tid))
    \<and> (M_stopping (sched x) \<longrightarrow> mset (map snd (finished x)) = mset (added x))"
  using sched_runs.reach_inv [OF assms] by (simp add: sched_inv_def M_stopping_def)

text \<open>A scheduler of one thread, 7: a task is added, taken and finished, and the scheduler stopped.\<close>

definition demo_task :: "nat sched_task" where
  "demo_task = \<lparr>tk_coroutine = None, tk_func = Some 5, tk_thread = 7\<rparr>"

definition demo_sched :: "nat sched_task list \<Rightarrow> nat \<Rightarrow> bool \<Rightarrow> nat sched" where
  "demo_sched ts n b = \<lparr>sc_tasks = ts, sc_threads = 0, sc_threadIds = [], sc_threadsNum = 1,
     sc_active = n, sc_idle = 0, sc_mainCoroutine = False, sc_mainThreadId = - 1, sc_asWorker = False,
     sc_stopped = b\<rparr>"

definition demo_run :: "nat sched \<Rightarrow> nat sched_task list \<Rightarrow> (int \<times> nat sched_task) list
    \<Rightarrow> (int \<times> nat sched_task) list \<Rightarrow> nat sched_run" where
  "demo_run s a h f = \<lparr>sched = s, added = a, held = h, finished = f\<rparr>"

lemmas demo_sched_defs = demo_task_def demo_sched_def demo_run_def

lemma demo_sched_start: "sched_start_run (demo_run (demo_sched [] 0 False) [] [] [])"
proof -
  have "scheduler_ctor False 0 1 False = Ret (demo_sched [] 0 False)"
    by (simp add: scheduler_ctor_def M_construct_not_as_worker_def demo_sched_def)
  then show ?thesis unfolding sched_start_run_def by (auto simp: demo_run_def)
qed

lemma demo_sched_run: "sched_step\<^sup>*\<^sup>* (demo_run (demo_sched [] 0 False) [] [] [])
    (demo_run (demo_sched [] 0 True) [demo_task] [] [(7, demo_task)])"
proof -
  let ?a = "demo_run (demo_sched [] 0 False) [] [] []"
  let ?b = "demo_run (demo_sched [demo_task] 0 False) [demo_task] [] []"
  let ?c = "demo_run (demo_sched [] 1 False) [demo_task] [(7, demo_task)] []"
  let ?d = "demo_run (demo_sched [] 0 False) [demo_task] [] [(7, demo_task)]"
  let ?e = "demo_run (demo_sched [] 0 True) [demo_task] [] [(7, demo_task)]"
  have "sched_step ?a ?b"
    using sched_step.add [of demo_task ?a True "sched ?b"]
    by (simp add: demo_sched_defs M_addTask_def valid_task_def)
  moreover have "sched_step ?b ?c"
    using sched_step.take [of 7 ?b False demo_task "sched ?c"]
    by (simp add: demo_sched_defs schedule_get_def)
  moreover have "sched_step ?c ?d"
    using sched_step.over [of 7 demo_task ?c] by (simp add: demo_sched_defs task_done_def)
  moreover have "sched_step ?d ?e"
    using sched_step.stop [of False ?d "Some (1, False, 0)" "sched ?e"]
    by (simp add: demo_sched_defs sched_stop_def M_stopping_def)
  ultimately show ?thesis by (meson rtranclp.rtrancl_refl rtranclp.rtrancl_into_rtrancl)
qed

lemma tasks_run_once_witness:
  "mset (map snd (finished (demo_run (demo_sched [] 0 True) [demo_task] [] [(7, demo_task)])))
     = {#demo_task#}"
  using tasks_run_once [OF demo_sched_start demo_sched_run]
  by (simp add: demo_run_def M_stopping_def demo_sched_def)

end
