(* ===== verification/Ioman.thy ===== *)
theory Ioman
  imports Prelude Scheduler Timer "HOL-Library.Word"
begin

unbundle bit_operations_syntax

text \<open>
  \<open>src/cort/ioman.cpp\<close> and \<open>ioman.h\<close>: the contexts of the file descriptors, the counter of
  pending events, and one pass of the idle coroutine over timers and reported events. The
  epoll instance of the kernel is the parameter \<open>ctl\<close> on a kernel state; the descriptor's
  mutex makes each definition one step.
\<close>

section \<open>State\<close>

definition EPOLLIN :: "32 word" where "EPOLLIN = 0x1"
definition EPOLLOUT :: "32 word" where "EPOLLOUT = 0x4"
definition EPOLLERR :: "32 word" where "EPOLLERR = 0x8"
definition EPOLLHUP :: "32 word" where "EPOLLHUP = 0x10"
definition EPOLLET :: "32 word" where "EPOLLET = 0x80000000"

definition READ :: "32 word" where "READ = EPOLLIN"
definition WRITE :: "32 word" where "WRITE = EPOLLOUT"

lemmas epoll_bits = EPOLLIN_def EPOLLOUT_def EPOLLERR_def EPOLLHUP_def EPOLLET_def READ_def WRITE_def

datatype epoll_op = CTL_ADD | CTL_MOD | CTL_DEL

text \<open>Coroutines and schedulers are named by numbers.\<close>

record 'g event_context =
  ec_co :: "nat option"
  ec_func :: "'g option"
  ec_sch :: "nat option"

record 'g fd_context =
  readContext :: "'g event_context"
  writeContext :: "'g event_context"
  fd_events :: "32 word"
  fd_fd :: nat

text \<open>\<open>elsewhere\<close> collects the tasks handed to schedulers other than the manager itself.\<close>

record ('f, 'k) ioman =
  io_self :: nat
  io_sched :: "'f callback sched"
  io_timers :: "'f manager"
  fdEventContexts :: "'f callback fd_context list"
  pendingCountor :: "64 word"
  tickleFd :: nat
  epollFd :: 'k
  elsewhere :: "(nat \<times> 'f callback sched_task) list"

type_synonym 'k epoll = "epoll_op \<Rightarrow> nat \<Rightarrow> 32 word \<Rightarrow> 'k \<Rightarrow> bool \<times> 'k"

section \<open>Contexts of events\<close>

definition resetEventContext :: "'g event_context \<Rightarrow> 'g event_context" where
  "resetEventContext x = x\<lparr>ec_sch := None, ec_co := None, ec_func := None\<rparr>"

definition getEventContext :: "32 word \<Rightarrow> 'g fd_context \<Rightarrow> 'g event_context outcome" where
  "getEventContext e c =
     (if e = READ then Ret (readContext c) else if e = WRITE then Ret (writeContext c)
      else Throw ''Invalid value of argument e of type event'')"

text \<open>Writing through the reference \<open>getEventContext\<close> returned.\<close>

definition put_context :: "32 word \<Rightarrow> 'g event_context \<Rightarrow> 'g fd_context \<Rightarrow> 'g fd_context" where
  "put_context e x c = (if e = READ then c\<lparr>readContext := x\<rparr> else c\<lparr>writeContext := x\<rparr>)"

definition empty_context :: "'g event_context" where
  "empty_context = \<lparr>ec_co = None, ec_func = None, ec_sch = None\<rparr>"

definition new_context :: "nat \<Rightarrow> 'g fd_context" where
  "new_context i = \<lparr>readContext = empty_context, writeContext = empty_context, fd_events = 0, fd_fd = i\<rparr>"

definition M_expandContext :: "nat \<Rightarrow> ('f, 'k) ioman \<Rightarrow> ('f, 'k) ioman" where
  "M_expandContext n io =
     (let i = length (fdEventContexts io) in
      if n > i then io\<lparr>fdEventContexts := fdEventContexts io @ map new_context [i..<n]\<rparr> else io)"

definition set_context :: "nat \<Rightarrow> 'f callback fd_context \<Rightarrow> ('f, 'k) ioman \<Rightarrow> ('f, 'k) ioman" where
  "set_context a c io = io\<lparr>fdEventContexts := (fdEventContexts io)[a := c]\<rparr>"

text \<open>\<open>addTask\<close> of scheduler \<open>sid\<close>, for any thread.\<close>

definition add_task :: "nat \<Rightarrow> 'f callback sched_task \<Rightarrow> ('f, 'k) ioman \<Rightarrow> ('f, 'k) ioman" where
  "add_task sid t io =
     (if sid = io_self io then io\<lparr>io_sched := snd (M_addTask t (io_sched io))\<rparr>
      else io\<lparr>elsewhere := elsewhere io @ [(sid, t)]\<rparr>)"

definition context_task :: "'g event_context \<Rightarrow> 'g sched_task" where
  "context_task x =
     (case ec_func x of
        Some f \<Rightarrow> \<lparr>tk_coroutine = None, tk_func = Some f, tk_thread = - 1\<rparr>
      | None \<Rightarrow> \<lparr>tk_coroutine = ec_co x, tk_func = None, tk_thread = - 1\<rparr>)"

definition triggerEvent :: "32 word \<Rightarrow> nat \<Rightarrow> ('f, 'k) ioman \<Rightarrow> ('f, 'k) ioman outcome" where
  "triggerEvent e a io = and_then (of_opt (arr_get (fdEventContexts io) a)) (\<lambda>c.
     if fd_events c AND e = 0 then Ret io
     else and_then (getEventContext e c) (\<lambda>x.
       and_then (of_opt (ec_sch x)) (\<lambda>sid.
         Ret (set_context a (put_context e (resetEventContext x)
             (c\<lparr>fd_events := fd_events c AND NOT e\<rparr>)) (add_task sid (context_task x) io)))))"

section \<open>The operations\<close>

definition count_down :: "('f, 'k) ioman \<Rightarrow> ('f, 'k) ioman" where
  "count_down io = io\<lparr>pendingCountor := pendingCountor io - 1\<rparr>"

definition with_kernel :: "'k \<Rightarrow> ('f, 'k) ioman \<Rightarrow> ('f, 'k) ioman" where
  "with_kernel k io = io\<lparr>epollFd := k\<rparr>"

text \<open>
  \<open>addEvent\<close>, with the caller's scheduler, its running coroutine and whether that is in the
  state \<open>RUNNING\<close>. A negative descriptor is converted from a negative \<open>double\<close>, which is
  undefined. The callers register \<open>READ\<close> or \<open>WRITE\<close>; for any other value the exception of
  \<open>getEventContext\<close> leaves the event counted, and no state is kept of it here.
\<close>

definition find_context :: "int \<Rightarrow> ('f, 'k) ioman \<Rightarrow> nat option" where
  "find_context fd io =
     (if 0 \<le> fd \<and> nat fd < length (fdEventContexts io) then Some (nat fd) else None)"

definition open_context :: "int \<Rightarrow> ('f, 'k) ioman \<Rightarrow> (nat \<times> ('f, 'k) ioman) outcome" where
  "open_context fd io =
     (case find_context fd io of
        Some a \<Rightarrow> Ret (a, io)
      | None \<Rightarrow> if fd < 0 then Undef else Ret (nat fd, M_expandContext (nat fd * 3 div 2) io))"

definition addEvent ::
  "'k epoll \<Rightarrow> nat option \<Rightarrow> nat \<Rightarrow> bool \<Rightarrow> int \<Rightarrow> 32 word \<Rightarrow> 'f callback option \<Rightarrow> ('f, 'k) ioman
    \<Rightarrow> (int \<times> ('f, 'k) ioman) outcome" where
  "addEvent ctl sch co running fd e f io = and_then (open_context fd io) (\<lambda>(a, io).
     and_then (of_opt (arr_get (fdEventContexts io) a)) (\<lambda>c.
       if fd_events c AND e \<noteq> 0 then Ret (- 2, io)
       else let op = (if fd_events c \<noteq> 0 then CTL_MOD else CTL_ADD);
                (ok, k) = ctl op a (fd_events c OR e OR EPOLLET) (epollFd io);
                io = with_kernel k io
         in if \<not> ok then Ret (- 1, io)
         else let io = io\<lparr>pendingCountor := pendingCountor io + 1\<rparr>;
                  c = c\<lparr>fd_events := fd_events c OR e\<rparr>
           in and_then (getEventContext e c) (\<lambda>x.
             let x = x\<lparr>ec_sch := sch\<rparr> in
             case f of
               Some g \<Rightarrow> Ret (0, set_context a (put_context e (x\<lparr>ec_func := Some g\<rparr>) c) io)
             | None \<Rightarrow> Ret (if running then 0 else - 3,
                  set_context a (put_context e (x\<lparr>ec_co := Some co\<rparr>) c) io))))"

text \<open>What \<open>delEvent\<close> and \<open>cancelEvent\<close> share: the checks and the call of \<open>epoll_ctl\<close>.\<close>

definition drop_event ::
  "'k epoll \<Rightarrow> int \<Rightarrow> 32 word \<Rightarrow> ('f, 'k) ioman \<Rightarrow> ((nat \<times> 'f callback fd_context) option \<times> ('f, 'k) ioman)" where
  "drop_event ctl fd e io =
     (case find_context fd io of
        None \<Rightarrow> (None, io)
      | Some a \<Rightarrow>
          (let c = fdEventContexts io ! a in
           if fd_events c AND e = 0 then (None, io)
           else let new_events = fd_events c AND NOT e;
                    op = (if new_events \<noteq> 0 then CTL_MOD else CTL_DEL);
                    (ok, k) = ctl op a (new_events OR EPOLLET) (epollFd io)
             in (if ok then Some (a, c) else None, with_kernel k io)))"

definition delEvent ::
  "'k epoll \<Rightarrow> int \<Rightarrow> 32 word \<Rightarrow> ('f, 'k) ioman \<Rightarrow> (bool \<times> ('f, 'k) ioman) outcome" where
  "delEvent ctl fd e io =
     (case drop_event ctl fd e io of
        (None, io) \<Rightarrow> Ret (False, io)
      | (Some (a, c), io) \<Rightarrow> and_then (getEventContext e c) (\<lambda>x.
          Ret (True, set_context a (put_context e (resetEventContext x)
            (c\<lparr>fd_events := fd_events c AND NOT e\<rparr>)) (count_down io))))"

definition cancelEvent ::
  "'k epoll \<Rightarrow> int \<Rightarrow> 32 word \<Rightarrow> ('f, 'k) ioman \<Rightarrow> (bool \<times> ('f, 'k) ioman) outcome" where
  "cancelEvent ctl fd e io =
     (case drop_event ctl fd e io of
        (None, io) \<Rightarrow> Ret (False, io)
      | (Some (a, c), io) \<Rightarrow> and_then (triggerEvent e a io) (\<lambda>io. Ret (True, count_down io)))"

text \<open>Triggering one of the two events and counting it down, when \<open>b\<close> holds of it.\<close>

definition trigger_if :: "bool \<Rightarrow> 32 word \<Rightarrow> nat \<Rightarrow> ('f, 'k) ioman \<Rightarrow> ('f, 'k) ioman outcome" where
  "trigger_if b e a io =
     (if b then and_then (triggerEvent e a io) (\<lambda>io. Ret (count_down io)) else Ret io)"

definition has_event :: "32 word \<Rightarrow> nat \<Rightarrow> ('f, 'k) ioman \<Rightarrow> bool" where
  "has_event e a io \<longleftrightarrow> fd_events (fdEventContexts io ! a) AND e \<noteq> 0"

definition cancelAll ::
  "'k epoll \<Rightarrow> int \<Rightarrow> ('f, 'k) ioman \<Rightarrow> (bool \<times> ('f, 'k) ioman) outcome" where
  "cancelAll ctl fd io =
     (case find_context fd io of
        None \<Rightarrow> Ret (False, io)
      | Some a \<Rightarrow>
          if fd_events (fdEventContexts io ! a) = 0 then Ret (False, io)
          else let (ok, k) = ctl CTL_DEL a 0 (epollFd io); io = with_kernel k io
            in if \<not> ok then Ret (False, io)
            else and_then (trigger_if (has_event READ a io) READ a io) (\<lambda>io.
              and_then (trigger_if (has_event WRITE a io) WRITE a io) (\<lambda>io. Ret (True, io))))"

section \<open>The idle coroutine\<close>

text \<open>\<open>True\<close> when a byte is written to the pipe.\<close>

definition io_tickle :: "bool \<Rightarrow> ('f, 'k) ioman \<Rightarrow> bool outcome" where
  "io_tickle write_ok io =
     (if anyFreeThread (io_sched io) then if write_ok then Ret True else Throw ''Failed to tickle''
      else Ret False)"

definition io_stopping :: "64 word \<Rightarrow> ('f, 'k) ioman \<Rightarrow> (bool \<times> 64 word \<times> ('f, 'k) ioman) outcome" where
  "io_stopping now io = and_then (of_opt (getNextDuration now (io_timers io))) (\<lambda>(d, m).
     Ret (noNext = d \<and> pendingCountor io = 0 \<and> M_stopping (io_sched io), d, io\<lparr>io_timers := m\<rparr>))"

definition wait_ms :: "64 word \<Rightarrow> 64 word" where
  "wait_ms next = (if noNext = next then 5000 else min next 5000)"

text \<open>
  What \<open>epoll_wait\<close> answers: a report names the pipe or the context whose pointer was
  registered, with the events reported. A signal makes the code wait again.
\<close>

datatype report = FromTickle | FromFd nat "32 word"

datatype wait_answer = Interrupted | WaitFailed | Reports "report list"

fun wait_loop :: "wait_answer list \<Rightarrow> report list option" where
  "wait_loop [] = None"
| "wait_loop (Interrupted # as) = wait_loop as"
| "wait_loop (WaitFailed # as) = Some []"
| "wait_loop (Reports es # as) = Some es"

text \<open>The callbacks of expired timers become tasks; an empty one is dropped by \<open>addTask\<close>.\<close>

definition callback_task :: "'f callback option \<Rightarrow> 'f callback sched_task" where
  "callback_task cb = \<lparr>tk_coroutine = None, tk_func = cb, tk_thread = - 1\<rparr>"

definition idle_timeouts :: "64 word \<Rightarrow> nat \<Rightarrow> ('f, 'k) ioman \<Rightarrow> ('f, 'k) ioman outcome" where
  "idle_timeouts now z io = and_then (of_opt (timeoutCallbacks now z [] (io_timers io))) (\<lambda>(cbs, m).
     Ret (fold (\<lambda>cb. add_task (io_self io) (callback_task cb)) cbs (io\<lparr>io_timers := m\<rparr>)))"

text \<open>The events a report stands for. \<open>==\<close> binds tighter than \<open>&\<close> in the guard.\<close>

definition triggered_of :: "32 word \<Rightarrow> 32 word \<Rightarrow> 32 word" where
  "triggered_of events ev =
     (let ev = (if ev AND (EPOLLERR OR EPOLLHUP) \<noteq> 0 then ev OR ((EPOLLIN OR EPOLLOUT) AND events) else ev)
      in (if ev AND EPOLLIN \<noteq> 0 then READ else 0) OR (if ev AND EPOLLOUT \<noteq> 0 then WRITE else 0))"

definition skip_report :: "32 word \<Rightarrow> 32 word \<Rightarrow> bool" where
  "skip_report events triggered = ((if 0 = events then 1 else 0) AND triggered \<noteq> (0 :: 32 word))"

definition idle_report :: "'k epoll \<Rightarrow> report \<Rightarrow> ('f, 'k) ioman \<Rightarrow> ('f, 'k) ioman outcome" where
  "idle_report ctl r io =
     (case r of
        FromTickle \<Rightarrow> Ret io
      | FromFd a ev \<Rightarrow> and_then (of_opt (arr_get (fdEventContexts io) a)) (\<lambda>c.
          let triggered = triggered_of (fd_events c) ev in
          if skip_report (fd_events c) triggered then Ret io
          else let left = fd_events c AND NOT triggered;
                   op = (if left \<noteq> 0 then CTL_MOD else CTL_DEL);
                   (ok, k) = ctl op (fd_fd c) (left OR EPOLLET) (epollFd io);
                   io = with_kernel k io
            in if \<not> ok then Ret io
            else and_then (trigger_if (READ AND triggered \<noteq> 0) READ a io)
              (trigger_if (WRITE AND triggered \<noteq> 0) WRITE a)))"

fun idle_reports :: "'k epoll \<Rightarrow> report list \<Rightarrow> ('f, 'k) ioman \<Rightarrow> ('f, 'k) ioman outcome" where
  "idle_reports ctl [] io = Ret io"
| "idle_reports ctl (r # rs) io = and_then (idle_report ctl r io) (idle_reports ctl rs)"

text \<open>
  One round of the loop: \<open>None\<close> when the loop ends, otherwise the time it waited at most; the
  coroutine yields after the round.
\<close>

definition idle_round ::
  "'k epoll \<Rightarrow> 64 word \<Rightarrow> 64 word \<Rightarrow> nat \<Rightarrow> wait_answer list \<Rightarrow> ('f, 'k) ioman
    \<Rightarrow> (64 word option \<times> ('f, 'k) ioman) outcome" where
  "idle_round ctl t0 now z answers io = and_then (io_stopping t0 io) (\<lambda>(over, d, io).
     if over then Ret (None, io)
     else and_then (of_opt (wait_loop answers)) (\<lambda>rs.
       and_then (idle_timeouts now z io) (\<lambda>io.
         and_then (idle_reports ctl rs io) (\<lambda>io. Ret (Some (wait_ms d), io)))))"

section \<open>Construction\<close>

definition ioman_ctor ::
  "'k epoll \<Rightarrow> 'k \<Rightarrow> (nat \<Rightarrow> 64 word) \<Rightarrow> bool \<Rightarrow> bool \<Rightarrow> nat \<Rightarrow> nat \<Rightarrow> bool \<Rightarrow> int \<Rightarrow> int list \<Rightarrow> 64 word \<Rightarrow> nat
    \<Rightarrow> bool \<Rightarrow> ('f, 'k) ioman outcome" where
  "ioman_ctor ctl k0 mem pipe_ok fcntl_ok self tick existing tid tids now thread_num as_worker =
     and_then (scheduler_ctor existing tid thread_num as_worker) (\<lambda>s.
       if \<not> pipe_ok then Throw ''pipe''
       else if \<not> fcntl_ok then Throw ''fcntl set non-block''
       else let (ok, k) = ctl CTL_ADD tick (EPOLLIN OR EPOLLET) k0
         in if \<not> ok then Throw ''epoll_ctl executing add''
         else let io = M_expandContext 32 \<lparr>io_self = self, io_sched = s, io_timers = timerManager mem now,
                    fdEventContexts = [], pendingCountor = 0, tickleFd = tick, epollFd = k, elsewhere = []\<rparr>
           in Ret (io\<lparr>io_sched := sched_start tids (io_sched io)\<rparr>))"

end
