(* ===== verification/IomanProps.thy ===== *)
theory IomanProps
  imports Ioman Steps
begin

text \<open>
  The manager's invariant over every run with a kernel that answers \<open>epoll_ctl\<close> as
  documented: the counter of pending events, the contexts and the kernel's interest list
  agree. A report that another thread has already handled breaks it.
\<close>

section \<open>Event sets\<close>

definition valid_events :: "32 word \<Rightarrow> bool" where
  "valid_events ev \<longleftrightarrow> ev \<in> {0, READ, WRITE, READ OR WRITE}"

definition bits :: "32 word \<Rightarrow> nat" where
  "bits ev = (if ev AND READ \<noteq> 0 then 1 else 0) + (if ev AND WRITE \<noteq> 0 then 1 else 0)"

lemma bits_drop:
  assumes "valid_events ev" "e \<in> {READ, WRITE}" "ev AND e \<noteq> 0"
  shows "valid_events (ev AND NOT e)" "bits ev = Suc (bits (ev AND NOT e))"
    "(ev AND NOT e) AND e = 0" "e' \<in> {READ, WRITE} \<Longrightarrow> e' \<noteq> e \<Longrightarrow> (ev AND NOT e) AND e' = ev AND e'"
  using assms by (auto simp: valid_events_def bits_def epoll_bits)

lemma bits_add:
  assumes "valid_events ev" "e \<in> {READ, WRITE}" "ev AND e = 0"
  shows "valid_events (ev OR e)" "bits (ev OR e) = Suc (bits ev)"
    "(ev OR e) AND e \<noteq> 0" "e' \<in> {READ, WRITE} \<Longrightarrow> e' \<noteq> e \<Longrightarrow> (ev OR e) AND e' = ev AND e'"
    "ev OR e \<noteq> 0"
  using assms by (auto simp: valid_events_def bits_def epoll_bits)

lemma bits_le: "bits ev \<le> 2"
  by (simp add: bits_def)

lemma bits_pos: "valid_events ev \<Longrightarrow> ev \<noteq> 0 \<Longrightarrow> bits ev > 0"
  by (auto simp: valid_events_def bits_def epoll_bits)

lemma ex_bool [simp]: "\<exists>b. b" "\<exists>b. \<not> b"
  by auto

section \<open>The invariant\<close>

definition slot_ok :: "bool \<Rightarrow> 'g event_context \<Rightarrow> bool" where
  "slot_ok on x = (if on then ec_sch x \<noteq> None \<and> (ec_func x = None) \<noteq> (ec_co x = None) else x = empty_context)"

definition context_ok :: "nat \<Rightarrow> 'g fd_context \<Rightarrow> bool" where
  "context_ok a c \<longleftrightarrow> fd_fd c = a \<and> valid_events (fd_events c)
     \<and> slot_ok (fd_events c AND READ \<noteq> 0) (readContext c)
     \<and> slot_ok (fd_events c AND WRITE \<noteq> 0) (writeContext c)"

definition events_of :: "('f, 'k) ioman \<Rightarrow> 32 word list" where
  "events_of io = map fd_events (fdEventContexts io)"

definition registered :: "('f, 'k) ioman \<Rightarrow> nat" where
  "registered io = sum_list (map bits (events_of io))"

definition counts_ok :: "('f, 'k) ioman \<Rightarrow> bool" where
  "counts_ok io \<longleftrightarrow> (\<forall>a < length (fdEventContexts io). context_ok a (fdEventContexts io ! a))
     \<and> unat (pendingCountor io) = registered io
     \<and> 32 \<le> length (fdEventContexts io) \<and> length (fdEventContexts io) < 2 ^ 32"

text \<open>What the kernel should hold: the pipe, and every descriptor with an event registered.\<close>

definition kernel_view :: "nat \<Rightarrow> 32 word list \<Rightarrow> nat \<Rightarrow> 32 word option" where
  "kernel_view tick evs fd =
     (if fd = tick then Some (EPOLLIN OR EPOLLET)
      else if fd < length evs \<and> evs ! fd \<noteq> 0 then Some (evs ! fd OR EPOLLET) else None)"

definition kernel_ok :: "('k \<Rightarrow> nat \<Rightarrow> 32 word option) \<Rightarrow> nat \<Rightarrow> 'k \<Rightarrow> 32 word list \<Rightarrow> bool" where
  "kernel_ok interest tick k evs \<longleftrightarrow> (\<forall>fd. interest k fd = kernel_view tick evs fd)
     \<and> (tick < length evs \<longrightarrow> evs ! tick = 0)"

definition io_ok :: "('k \<Rightarrow> nat \<Rightarrow> 32 word option) \<Rightarrow> ('f, 'k) ioman \<Rightarrow> bool" where
  "io_ok interest io \<longleftrightarrow> counts_ok io \<and> kernel_ok interest (tickleFd io) (epollFd io) (events_of io)"

text \<open>
  \<open>epoll_ctl\<close> as documented: it adds only what is not there, changes and deletes only what is
  there, and a call that fails changes nothing.
\<close>

definition epoll_effect :: "epoll_op \<Rightarrow> 32 word \<Rightarrow> 32 word option \<Rightarrow> 32 word option option" where
  "epoll_effect op ev old =
     (case op of
        CTL_ADD \<Rightarrow> if old = None then Some (Some ev) else None
      | CTL_MOD \<Rightarrow> if old \<noteq> None then Some (Some ev) else None
      | CTL_DEL \<Rightarrow> if old \<noteq> None then Some None else None)"

definition epoll_laws :: "'k epoll \<Rightarrow> ('k \<Rightarrow> nat \<Rightarrow> 32 word option) \<Rightarrow> bool" where
  "epoll_laws ctl interest \<longleftrightarrow> (\<forall>op fd ev k ok k'. ctl op fd ev k = (ok, k') \<longrightarrow>
     (if ok then epoll_effect op ev (interest k fd) = Some (interest k' fd)
        \<and> (\<forall>x. x \<noteq> fd \<longrightarrow> interest k' x = interest k x)
      else interest k' = interest k))"

section \<open>Steps\<close>

text \<open>
  A report is fresh when the events it carries are still registered: no other thread has
  handled or cancelled them since the kernel reported them.
\<close>

fun fresh_report :: "('f, 'k) ioman \<Rightarrow> report \<Rightarrow> bool" where
  "fresh_report io FromTickle = True"
| "fresh_report io (FromFd a ev) \<longleftrightarrow> a < length (fdEventContexts io) \<and> a \<noteq> tickleFd io
     \<and> ev AND (EPOLLIN OR EPOLLOUT) AND NOT (fd_events (fdEventContexts io ! a)) = 0"

inductive io_step :: "'k epoll \<Rightarrow> ('f, 'k) ioman \<Rightarrow> ('f, 'k) ioman \<Rightarrow> bool" for ctl where
  add: "e \<in> {READ, WRITE} \<Longrightarrow> fd < 2 ^ 31 \<Longrightarrow> addEvent ctl (Some sid) co running fd e f io = Ret (r, io') \<Longrightarrow>
    io_step ctl io io'"
| del: "e \<in> {READ, WRITE} \<Longrightarrow> delEvent ctl fd e io = Ret (b, io') \<Longrightarrow> io_step ctl io io'"
| cancel: "e \<in> {READ, WRITE} \<Longrightarrow> cancelEvent ctl fd e io = Ret (b, io') \<Longrightarrow> io_step ctl io io'"
| cancel_all: "cancelAll ctl fd io = Ret (b, io') \<Longrightarrow> io_step ctl io io'"
| report: "fresh_report io r \<Longrightarrow> idle_report ctl r io = Ret io' \<Longrightarrow> io_step ctl io io'"
| timeouts: "idle_timeouts now z io = Ret io' \<Longrightarrow> io_step ctl io io'"
| schedule: "io_step ctl io (io\<lparr>io_sched := s, io_timers := m, elsewhere := l\<rparr>)"

section \<open>The parts of an operation\<close>

lemma add_task_frame [simp]:
  "fdEventContexts (add_task sid t io) = fdEventContexts io" "pendingCountor (add_task sid t io) = pendingCountor io"
  "tickleFd (add_task sid t io) = tickleFd io" "epollFd (add_task sid t io) = epollFd io"
  "io_self (add_task sid t io) = io_self io"
  by (simp_all add: add_task_def)

lemma counts_frame:
  "fdEventContexts io' = fdEventContexts io \<Longrightarrow> pendingCountor io' = pendingCountor io \<Longrightarrow> counts_ok io' = counts_ok io"
  by (simp add: counts_ok_def registered_def events_of_def)

lemma sum_list_bits_update:
  "a < length evs \<Longrightarrow> sum_list (map bits (evs[a := ev])) + bits (evs ! a) = sum_list (map bits evs) + bits ev"
proof (induction evs arbitrary: a)
  case (Cons x evs)
  then show ?case by (cases a) auto
qed simp

lemma sum_list_bits_le: "sum_list (map bits evs) \<le> 2 * length evs"
proof (induction evs)
  case (Cons ev evs)
  then show ?case using bits_le [of ev] by simp
qed simp

lemma registered_bound: "counts_ok io \<Longrightarrow> registered io < 2 ^ 34"
  using sum_list_bits_le [of "events_of io"] by (simp add: registered_def events_of_def counts_ok_def)

lemma put_context_fields [simp]:
  "fd_events (put_context e x c) = fd_events c" "fd_fd (put_context e x c) = fd_fd c"
  "readContext (put_context e x c) = (if e = READ then x else readContext c)"
  "writeContext (put_context e x c) = (if e = READ then writeContext c else x)"
  by (simp_all add: put_context_def)

lemma READ_WRITE [simp]: "READ \<noteq> WRITE" "WRITE \<noteq> READ" "READ \<noteq> 0" "WRITE \<noteq> 0"
  by (simp_all add: epoll_bits)

text \<open>Releasing a registered event of a context, and registering one.\<close>

definition release :: "32 word \<Rightarrow> 'g fd_context \<Rightarrow> 'g fd_context" where
  "release e c = put_context e empty_context (c\<lparr>fd_events := fd_events c AND NOT e\<rparr>)"

lemma resetEventContext_empty [simp]: "resetEventContext x = empty_context"
  by (simp add: resetEventContext_def empty_context_def)

lemma release_ok:
  assumes "context_ok a c" "e \<in> {READ, WRITE}" "fd_events c AND e \<noteq> 0"
  shows "context_ok a (release e c)" "fd_events (release e c) = fd_events c AND NOT e"
proof -
  have v: "valid_events (fd_events c)" using assms(1) by (simp add: context_ok_def)
  note drop = bits_drop [OF v assms(2,3)]
  have r: "slot_ok (fd_events c AND READ \<noteq> 0) (readContext c)" "slot_ok (fd_events c AND WRITE \<noteq> 0) (writeContext c)"
    "fd_fd c = a" using assms(1) by (simp_all add: context_ok_def)
  consider "e = READ" | "e = WRITE" using assms(2) by blast
  then show "context_ok a (release e c)"
  proof cases
    case 1
    with r drop(1,3) drop(4) [of WRITE] show ?thesis
      by (simp add: release_def context_ok_def slot_ok_def)
  next
    case 2
    with r drop(1,3) drop(4) [of READ] show ?thesis
      by (simp add: release_def context_ok_def slot_ok_def)
  qed
qed (simp add: release_def)

lemma counts_update:
  assumes "counts_ok io" "a < length (fdEventContexts io)" "context_ok a c"
    and "unat p + bits (fd_events (fdEventContexts io ! a)) = unat (pendingCountor io) + bits (fd_events c)"
  shows "counts_ok (io\<lparr>fdEventContexts := (fdEventContexts io)[a := c], pendingCountor := p\<rparr>)"
  using assms sum_list_bits_update [of a "events_of io" "fd_events c"]
  by (auto simp: counts_ok_def nth_list_update registered_def events_of_def map_update)

lemma count_down_unat:
  "counts_ok io \<Longrightarrow> a < length (fdEventContexts io) \<Longrightarrow> fd_events (fdEventContexts io ! a) AND e \<noteq> 0 \<Longrightarrow>
    e \<in> {READ, WRITE} \<Longrightarrow> unat (pendingCountor io - 1) + 1 = unat (pendingCountor io)"
proof -
  assume c: "counts_ok io" and a: "a < length (fdEventContexts io)" "e \<in> {READ, WRITE}"
    "fd_events (fdEventContexts io ! a) AND e \<noteq> 0"
  have "bits (fd_events (fdEventContexts io ! a)) > 0"
    using bits_drop(2) [OF _ a(2,3)] c a(1) by (auto simp: counts_ok_def context_ok_def)
  then have "registered io > 0"
    using sum_list_bits_update [of a "events_of io" 0] a(1)
    by (auto simp: registered_def events_of_def bits_def)
  then have "pendingCountor io \<noteq> 0" using c by (auto simp: counts_ok_def)
  then show ?thesis by (simp add: unat_minus_one unat_gt_0)
qed

lemma trigger_run:
  assumes "counts_ok io" "a < length (fdEventContexts io)" "e \<in> {READ, WRITE}"
    and "fd_events (fdEventContexts io ! a) AND e \<noteq> 0"
  shows "\<exists>sid t. triggerEvent e a io =
    Ret (set_context a (release e (fdEventContexts io ! a)) (add_task sid t io)) \<and> valid_task t"
proof -
  let ?c = "fdEventContexts io ! a"
  have ok: "context_ok a ?c" using assms by (simp add: counts_ok_def)
  then obtain x sid where "getEventContext e ?c = Ret x" "ec_sch x = Some sid" "valid_task (context_task x)"
    using assms(3,4) by (auto simp: getEventContext_def context_ok_def slot_ok_def context_task_def valid_task_def)
  then show ?thesis using assms by (auto simp: triggerEvent_def arr_get_in release_def)
qed

lemma trigger_if_run:
  assumes "counts_ok io" "a < length (fdEventContexts io)" "e \<in> {READ, WRITE}" "b \<longrightarrow> has_event e a io"
  shows "\<exists>io'. trigger_if b e a io = Ret io' \<and> counts_ok io' \<and> epollFd io' = epollFd io \<and> tickleFd io' = tickleFd io
    \<and> length (fdEventContexts io') = length (fdEventContexts io)
    \<and> events_of io' = (if b then (events_of io)[a := events_of io ! a AND NOT e] else events_of io)"
proof (cases b)
  case True
  then have e: "fd_events (fdEventContexts io ! a) AND e \<noteq> 0" using assms by (simp add: has_event_def)
  have ok: "context_ok a (fdEventContexts io ! a)" using assms by (simp add: counts_ok_def)
  obtain sid t where tr: "triggerEvent e a io =
    Ret (set_context a (release e (fdEventContexts io ! a)) (add_task sid t io))"
    using trigger_run [OF assms(1-3) e] by blast
  define io' where "io' = count_down (set_context a (release e (fdEventContexts io ! a)) (add_task sid t io))"
  have "bits (fd_events (fdEventContexts io ! a)) = Suc (bits (fd_events (release e (fdEventContexts io ! a))))"
    using bits_drop(2) [OF _ assms(3) e] ok release_ok(2) [OF ok assms(3) e] by (simp add: context_ok_def)
  then have "counts_ok (io\<lparr>fdEventContexts := (fdEventContexts io)[a := release e (fdEventContexts io ! a)],
      pendingCountor := pendingCountor io - 1\<rparr>)"
    using counts_update [OF assms(1,2) release_ok(1) [OF ok assms(3) e], of "pendingCountor io - 1"]
      count_down_unat [OF assms(1,2) e assms(3)] by simp
  then have "counts_ok io'" by (rule counts_frame [THEN iffD1, rotated 2]) (simp_all add: io'_def count_down_def set_context_def)
  moreover have "events_of io' = (events_of io)[a := events_of io ! a AND NOT e]"
    using release_ok(2) [OF ok assms(3) e] assms(2)
    by (simp add: io'_def count_down_def set_context_def events_of_def map_update)
  ultimately show ?thesis using True tr
    by (intro exI [of _ io']) (simp add: trigger_if_def io'_def count_down_def set_context_def)
qed (use assms in \<open>simp add: trigger_if_def\<close>)

section \<open>The kernel's side\<close>

lemma kernel_step:
  assumes "epoll_laws ctl interest" "kernel_ok interest tick k evs" "a < length evs" "ctl op a m k = (ok, k')"
    and "(op, m) \<in> {(CTL_ADD, ev OR EPOLLET), (CTL_MOD, ev OR EPOLLET)} \<and> ev \<noteq> 0 \<and> (op = CTL_ADD) = (evs ! a = 0)
      \<or> op = CTL_DEL \<and> ev = 0 \<and> a \<noteq> tick"
  shows "kernel_ok interest tick k' (if ok then evs[a := ev] else evs)"
proof (cases ok)
  case True
  then have e: "epoll_effect op m (interest k a) = Some (interest k' a)"
    "\<And>x. x \<noteq> a \<Longrightarrow> interest k' x = interest k x"
    using assms(1,4) unfolding epoll_laws_def by fastforce+
  have i: "interest k x = kernel_view tick evs x" for x using assms(2) by (simp add: kernel_ok_def)
  have a: "a \<noteq> tick"
    using e(1) assms(2,3,5) by (auto simp: i kernel_view_def epoll_effect_def kernel_ok_def)
  have "interest k' x = kernel_view tick (evs[a := ev]) x" for x
  proof (cases "x = a")
    case True
    with e(1) assms(3,5) a show ?thesis
      by (auto simp: i kernel_view_def epoll_effect_def split: if_splits)
  next
    case False
    with e(2) show ?thesis by (simp add: i kernel_view_def)
  qed
  with True a assms(2) show ?thesis by (simp add: kernel_ok_def)
next
  case False
  then have "interest k' = interest k" using assms(1,4) unfolding epoll_laws_def by fastforce
  with False assms(2) show ?thesis by (simp add: kernel_ok_def)
qed

lemma tick_free: "kernel_ok interest tick k evs \<Longrightarrow> a < length evs \<Longrightarrow> evs ! a \<noteq> 0 \<Longrightarrow> a \<noteq> tick"
  by (auto simp: kernel_ok_def)

lemma kernel_drop:
  assumes "epoll_laws ctl interest" "kernel_ok interest tick k evs" "a < length evs" "a \<noteq> tick"
    and "evs ! a = 0 \<longrightarrow> ev = 0" "ctl (if ev \<noteq> 0 then CTL_MOD else CTL_DEL) a (ev OR EPOLLET) k = (ok, k')"
  shows "kernel_ok interest tick k' (if ok then evs[a := ev] else evs)"
  using assms(4,5) by (intro kernel_step [OF assms(1-3,6)]) auto

section \<open>Every step keeps the invariant\<close>

lemma events_frame [simp]:
  "events_of (with_kernel k io) = events_of io" "fdEventContexts (with_kernel k io) = fdEventContexts io"
  "epollFd (with_kernel k io) = k" "tickleFd (with_kernel k io) = tickleFd io"
  "counts_ok (with_kernel k io) = counts_ok io" "has_event e a (with_kernel k io) = has_event e a io"
  by (simp_all add: with_kernel_def events_of_def counts_ok_def registered_def has_event_def)

lemma events_of_nth [simp]: "a < length (fdEventContexts io) \<Longrightarrow> events_of io ! a = fd_events (fdEventContexts io ! a)"
  by (simp add: events_of_def)

lemma length_events_of [simp]: "length (events_of io) = length (fdEventContexts io)"
  by (simp add: events_of_def)

lemma find_context_Some: "find_context fd io = Some a \<longleftrightarrow> 0 \<le> fd \<and> a = nat fd \<and> a < length (fdEventContexts io)"
  by (auto simp: find_context_def)

text \<open>The shared part of \<open>delEvent\<close> and \<open>cancelEvent\<close>.\<close>

lemma drop_event_run:
  assumes "epoll_laws ctl interest" "io_ok interest io" "e \<in> {READ, WRITE}"
  obtains (same) k where "drop_event ctl fd e io = (None, with_kernel k io)" "io_ok interest (with_kernel k io)"
  | (drop) a k where "drop_event ctl fd e io = (Some (a, fdEventContexts io ! a), with_kernel k io)"
      "a = nat fd" "a < length (fdEventContexts io)" "has_event e a io"
      "kernel_ok interest (tickleFd io) k ((events_of io)[a := events_of io ! a AND NOT e])"
proof (cases "find_context fd io")
  case None
  moreover have "with_kernel (epollFd io) io = io" by (simp add: with_kernel_def)
  ultimately show thesis using assms(2) same [of "epollFd io"] by (simp add: drop_event_def)
next
  case (Some a)
  then have a: "a = nat fd" "a < length (fdEventContexts io)" by (simp_all add: find_context_Some)
  have K: "kernel_ok interest (tickleFd io) (epollFd io) (events_of io)" using assms(2) by (simp add: io_ok_def)
  show thesis
  proof (cases "has_event e a io")
    case False
    moreover have "with_kernel (epollFd io) io = io" by (simp add: with_kernel_def)
    ultimately show thesis using Some assms(2) same [of "epollFd io"]
      by (simp add: drop_event_def has_event_def Let_def)
  next
    case True
    let ?ev = "events_of io ! a AND NOT e"
    obtain ok k where k: "ctl (if ?ev \<noteq> 0 then CTL_MOD else CTL_DEL) a (?ev OR EPOLLET) (epollFd io) = (ok, k)"
      by fastforce
    have nz: "events_of io ! a \<noteq> 0" using True a by (auto simp: has_event_def)
    have tick: "a \<noteq> tickleFd io" using tick_free [OF K _ nz] a by simp
    have ko: "kernel_ok interest (tickleFd io) k (if ok then (events_of io)[a := ?ev] else events_of io)"
      using kernel_drop [OF assms(1) K _ tick _ k] a nz by simp
    have d: "drop_event ctl fd e io = (if ok then Some (a, fdEventContexts io ! a) else None, with_kernel k io)"
      using Some True a k by (simp add: drop_event_def has_event_def Let_def)
    show thesis
    proof (cases ok)
      case True
      with d ko a \<open>has_event e a io\<close> show thesis by (intro drop [of a k]) simp_all
    next
      case False
      with d ko assms(2) show thesis by (intro same [of k]) (simp_all add: io_ok_def)
    qed
  qed
qed

lemma cancelEvent_ok:
  assumes "epoll_laws ctl interest" "io_ok interest io" "e \<in> {READ, WRITE}"
  shows "\<exists>b io'. cancelEvent ctl fd e io = Ret (b, io') \<and> io_ok interest io'"
  using assms(1-3)
proof (cases rule: drop_event_run [where fd = fd])
  case (same k)
  then show ?thesis by (auto simp: cancelEvent_def)
next
  case (drop a k)
  have c: "counts_ok (with_kernel k io)" using assms(2) by (simp add: io_ok_def)
  from trigger_if_run [OF c _ assms(3), of a True] drop
  obtain io' where io': "trigger_if True e a (with_kernel k io) = Ret io'" "counts_ok io'" "epollFd io' = k"
    "tickleFd io' = tickleFd io" "events_of io' = (events_of io)[a := events_of io ! a AND NOT e]" by auto
  then have "cancelEvent ctl fd e io = Ret (True, io')"
    using drop(1) by (auto simp: cancelEvent_def trigger_if_def and_then_Ret)
  with io' drop show ?thesis by (auto simp: io_ok_def)
qed

lemma delEvent_ok:
  assumes "epoll_laws ctl interest" "io_ok interest io" "e \<in> {READ, WRITE}"
  shows "\<exists>b io'. delEvent ctl fd e io = Ret (b, io') \<and> io_ok interest io'"
  using assms(1-3)
proof (cases rule: drop_event_run [where fd = fd])
  case (same k)
  then show ?thesis by (auto simp: delEvent_def)
next
  case (drop a k)
  let ?io = "with_kernel k io"
  have c: "counts_ok ?io" using assms(2) by (simp add: io_ok_def)
  from trigger_if_run [OF c _ assms(3), of a True] drop
  obtain io1 where io1: "trigger_if True e a ?io = Ret io1" "counts_ok io1" "epollFd io1 = k"
    "tickleFd io1 = tickleFd io" "events_of io1 = (events_of io)[a := events_of io ! a AND NOT e]" by auto
  define io' where "io' = set_context a (release e (fdEventContexts io ! a)) (count_down ?io)"
  have "delEvent ctl fd e io = Ret (True, io')"
    using drop(1) assms(3) by (auto simp: delEvent_def getEventContext_def io'_def release_def)
  moreover obtain sid t where "triggerEvent e a ?io = Ret (set_context a (release e (fdEventContexts io ! a)) (add_task sid t ?io))"
    using trigger_run [OF c _ assms(3), of a] drop by (auto simp: has_event_def)
  with io1(1) have "fdEventContexts io1 = fdEventContexts io'" "pendingCountor io1 = pendingCountor io'"
    by (auto simp: trigger_if_def io'_def set_context_def count_down_def)
  then have "counts_ok io'" "events_of io' = events_of io1"
    using io1(2) counts_frame [of io1 io'] by (auto simp: events_of_def)
  ultimately show ?thesis using io1 drop
    by (simp add: io_ok_def) (simp add: io'_def set_context_def count_down_def)
qed

lemma kernel_tick:
  "kernel_ok interest tick k evs \<Longrightarrow> a < length evs \<Longrightarrow> a = tick \<Longrightarrow> evs ! a = 0"
  by (simp add: kernel_ok_def)

lemma drop_both: "valid_events ev \<Longrightarrow> t \<in> {0, READ, WRITE, READ OR WRITE} \<Longrightarrow>
    (let ev1 = (if READ AND t \<noteq> 0 then ev AND NOT READ else ev)
     in if WRITE AND t \<noteq> 0 then ev1 AND NOT WRITE else ev1) = ev AND NOT t"
  by (auto simp: valid_events_def epoll_bits)

text \<open>Two triggers in a row, as \<open>cancelAll\<close> and the idle coroutine make them.\<close>

lemma trigger_both:
  assumes "counts_ok io" "a < length (fdEventContexts io)"
    and "r \<longrightarrow> has_event READ a io" "w \<longrightarrow> has_event WRITE a io"
    and "ev = (let ev1 = (if r then events_of io ! a AND NOT READ else events_of io ! a)
                 in if w then ev1 AND NOT WRITE else ev1)"
  shows "\<exists>io1 io'. trigger_if r READ a io = Ret io1 \<and> has_event WRITE a io1 = has_event WRITE a io
    \<and> trigger_if w WRITE a io1 = Ret io' \<and> counts_ok io' \<and> epollFd io' = epollFd io
    \<and> tickleFd io' = tickleFd io \<and> events_of io' = (events_of io)[a := ev]"
proof -
  obtain io1 where io1: "trigger_if r READ a io = Ret io1" "counts_ok io1" "epollFd io1 = epollFd io"
    "tickleFd io1 = tickleFd io" "length (fdEventContexts io1) = length (fdEventContexts io)"
    "events_of io1 = (if r then (events_of io)[a := events_of io ! a AND NOT READ] else events_of io)"
    using trigger_if_run [OF assms(1,2) _ assms(3)] by auto
  have has: "has_event e a x \<longleftrightarrow> events_of x ! a AND e \<noteq> 0" if "a < length (fdEventContexts x)"
    for e and x :: "('a, 'b) ioman" using that by (simp add: has_event_def)
  have v: "valid_events (events_of io ! a)" using assms(1,2) by (auto simp: counts_ok_def context_ok_def)
  have r: "r \<Longrightarrow> events_of io ! a AND READ \<noteq> 0" using assms(2,3) has [of io] by blast
  have w: "has_event WRITE a io1 = has_event WRITE a io"
    using has [of io1] has [of io] io1(5,6) assms(2) bits_drop(4) [OF v _ r, of WRITE] by auto
  obtain io' where io': "trigger_if w WRITE a io1 = Ret io'" "counts_ok io'" "epollFd io' = epollFd io1"
    "tickleFd io' = tickleFd io1"
    "events_of io' = (if w then (events_of io1)[a := events_of io1 ! a AND NOT WRITE] else events_of io1)"
    using trigger_if_run [OF io1(2), of a WRITE w] w assms(2,4) io1(5) by auto
  have "events_of io' = (events_of io)[a := ev]"
    unfolding io'(5) io1(6) assms(5) using assms(2) list_update_id [of "events_of io" a] by (auto simp: Let_def)
  with io1(1,3,4) w io' show ?thesis by auto
qed

lemma cancelAll_ok:
  assumes "epoll_laws ctl interest" "io_ok interest io"
  shows "\<exists>b io'. cancelAll ctl fd io = Ret (b, io') \<and> io_ok interest io'"
proof (cases "find_context fd io")
  case None
  with assms(2) show ?thesis by (simp add: cancelAll_def)
next
  case (Some a)
  then have a: "a < length (fdEventContexts io)" by (simp add: find_context_Some)
  show ?thesis
  proof (cases "events_of io ! a = 0")
    case True
    with Some a assms(2) show ?thesis by (simp add: cancelAll_def)
  next
    case False
    obtain ok k where k: "ctl CTL_DEL a 0 (epollFd io) = (ok, k)" by fastforce
    have K: "kernel_ok interest (tickleFd io) (epollFd io) (events_of io)" using assms(2) by (simp add: io_ok_def)
    have ko: "kernel_ok interest (tickleFd io) k (if ok then (events_of io)[a := 0] else events_of io)"
      using tick_free [OF K _ False] a by (intro kernel_step [OF assms(1) K _ k]) auto
    show ?thesis
    proof (cases ok)
      case False
      with Some a k ko assms(2) \<open>events_of io ! a \<noteq> 0\<close> show ?thesis by (simp add: cancelAll_def io_ok_def)
    next
      case True
      let ?io = "with_kernel k io"
      have c: "counts_ok ?io" using assms(2) by (simp add: io_ok_def)
      have v: "valid_events (events_of io ! a)" using assms(2) a by (auto simp: io_ok_def counts_ok_def context_ok_def)
      have z: "0 = (let ev1 = (if has_event READ a ?io then events_of ?io ! a AND NOT READ else events_of ?io ! a)
                 in if has_event WRITE a ?io then ev1 AND NOT WRITE else ev1)"
        using v a by (auto simp: valid_events_def has_event_def epoll_bits)
      obtain io1 io' where io': "trigger_if (has_event READ a ?io) READ a ?io = Ret io1"
        "has_event WRITE a io1 = has_event WRITE a ?io" "trigger_if (has_event WRITE a ?io) WRITE a io1 = Ret io'"
        "counts_ok io'" "epollFd io' = k" "tickleFd io' = tickleFd io" "events_of io' = (events_of io)[a := 0]"
        using trigger_both [OF c _ _ _ z] a by auto
      then have "cancelAll ctl fd io = Ret (True, io')"
        using Some a k True \<open>events_of io ! a \<noteq> 0\<close> by (simp add: cancelAll_def)
      with io' ko True show ?thesis by (simp add: io_ok_def)
    qed
  qed
qed

lemma and_bits:
  "ev AND EPOLLIN = 0 \<longleftrightarrow> \<not> bit ev 0" "ev AND EPOLLOUT = 0 \<longleftrightarrow> \<not> bit ev 2"
  "EPOLLIN AND ev = 0 \<longleftrightarrow> \<not> bit ev 0" "EPOLLOUT AND ev = 0 \<longleftrightarrow> \<not> bit ev 2"
  using and_exp_eq_0_iff_not_bit [of ev 0] and_exp_eq_0_iff_not_bit [of ev 2]
  by (simp_all add: EPOLLIN_def EPOLLOUT_def and.commute [of _ ev])

lemma epoll_bit: "bit EPOLLIN 0" "bit EPOLLOUT 2" "\<not> bit EPOLLIN 2" "\<not> bit EPOLLOUT 0" "\<not> bit (0 :: 32 word) n"
  by (simp_all add: EPOLLIN_def EPOLLOUT_def)

lemma triggered_fresh:
  assumes "ev AND (EPOLLIN OR EPOLLOUT) AND NOT events = 0"
  shows "triggered_of events ev \<in> {0, READ, WRITE, READ OR WRITE}"
    "READ AND triggered_of events ev \<noteq> 0 \<Longrightarrow> events AND READ \<noteq> 0"
    "WRITE AND triggered_of events ev \<noteq> 0 \<Longrightarrow> events AND WRITE \<noteq> 0"
proof -
  show "triggered_of events ev \<in> {0, READ, WRITE, READ OR WRITE}"
    by (auto simp: triggered_of_def Let_def)
  have n: "bit ev n \<longrightarrow> bit events n" if "n \<in> {0, 2}" for n
  proof -
    have "\<not> bit (ev AND (EPOLLIN OR EPOLLOUT) AND NOT events) n" by (simp add: assms)
    with that show ?thesis
      by (auto simp: bit_and_iff bit_or_iff bit_not_iff epoll_bit)
  qed
  show "READ AND triggered_of events ev \<noteq> 0 \<Longrightarrow> events AND READ \<noteq> 0"
    "WRITE AND triggered_of events ev \<noteq> 0 \<Longrightarrow> events AND WRITE \<noteq> 0"
    using n [of 0] n [of 2]
    by (auto simp: triggered_of_def Let_def READ_def WRITE_def and_bits bit_or_iff bit_and_iff epoll_bit
        split: if_splits)
qed

lemma idle_report_ok:
  assumes "epoll_laws ctl interest" "io_ok interest io" "fresh_report io r"
  shows "\<exists>io'. idle_report ctl r io = Ret io' \<and> io_ok interest io'"
proof (cases r)
  case FromTickle
  with assms(2) show ?thesis by (simp add: idle_report_def)
next
  case (FromFd a m)
  define c t where "c = fdEventContexts io ! a" and "t = triggered_of (fd_events c) m"
  define ev where "ev = fd_events c AND NOT t"
  have a: "a < length (fdEventContexts io)" "a \<noteq> tickleFd io" using assms(3) FromFd by simp_all
  have t: "t \<in> {0, READ, WRITE, READ OR WRITE}" "READ AND t \<noteq> 0 \<longrightarrow> has_event READ a io"
    "WRITE AND t \<noteq> 0 \<longrightarrow> has_event WRITE a io"
    using triggered_fresh [of m "fd_events c"] assms(3) FromFd by (auto simp: t_def c_def has_event_def)
  have v: "valid_events (fd_events c)" "fd_fd c = a"
    using assms(2) a(1) by (auto simp: io_ok_def counts_ok_def context_ok_def c_def)
  have K: "kernel_ok interest (tickleFd io) (epollFd io) (events_of io)" using assms(2) by (simp add: io_ok_def)
  obtain ok k where k: "ctl (if ev \<noteq> 0 then CTL_MOD else CTL_DEL) a (ev OR EPOLLET) (epollFd io) = (ok, k)"
    by fastforce
  have ko: "kernel_ok interest (tickleFd io) k (if ok then (events_of io)[a := ev] else events_of io)"
    using a by (intro kernel_drop [OF assms(1) K _ a(2) _ k]) (simp_all add: ev_def c_def)
  let ?io = "with_kernel k io"
  have c: "counts_ok ?io" using assms(2) by (simp add: io_ok_def)
  have z: "ev = (let ev1 = (if READ AND t \<noteq> 0 then events_of ?io ! a AND NOT READ else events_of ?io ! a)
                 in if WRITE AND t \<noteq> 0 then ev1 AND NOT WRITE else ev1)"
  proof -
    have "events_of ?io ! a = fd_events c" using a(1) by (simp add: c_def)
    then show ?thesis unfolding ev_def by (simp only: drop_both [OF v(1) t(1)])
  qed
  obtain io1 io' where io': "trigger_if (READ AND t \<noteq> 0) READ a ?io = Ret io1"
    "trigger_if (WRITE AND t \<noteq> 0) WRITE a io1 = Ret io'"
    "counts_ok io'" "epollFd io' = k" "tickleFd io' = tickleFd io" "events_of io' = (events_of io)[a := ev]"
    using trigger_both [OF c _ _ _ z] a(1) t by auto
  have run: "idle_report ctl r io = (if skip_report (fd_events c) t then Ret io else if ok then Ret io' else Ret ?io)"
    using FromFd a(1) v(2) k io'(1,2)
    by (simp add: idle_report_def arr_get_in Let_def flip: c_def t_def ev_def)
  show ?thesis using run ko io'(3-6) assms(2) by (auto simp: io_ok_def)
qed

lemma expand_ok:
  assumes "io_ok interest io" "n < 2 ^ 32"
  shows "io_ok interest (M_expandContext n io)" "n \<le> length (fdEventContexts (M_expandContext n io))"
    "length (fdEventContexts io) \<le> length (fdEventContexts (M_expandContext n io))"
proof -
  let ?l = "length (fdEventContexts io)" and ?ys = "map new_context [length (fdEventContexts io)..<n]"
  have ev: "events_of (M_expandContext n io) = events_of io @ replicate (n - ?l) 0"
    by (simp add: M_expandContext_def events_of_def new_context_def comp_def map_replicate_const Let_def)
  have "bits 0 = 0" by (simp add: bits_def)
  then have r: "registered (M_expandContext n io) = registered io" by (simp add: registered_def ev sum_list_replicate)
  have c: "context_ok a (fdEventContexts (M_expandContext n io) ! a)"
    if "a < length (fdEventContexts (M_expandContext n io))" for a
    using that assms(1)
    by (auto simp: M_expandContext_def io_ok_def counts_ok_def nth_append context_ok_def new_context_def
        slot_ok_def valid_events_def Let_def split: if_splits)
  have "kernel_ok interest (tickleFd io) (epollFd io) (events_of (M_expandContext n io))"
    using assms(1) unfolding ev
    by (auto simp: kernel_ok_def io_ok_def kernel_view_def nth_append)
  then show "io_ok interest (M_expandContext n io)"
    using c r assms by (auto simp: io_ok_def counts_ok_def) (auto simp: M_expandContext_def Let_def)
  show "n \<le> length (fdEventContexts (M_expandContext n io))"
    "?l \<le> length (fdEventContexts (M_expandContext n io))"
    by (simp_all add: M_expandContext_def Let_def)
qed

lemma open_context_ok:
  assumes "io_ok interest io" "0 \<le> fd" "fd < 2 ^ 31"
  shows "\<exists>io'. open_context fd io = Ret (nat fd, io') \<and> io_ok interest io' \<and> nat fd < length (fdEventContexts io')"
proof (cases "nat fd < length (fdEventContexts io)")
  case True
  with assms show ?thesis by (simp add: open_context_def find_context_def)
next
  case False
  let ?n = "nat fd * 3 div 2"
  have "32 \<le> nat fd" using False assms(1) by (simp add: io_ok_def counts_ok_def)
  then have "nat fd < ?n" "?n < 2 ^ 32" using assms(3) by simp_all
  with False assms(1,2) expand_ok [of interest io ?n] show ?thesis
    by (auto simp: open_context_def find_context_def intro: less_le_trans)
qed

lemma register_ok:
  assumes "context_ok a c" "e \<in> {READ, WRITE}" "fd_events c AND e = 0" "getEventContext e c = Ret x"
  shows "context_ok a (put_context e (x\<lparr>ec_sch := Some sid, ec_func := Some g\<rparr>) (c\<lparr>fd_events := fd_events c OR e\<rparr>))"
    "context_ok a (put_context e (x\<lparr>ec_sch := Some sid, ec_co := Some co\<rparr>) (c\<lparr>fd_events := fd_events c OR e\<rparr>))"
proof -
  have v: "valid_events (fd_events c)" using assms(1) by (simp add: context_ok_def)
  note add = bits_add [OF v assms(2,3)]
  have x: "x = empty_context" "slot_ok (fd_events c AND READ \<noteq> 0) (readContext c)"
    "slot_ok (fd_events c AND WRITE \<noteq> 0) (writeContext c)" "fd_fd c = a"
    using assms by (auto simp: context_ok_def slot_ok_def getEventContext_def)
  consider "e = READ" | "e = WRITE" using assms(2) by blast
  then have "context_ok a (put_context e (x\<lparr>ec_sch := Some sid, ec_func := Some g\<rparr>) (c\<lparr>fd_events := fd_events c OR e\<rparr>))
    \<and> context_ok a (put_context e (x\<lparr>ec_sch := Some sid, ec_co := Some co\<rparr>) (c\<lparr>fd_events := fd_events c OR e\<rparr>))"
  proof cases
    case 1
    with x add(1,3) add(4) [of WRITE] show ?thesis by (simp add: context_ok_def slot_ok_def empty_context_def)
  next
    case 2
    with x add(1,3) add(4) [of READ] show ?thesis by (simp add: context_ok_def slot_ok_def empty_context_def)
  qed
  then show "context_ok a (put_context e (x\<lparr>ec_sch := Some sid, ec_func := Some g\<rparr>) (c\<lparr>fd_events := fd_events c OR e\<rparr>))"
    "context_ok a (put_context e (x\<lparr>ec_sch := Some sid, ec_co := Some co\<rparr>) (c\<lparr>fd_events := fd_events c OR e\<rparr>))"
    by blast+
qed

lemma addEvent_ok:
  assumes "epoll_laws ctl interest" "io_ok interest io" "e \<in> {READ, WRITE}" "0 \<le> fd" "fd < 2 ^ 31"
  shows "\<exists>r io'. addEvent ctl (Some sid) co running fd e f io = Ret (r, io') \<and> io_ok interest io'"
proof -
  define a where "a = nat fd"
  obtain jo where jo: "open_context fd io = Ret (a, jo)" "io_ok interest jo" "a < length (fdEventContexts jo)"
    using open_context_ok [OF assms(2,4,5)] by (auto simp: a_def)
  define c ev where "c = fdEventContexts jo ! a" and "ev = fd_events c OR e"
  have C: "counts_ok jo" and K: "kernel_ok interest (tickleFd jo) (epollFd jo) (events_of jo)"
    using jo(2) by (simp_all add: io_ok_def)
  have c: "context_ok a c" using C jo(3) by (simp add: counts_ok_def c_def)
  then have v: "valid_events (fd_events c)" by (simp add: context_ok_def)
  show ?thesis
  proof (cases "fd_events c AND e = 0")
    case False
    with jo show ?thesis by (simp add: addEvent_def arr_get_in flip: c_def)
  next
    case True
    note add = bits_add [OF v assms(3) True]
    have m: "fd_events c OR e OR EPOLLET = ev OR EPOLLET" by (simp add: ev_def or.assoc)
    obtain ok k where k: "ctl (if fd_events c \<noteq> 0 then CTL_MOD else CTL_ADD) a (ev OR EPOLLET) (epollFd jo) = (ok, k)"
      by fastforce
    have ko: "kernel_ok interest (tickleFd jo) k (if ok then (events_of jo)[a := ev] else events_of jo)"
      using jo(3) add(5) by (intro kernel_step [OF assms(1) K _ k]) (auto simp: c_def ev_def)
    obtain x where x: "getEventContext e (c\<lparr>fd_events := ev\<rparr>) = Ret x" "getEventContext e c = Ret x"
      using assms(3) by (auto simp: getEventContext_def)
    show ?thesis
    proof (cases ok)
      case False
      with jo True k ko C show ?thesis
        by (simp add: addEvent_def arr_get_in io_ok_def Let_def m flip: c_def ev_def split del: if_split)
    next
      case ok: True
      define y where "y = (case f of Some g \<Rightarrow> x\<lparr>ec_sch := Some sid, ec_func := Some g\<rparr>
          | None \<Rightarrow> x\<lparr>ec_sch := Some sid, ec_co := Some co\<rparr>)"
      define c' where "c' = put_context e y (c\<lparr>fd_events := ev\<rparr>)"
      define io' where "io' = (with_kernel k jo)\<lparr>pendingCountor := pendingCountor jo + 1,
          fdEventContexts := (fdEventContexts jo)[a := c']\<rparr>"
      have c': "context_ok a c'" "fd_events c' = ev"
        using register_ok [OF c assms(3) True x(2)] by (auto simp: c'_def y_def ev_def split: option.splits)
      have "unat (pendingCountor jo) < 2 ^ 34"
        using registered_bound [OF C] C by (simp add: counts_ok_def)
      then have "unat (pendingCountor jo + 1) = unat (pendingCountor jo) + 1"
        by (subst unat_add_lem [THEN iffD1]) simp_all
      then have "counts_ok (jo\<lparr>fdEventContexts := (fdEventContexts jo)[a := c'], pendingCountor := pendingCountor jo + 1\<rparr>)"
        using add(2) c' by (intro counts_update [OF C jo(3)]) (simp_all add: c_def ev_def)
      then have "counts_ok io'" by (rule counts_frame [THEN iffD1, rotated 2]) (simp_all add: io'_def)
      moreover have "events_of io' = (events_of jo)[a := ev]" using c'(2) by (simp add: io'_def events_of_def map_update)
      ultimately have "io_ok interest io'" using ko ok by (simp add: io_ok_def) (simp add: io'_def with_kernel_def)
      moreover have "\<exists>r. addEvent ctl (Some sid) co running fd e f io = Ret (r, io')"
        using jo True ok k x(1)
        by (cases f) (simp_all add: addEvent_def arr_get_in Let_def set_context_def with_kernel_def io'_def c'_def y_def m
            flip: c_def ev_def split del: if_split)
      ultimately show ?thesis by blast
    qed
  qed
qed

lemma io_ok_frame:
  "fdEventContexts io' = fdEventContexts io \<Longrightarrow> pendingCountor io' = pendingCountor io \<Longrightarrow>
    tickleFd io' = tickleFd io \<Longrightarrow> epollFd io' = epollFd io \<Longrightarrow> io_ok interest io' = io_ok interest io"
  by (simp add: io_ok_def counts_frame [of io' io] events_of_def)

lemma fold_add_task [simp]:
  "fdEventContexts (fold (\<lambda>cb. add_task sid (callback_task cb)) cbs io) = fdEventContexts io"
  "pendingCountor (fold (\<lambda>cb. add_task sid (callback_task cb)) cbs io) = pendingCountor io"
  "tickleFd (fold (\<lambda>cb. add_task sid (callback_task cb)) cbs io) = tickleFd io"
  "epollFd (fold (\<lambda>cb. add_task sid (callback_task cb)) cbs io) = epollFd io"
  by (induction cbs arbitrary: io) simp_all

lemma idle_timeouts_ok: "idle_timeouts now z io = Ret io' \<Longrightarrow> io_ok interest io' = io_ok interest io"
  by (intro io_ok_frame) (auto simp: idle_timeouts_def and_then_Ret)

lemma io_step_ok:
  assumes "epoll_laws ctl interest" "io_step ctl io io'" "io_ok interest io"
  shows "io_ok interest io'"
  using assms(2)
proof cases
  case (add e fd sid co running f r)
  have "0 \<le> fd" using add(3) by (auto simp: addEvent_def open_context_def find_context_def split: if_splits)
  from addEvent_ok [OF assms(1,3) add(1) this add(2), of sid co running f] add(3) show ?thesis by auto
next
  case (del e fd b)
  from delEvent_ok [OF assms(1,3) del(1), of fd] del(2) show ?thesis by auto
next
  case (cancel e fd b)
  from cancelEvent_ok [OF assms(1,3) cancel(1), of fd] cancel(2) show ?thesis by auto
next
  case (cancel_all fd b)
  from cancelAll_ok [OF assms(1,3), of fd] cancel_all show ?thesis by auto
next
  case (report r)
  from idle_report_ok [OF assms(1,3) report(1)] report(2) show ?thesis by auto
next
  case (timeouts now z)
  then show ?thesis using assms(3) by (simp only: idle_timeouts_ok)
next
  case (schedule s m l)
  have "io_ok interest io' = io_ok interest io" unfolding schedule by (rule io_ok_frame) simp_all
  with assms(3) show ?thesis by simp
qed

section \<open>Runs of the manager\<close>

text \<open>A new epoll instance holds nothing.\<close>

definition io_start :: "'k epoll \<Rightarrow> ('k \<Rightarrow> nat \<Rightarrow> 32 word option) \<Rightarrow> ('f, 'k) ioman \<Rightarrow> bool" where
  "io_start ctl interest io \<longleftrightarrow> (\<exists>k0 mem self tick existing tid tids now n w.
     (\<forall>fd. interest k0 fd = None)
     \<and> ioman_ctor ctl k0 mem True True self tick existing tid tids now n w = Ret io)"

lemma ctor_ok:
  assumes "epoll_laws ctl interest" "\<forall>fd. interest k0 fd = None"
    and "ioman_ctor ctl k0 mem True True self tick existing tid tids now n w = Ret io"
  shows "io_ok interest io"
proof -
  obtain ok k where k: "ctl CTL_ADD tick (EPOLLIN OR EPOLLET) k0 = (ok, k)" by fastforce
  have io: "ok" "fdEventContexts io = map new_context [0..<32]" "pendingCountor io = 0" "tickleFd io = tick" "epollFd io = k"
    using assms(3) k by (auto simp: ioman_ctor_def and_then_Ret M_expandContext_def Let_def split: if_splits)
  have ev: "events_of io = replicate 32 0"
    by (simp add: events_of_def io comp_def new_context_def map_replicate_const)
  have "interest k tick = Some (EPOLLIN OR EPOLLET)" "\<And>x. x \<noteq> tick \<Longrightarrow> interest k x = None"
    using assms(1,2) k io(1) unfolding epoll_laws_def by (fastforce simp: epoll_effect_def)+
  then have "kernel_ok interest tick k (events_of io)"
    by (auto simp: kernel_ok_def kernel_view_def ev)
  moreover have "counts_ok io"
    by (auto simp: counts_ok_def registered_def ev io(2,3) sum_list_replicate bits_def context_ok_def new_context_def
        slot_ok_def valid_events_def)
  ultimately show ?thesis by (simp add: io_ok_def io)
qed

interpretation io_runs: step_invariant "io_start ctl interest" "io_step ctl"
  "\<lambda>io. epoll_laws ctl interest \<longrightarrow> io_ok interest io" for ctl interest
  by unfold_locales (auto simp: io_start_def intro: ctor_ok io_step_ok)

lemma registered_zero:
  "counts_ok io \<Longrightarrow> registered io = 0 \<Longrightarrow> a < length (fdEventContexts io) \<Longrightarrow> fd_events (fdEventContexts io ! a) = 0"
proof (rule ccontr)
  assume io: "counts_ok io" "registered io = 0" "a < length (fdEventContexts io)" "fd_events (fdEventContexts io ! a) \<noteq> 0"
  then have "bits (events_of io ! a) > 0" by (intro bits_pos) (auto simp: counts_ok_def context_ok_def)
  moreover have "events_of io ! a \<in> set (events_of io)" using io(3) by (intro nth_mem) simp
  ultimately show False using io(2) by (auto simp: registered_def)
qed


text \<open>
  A kernel to try it on: the interest list is a function, and a call succeeds exactly where the
  manual allows it.
\<close>

type_synonym demo_kernel = "nat \<Rightarrow> 32 word option"

definition demo_ctl :: "demo_kernel epoll" where
  "demo_ctl op fd ev k = (case epoll_effect op ev (k fd) of None \<Rightarrow> (False, k) | Some x \<Rightarrow> (True, k(fd := x)))"

lemma demo_laws: "epoll_laws demo_ctl (\<lambda>k. k)"
  by (auto simp: epoll_laws_def demo_ctl_def split: option.splits)

definition demo_ioman :: "32 word \<Rightarrow> 64 word \<Rightarrow> ('f, demo_kernel) ioman" where
  "demo_ioman ev p = \<lparr>io_self = 0,
     io_sched = \<lparr>sc_tasks = [], sc_threads = 1, sc_threadIds = [8], sc_threadsNum = 1, sc_active = 0, sc_idle = 0,
       sc_mainCoroutine = False, sc_mainThreadId = - 1, sc_asWorker = False, sc_stopped = False\<rparr>,
     io_timers = timerManager (\<lambda>_. 0) 0,
     fdEventContexts = (map new_context [0..<32])[5 := \<lparr>readContext = empty_context,
       writeContext = (if ev = 0 then empty_context else \<lparr>ec_co = Some 1, ec_func = None, ec_sch = Some 0\<rparr>),
       fd_events = ev, fd_fd = 5\<rparr>],
     pendingCountor = p, tickleFd = 3,
     epollFd = (if ev = 0 then [3 \<mapsto> EPOLLIN OR EPOLLET] else [3 \<mapsto> EPOLLIN OR EPOLLET, 5 \<mapsto> ev OR EPOLLET]),
     elsewhere = []\<rparr>"

lemma demo_io_start: "io_start demo_ctl (\<lambda>k. k) (demo_ioman 0 0)"
proof -
  have "(map new_context [0..<32])[5 := \<lparr>readContext = empty_context, writeContext = empty_context,
      fd_events = 0, fd_fd = 5\<rparr>] = map new_context [0..<32]"
    by (rule list_update_same_conv [THEN iffD2]) (simp_all add: new_context_def)
  note same = this [symmetric]
  have "ioman_ctor demo_ctl Map.empty (\<lambda>_. 0) True True 0 3 False 0 [8] 0 1 False = Ret (demo_ioman 0 0)"
    by (simp add: ioman_ctor_def scheduler_ctor_def M_construct_not_as_worker_def demo_ctl_def epoll_effect_def
        M_expandContext_def sched_start_def demo_ioman_def) (rule same)
  then show ?thesis unfolding io_start_def
    by (intro exI conjI allI) (rule refl, assumption)
qed

lemma demo_io_add: "addEvent demo_ctl (Some 0) 1 True 5 WRITE None (demo_ioman 0 0) = Ret (0, demo_ioman WRITE 1)"
  by (simp add: addEvent_def open_context_def find_context_def demo_ioman_def arr_get_in demo_ctl_def epoll_effect_def
      getEventContext_def put_context_def set_context_def with_kernel_def empty_context_def)

lemma demo_io_run: "(io_step demo_ctl)\<^sup>*\<^sup>* (demo_ioman 0 0) (demo_ioman WRITE 1)"
  by (rule r_into_rtranclp, rule io_step.add [OF _ _ demo_io_add]) simp_all


text \<open>
  A report that is stale, here one of \<open>READ\<close> for a descriptor with only \<open>WRITE\<close>
  registered because another thread has already handled \<open>READ\<close>, passes the guard of the idle
  coroutine: no event is triggered and nothing changes in the contexts, but the pending
  counter goes down, and with one event registered it says that none is.
\<close>

lemma stale_report_miscounts:
  assumes "epoll_laws ctl interest" "io_start ctl interest io0" "(io_step ctl)\<^sup>*\<^sup>* io0 io"
    and "a < length (fdEventContexts io)" "fd_events (fdEventContexts io ! a) = WRITE"
    and "ctl CTL_MOD a (WRITE OR EPOLLET) (epollFd io) = (True, k)"
  shows "idle_report ctl (FromFd a EPOLLIN) io
      = Ret (io\<lparr>epollFd := k, pendingCountor := pendingCountor io - 1\<rparr>)
    \<and> (registered io = 1 \<longrightarrow> pendingCountor io - 1 = 0)"
proof -
  have ok: "io_ok interest io" using io_runs.reach_inv [OF assms(2,3)] assms(1) by blast
  then have fd: "fd_fd (fdEventContexts io ! a) = a" "unat (pendingCountor io) = registered io"
    using assms(4) by (auto simp: io_ok_def counts_ok_def context_ok_def)
  have t: "triggered_of WRITE EPOLLIN = READ" "\<not> skip_report WRITE READ" "WRITE AND NOT READ = WRITE"
    "READ AND READ \<noteq> 0" "WRITE AND READ = 0" "READ AND WRITE = 0"
    by (simp_all add: triggered_of_def skip_report_def epoll_bits)
  have "triggerEvent READ a (with_kernel k io) = Ret (with_kernel k io)"
    using assms(4,5) t(5) by (simp add: triggerEvent_def arr_get_in)
  then have "idle_report ctl (FromFd a EPOLLIN) io = Ret (count_down (with_kernel k io))"
    using assms(4-6) fd(1) t by (simp add: idle_report_def arr_get_in trigger_if_def)
  moreover have "pendingCountor io = 1" if "registered io = 1"
    using fd(2) that by (metis unat_1 word_unat_eq_iff)
  ultimately show ?thesis by (simp add: count_down_def with_kernel_def)
qed

lemma stale_report_miscounts_witness:
  "\<exists>io :: (string, demo_kernel) ioman. idle_report demo_ctl (FromFd 5 EPOLLIN) (demo_ioman WRITE 1) = Ret io
    \<and> pendingCountor io = 0 \<and> registered io = 1"
proof -
  let ?io = "demo_ioman WRITE 1 :: (string, demo_kernel) ioman"
  have k: "demo_ctl CTL_MOD 5 (WRITE OR EPOLLET) (epollFd ?io) = (True, (epollFd ?io)(5 \<mapsto> WRITE OR EPOLLET))"
    by (simp add: demo_ctl_def epoll_effect_def demo_ioman_def)
  have "io_ok (\<lambda>k. k) ?io" using io_runs.reach_inv [OF demo_io_start demo_io_run] demo_laws by blast
  then have "unat (pendingCountor ?io) = registered ?io" by (simp only: io_ok_def counts_ok_def)
  moreover have p: "pendingCountor ?io = 1" by (simp add: demo_ioman_def)
  ultimately have r: "registered ?io = 1" by simp
  have e: "5 < length (fdEventContexts ?io)" "fd_events (fdEventContexts ?io ! 5) = WRITE"
    by (simp_all add: demo_ioman_def)
  from stale_report_miscounts [OF demo_laws demo_io_start demo_io_run e k] r show ?thesis
    by (simp add: registered_def events_of_def demo_ioman_def)
qed

end
