(* ===== verification/SetSkipList.thy ===== *)
theory SetSkipList
  imports KvRuns
begin

text \<open>
  \<open>src/skipList/include/skipList.h\<close>: the skip list of values, \<open>skipList::skiplist\<close>. Its nodes,
  searching and linking loops are those of the key-value list, whose heap it is given with
  the value as the key and nothing stored under it; it differs in the level of an empty list,
  the random levels, and the length of the array of precursors.
\<close>

section \<open>Operations\<close>

type_synonym 'a set_list = "('a, unit) skiplist"

text \<open>The constructor of a node throws for level 0; its destructor frees the array.\<close>

definition set_node_ctor :: "nat \<Rightarrow> 'a \<Rightarrow> ('a, unit) sl_node option" where
  "set_node_ctor l x =
     (if 0 = l then None else Some \<lparr>nkey = x, nvalue = (), nlevel = l, forward = replicate l None\<rparr>)"

definition set_constructNode :: "nat \<Rightarrow> 'a \<Rightarrow> 'a set_list \<Rightarrow> (addr \<times> 'a set_list) option" where
  "set_constructNode l x sl = do {
     n \<leftarrow> set_node_ctor l x;
     Some (fresh sl, sl\<lparr>cells := (cells sl)(fresh sl \<mapsto> n), fresh := Suc (fresh sl)\<rparr>) }"

definition set_destroyNode :: "addr \<Rightarrow> 'a set_list \<Rightarrow> 'a set_list option" where
  "set_destroyNode p sl = do { n \<leftarrow> cells sl p; Some (sl\<lparr>cells := (cells sl)(p := None)\<rparr>) }"

definition skiplist_ctor :: "nat \<Rightarrow> 'a \<Rightarrow> (nat \<Rightarrow> bool) \<Rightarrow> 'a set_list option" where
  "skiplist_ctor maxl d c = do {
     let sl = \<lparr>cells = Map.empty, head = 0, level_now = 0, counter = 0, max_level = maxl,
               fresh = 0, coin = c, tossed = 0\<rparr>;
     (h, sl) \<leftarrow> set_constructNode maxl d sl;
     Some (sl\<lparr>head := h\<rparr>) }"

text \<open>\<open>r\<close> is what \<open>rand()\<close> returns.\<close>

definition set_randomLevel :: "nat \<Rightarrow> 'a set_list \<Rightarrow> nat" where
  "set_randomLevel r sl =
     1 + r mod (if max_level sl = level_now sl then level_now sl else level_now sl + 1)"

definition set_findPrecursor :: "'a::linorder set_list \<Rightarrow> 'a \<Rightarrow> pre_array \<Rightarrow> pre_array option" where
  "set_findPrecursor sl x pre = findPrecursors_loop sl x (max (level_now sl) 1 - 1) (head sl) pre"

definition set_insert :: "nat \<Rightarrow> 'a::linorder \<Rightarrow> 'a set_list \<Rightarrow> 'a set_list option" where
  "set_insert r x sl = do {
     pre \<leftarrow> set_findPrecursor sl x (replicate (max (level_now sl) 1) None);
     p \<leftarrow> pre_at pre 0;
     nx \<leftarrow> get_forward sl p 0;
     b \<leftarrow> no_match sl nx x;
     (if \<not> b then Some sl
      else do {
        let node_level = set_randomLevel r sl;
        pre \<leftarrow> (if node_level > level_now sl
                then raise_pre (head sl) (level_now sl) node_level pre else Some pre);
        let sl = (if node_level > level_now sl then sl\<lparr>level_now := node_level\<rparr> else sl);
        (isrt, sl) \<leftarrow> set_constructNode node_level x sl;
        sl \<leftarrow> link_levels pre isrt 0 node_level sl;
        Some (sl\<lparr>counter := Suc (counter sl)\<rparr>) }) }"

definition set_remove :: "'a::linorder \<Rightarrow> 'a set_list \<Rightarrow> 'a set_list option" where
  "set_remove x sl = do {
     pre \<leftarrow> set_findPrecursor sl x (replicate (max (level_now sl) 1) None);
     p \<leftarrow> pre_at pre 0;
     rm \<leftarrow> get_forward sl p 0;
     b \<leftarrow> no_match sl rm x;
     (if b then Some sl
      else do {
        r \<leftarrow> rm;
        sl \<leftarrow> unlink_levels pre r 0 (level_now sl) sl;
        let sl = sl\<lparr>counter := counter sl - 1\<rparr>;
        lvl \<leftarrow> shrink_level sl (level_now sl);
        set_destroyNode r (sl\<lparr>level_now := lvl\<rparr>) }) }"

text \<open>\<open>find\<close> starts at \<open>_M_level_now - 1\<close>, a \<open>size_t\<close>, which wraps for a list never filled.\<close>

definition set_find :: "'a::linorder \<Rightarrow> 'a set_list \<Rightarrow> bool option" where
  "set_find x sl = do {
     cur \<leftarrow> find_loop sl x ((level_now sl + (2 ^ 64 - 1)) mod 2 ^ 64) (head sl);
     nx \<leftarrow> get_forward sl cur 0;
     b \<leftarrow> no_match sl nx x;
     Some (\<not> b) }"

definition set_clear :: "'a set_list \<Rightarrow> 'a set_list option" where
  "set_clear sl = do {
     sl \<leftarrow> (if level_now sl > 1 then fill_null 1 (level_now sl) sl else Some sl);
     sl \<leftarrow> drain sl;
     Some (sl\<lparr>level_now := 0, counter := 0\<rparr>) }"

definition set_size :: "'a set_list \<Rightarrow> nat" where
  "set_size sl = counter sl"

definition set_dtor :: "'a set_list \<Rightarrow> 'a set_list option" where
  "set_dtor sl = do { sl \<leftarrow> set_clear sl; set_destroyNode (head sl) sl }"

text \<open>Nodes are made and destroyed as those of the key-value list.\<close>

lemma set_nodes: "set_constructNode l x = M_constructNode l x ()" "set_destroyNode = M_destroyNode"
  by (simp_all add: fun_eq_iff set_constructNode_def M_constructNode_def set_node_ctor_def node_ctor_def
      set_destroyNode_def M_destroyNode_def)

lemmas set_list_defs = skiplist_ctor_def [unfolded set_nodes] set_insert_def [unfolded set_nodes]
  set_remove_def [unfolded set_nodes] set_dtor_def [unfolded set_nodes]

section \<open>A list that was never filled\<close>

text \<open>The list as the constructor and \<open>clear\<close> leave it; seen as a key-value list, it is empty.\<close>

definition set_empty :: "'a::linorder set_list \<Rightarrow> bool" where
  "set_empty sl \<longleftrightarrow> level_now sl = 0 \<and> max_level sl < 2 ^ 64 \<and> repr (sl\<lparr>level_now := 1\<rparr>) []"

lemma set_emptyD:
  assumes "set_empty sl"
  shows "level_now sl = 0" "slots sl (head sl) (max_level sl)" "0 < max_level sl"
    "get_forward sl (head sl) 0 = Some None"
proof -
  have R: "repr (sl\<lparr>level_now := 1\<rparr>) []" and "level_now sl = 0" using assms by (simp_all add: set_empty_def)
  show "level_now sl = 0" by fact
  have "slots (sl\<lparr>level_now := 1\<rparr>) = slots sl" by (intro ext) (simp add: slots_def shape_def)
  then show s: "slots sl (head sl) (max_level sl)" and m: "0 < max_level sl"
    using repr_levels [OF R] by simp_all
  have "nxt (sl\<lparr>level_now := 1\<rparr>) 0 (head sl) = None" using repr_bottom [OF R] by simp
  then show "get_forward sl (head sl) 0 = Some None"
    using get_forward_slots [OF s m] by (simp add: nxt_def)
qed

lemma set_find_empty:
  assumes "set_empty sl"
  shows "set_find x sl = None"
proof -
  obtain m where m: "(2 :: nat) ^ 64 - 1 = Suc m" using not0_implies_Suc [of "2 ^ 64 - 1"] by auto
  have "max_level sl \<le> Suc m" using assms m by (simp add: set_empty_def)
  then have "get_forward sl (head sl) (Suc m) = None"
    using set_emptyD(2) [OF assms] by (auto simp: get_forward_def slots_def shape_def arr_get_def)
  then have "find_loop sl x (Suc m) (head sl) = None" by (simp add: advance.simps)
  moreover have "(level_now sl + (2 ^ 64 - 1)) mod 2 ^ 64 = Suc m" using set_emptyD(1) [OF assms] m by simp
  ultimately show ?thesis by (simp add: set_find_def)
qed

section \<open>The same operations as the key-value list\<close>

text \<open>The two lists toss different coins: \<open>with_coin\<close> replaces them.\<close>

definition with_coin :: "(nat \<Rightarrow> bool) \<Rightarrow> nat \<Rightarrow> ('k, 'v) skiplist \<Rightarrow> ('k, 'v) skiplist" where
  "with_coin c t sl = sl\<lparr>coin := c, tossed := t\<rparr>"

lemma with_coin_fields [simp]:
  "cells (with_coin c t sl) = cells sl" "head (with_coin c t sl) = head sl" "coin (with_coin c t sl) = c"
  "level_now (with_coin c t sl) = level_now sl" "max_level (with_coin c t sl) = max_level sl"
  "counter (with_coin c t sl) = counter sl" "fresh (with_coin c t sl) = fresh sl" "tossed (with_coin c t sl) = t"
  "with_coin c t (with_coin c' t' sl) = with_coin c t sl" "with_coin (coin sl) (tossed sl) sl = sl"
  "(with_coin c t sl)\<lparr>counter := n\<rparr> = with_coin c t (sl\<lparr>counter := n\<rparr>)"
  "(with_coin c t sl)\<lparr>level_now := n\<rparr> = with_coin c t (sl\<lparr>level_now := n\<rparr>)"
  by (simp_all add: with_coin_def)

lemma get_forward_coin [simp]: "get_forward (with_coin c t sl) = get_forward sl"
  by (intro ext) (simp add: get_forward_def)

lemma no_match_coin [simp]: "no_match (with_coin c t sl) = no_match sl"
  by (intro ext) (simp add: no_match_def split: option.split)

lemma set_forward_coin [simp]:
  "set_forward (with_coin c t sl) p l q = map_option (with_coin c t) (set_forward sl p l q)"
  by (auto simp: set_forward_def with_coin_def split: Option.bind_splits)

lemma M_constructNode_coin [simp]:
  "M_constructNode l k v (with_coin c t sl) = map_option (\<lambda>(a, s). (a, with_coin c t s)) (M_constructNode l k v sl)"
  by (auto simp: M_constructNode_def with_coin_def split: Option.bind_splits)

lemma M_randomLevel_coin: "M_randomLevel sl = (fst (M_randomLevel sl), with_coin (coin sl) (snd
    (M_randomLevel_loop (max_level sl) (coin sl) (tossed sl) 1)) sl)"
  by (simp add: M_randomLevel_def with_coin_def split_beta)

lemma link_levels_coin:
  "(\<And>j. j < lvl \<Longrightarrow> pre_at pre' j = pre_at pre j) \<Longrightarrow>
    link_levels pre' a l lvl (with_coin c t sl) = map_option (with_coin c t) (link_levels pre a l lvl sl)"
proof (induction pre a l lvl sl rule: link_levels.induct)
  case (1 pre a l lvl sl)
  show ?case
  proof (cases "l < lvl")
    case True
    then show ?thesis
      unfolding link_levels.simps [of pre' a l lvl "with_coin c t sl"] link_levels.simps [of pre a l lvl sl]
      using 1 by (auto simp: map_option_bind bind_map_option comp_def intro!: Option.bind_cong)
  next
    case False
    then show ?thesis by (simp add: link_levels.simps)
  qed
qed

lemma unlink_levels_pre:
  "(\<And>j. j < lvl \<Longrightarrow> pre_at pre' j = pre_at pre j) \<Longrightarrow> unlink_levels pre' r l lvl sl = unlink_levels pre r l lvl sl"
proof (induction pre r l lvl sl rule: unlink_levels.induct)
  case (1 pre r l lvl sl)
  show ?case
  proof (cases "l < lvl")
    case True
    then show ?thesis
      unfolding unlink_levels.simps [of pre' r l lvl sl] unlink_levels.simps [of pre r l lvl sl]
      using 1 by (auto intro!: Option.bind_cong)
  next
    case False
    then show ?thesis by (simp add: unlink_levels.simps)
  qed
qed

text \<open>The array of precursors is as long as the level; the key-value list's has a slot per level.\<close>

lemma precursor_arrays:
  assumes R: "repr sl xs"
  obtains pre pre' where "set_findPrecursor sl x (replicate (max (level_now sl) 1) None) = Some pre"
    "M_findPrecursors sl x (replicate (max_level sl) None) = Some pre'" "length pre = level_now sl"
    "\<And>j. j < level_now sl \<Longrightarrow> pre_at pre' j = pre_at pre j" "pre_at pre 0 = Some (precursor sl x xs 0)"
proof -
  have m: "max (level_now sl) 1 = level_now sl" using repr_levels(1) [OF R] by simp
  obtain pre where pre: "M_findPrecursors sl x (replicate (level_now sl) None) = Some pre" "length pre = level_now sl"
    "\<And>j. j < level_now sl \<Longrightarrow> pre_at pre j = Some (precursor sl x xs j)"
    using M_findPrecursors_array [OF R order_refl, of x] by blast
  obtain pre' where pre': "M_findPrecursors sl x (replicate (max_level sl) None) = Some pre'"
    "\<And>j. j < level_now sl \<Longrightarrow> pre_at pre' j = Some (precursor sl x xs j)"
    using M_findPrecursors_repr [OF R, of x] by blast
  show thesis using that [OF _ pre'(1) pre(2)] pre pre'(2) repr_levels(1) [OF R]
    by (simp add: m set_findPrecursor_def M_findPrecursors_def)
qed

lemma set_remove_kv:
  assumes R: "repr sl xs"
  shows "set_remove x sl = remove_kv x sl"
proof -
  obtain pre pre' where pre: "set_findPrecursor sl x (replicate (max (level_now sl) 1) None) = Some pre"
    "M_findPrecursors sl x (replicate (max_level sl) None) = Some pre'" "length pre = level_now sl"
    "\<And>j. j < level_now sl \<Longrightarrow> pre_at pre' j = pre_at pre j" "pre_at pre 0 = Some (precursor sl x xs 0)"
    using precursor_arrays [OF R, of x] by blast
  have "unlink_levels pre' r 0 (level_now sl) sl = unlink_levels pre r 0 (level_now sl) sl" for r
    by (rule unlink_levels_pre) (rule pre(4))
  moreover have "pre_at pre' 0 = Some (precursor sl x xs 0)"
    using pre(4) [of 0] pre(5) repr_levels(1) [OF R] by simp
  ultimately show ?thesis
    unfolding set_list_defs remove_kv_def pre(1,2) by (simp add: pre(5) cong: if_cong)
qed

lemma set_find_kv:
  assumes R: "repr sl xs" and m: "max_level sl < 2 ^ 64"
  shows "set_find x sl = map_option (\<lambda>p. p \<noteq> None) (find_kv sl x)"
proof -
  have "level_now sl + (2 ^ 64 - 1) = 2 ^ 64 + (level_now sl - 1)" "level_now sl - 1 < 2 ^ 64"
    using repr_levels [OF R] m by simp_all
  then have "(level_now sl + (2 ^ 64 - 1)) mod 2 ^ 64 = level_now sl - 1" by (simp only: mod_add_self1 mod_less)
  moreover have "no_match sl None x = Some True" by (simp add: no_match_def)
  then have "(if b then None else p) \<noteq> None \<longleftrightarrow> \<not> b" if "no_match sl p x = Some b" for b p
    using that by (cases p) auto
  ultimately show ?thesis
    by (auto simp: set_find_def find_kv_def map_option_bind comp_def intro!: Option.bind_cong)
qed

lemma no_match_abs:
  assumes R: "repr sl xs"
  shows "get_forward sl (precursor sl x xs 0) 0 = Some (first_of (from_key sl x xs))"
    "no_match sl (first_of (from_key sl x xs)) x = Some (abs_kv sl x = None)"
proof -
  show "get_forward sl (precursor sl x xs 0) 0 = Some (first_of (from_key sl x xs))"
    using bottom_next [OF R] by simp
  from R show "no_match sl (first_of (from_key sl x xs)) x = Some (abs_kv sl x = None)"
    by (cases rule: repr_cases [where k = x]) simp_all
qed

lemma set_insert_present:
  assumes R: "repr sl xs" and p: "abs_kv sl x \<noteq> None"
  shows "set_insert r x sl = Some sl" "insert_kv x () sl = Some (None, sl)"
proof -
  obtain pre pre' where pre: "set_findPrecursor sl x (replicate (max (level_now sl) 1) None) = Some pre"
    "M_findPrecursors sl x (replicate (max_level sl) None) = Some pre'" "pre_at pre' 0 = pre_at pre 0"
    "pre_at pre 0 = Some (precursor sl x xs 0)"
    using precursor_arrays [OF R, of x] repr_levels(1) [OF R] by (metis less_le_trans zero_less_one)
  show "set_insert r x sl = Some sl" unfolding set_list_defs pre(1)
    using p no_match_abs [OF R, of x] by (simp add: pre(4))
  show "insert_kv x () sl = Some (None, sl)" unfolding insert_kv_def pre(2)
    using p no_match_abs [OF R, of x] by (simp add: pre(3,4))
qed

text \<open>The code writes \<open>pre[_M_level_now]\<close>, one past the end of its array, to raise the level.\<close>

lemma set_insert_overflow:
  assumes R: "repr sl xs" and p: "abs_kv sl x = None" "level_now sl < set_randomLevel r sl"
  shows "set_insert r x sl = None"
proof -
  obtain pre where pre: "set_findPrecursor sl x (replicate (max (level_now sl) 1) None) = Some pre"
    "length pre = level_now sl" "pre_at pre 0 = Some (precursor sl x xs 0)"
    using precursor_arrays [OF R, of x] by blast
  have "raise_pre (head sl) (level_now sl) (set_randomLevel r sl) pre = None"
    using p(2) pre(2) by (subst raise_pre.simps) (simp add: arr_set_def)
  then show ?thesis unfolding set_list_defs pre(1)
    using p no_match_abs [OF R, of x] by (simp add: pre(3) Let_def)
qed

lemma set_insert_level:
  assumes R: "repr sl xs" and p: "abs_kv sl x = None" "set_randomLevel r sl \<le> level_now sl"
    and lvl: "fst (M_randomLevel sl) = set_randomLevel r sl"
  shows "set_insert r x sl = map_option (\<lambda>(p, t). with_coin (coin sl) (tossed sl) t) (insert_kv x () sl)"
proof -
  obtain pre pre' where pre: "set_findPrecursor sl x (replicate (max (level_now sl) 1) None) = Some pre"
    "M_findPrecursors sl x (replicate (max_level sl) None) = Some pre'"
    "\<And>j. j < level_now sl \<Longrightarrow> pre_at pre' j = pre_at pre j" "pre_at pre 0 = Some (precursor sl x xs 0)"
    using precursor_arrays [OF R, of x] by blast
  define L where "L = set_randomLevel r sl"
  obtain c t where rl: "M_randomLevel sl = (L, with_coin c t sl)"
    using M_randomLevel_coin [of sl] lvl unfolding L_def by metis
  have link: "link_levels pre' a 0 L (with_coin c t s) = map_option (with_coin c t) (link_levels pre a 0 L s)" for a s
    by (rule link_levels_coin) (use pre(3) p(2) in \<open>simp add: L_def\<close>)
  have p0: "pre_at pre' 0 = Some (precursor sl x xs 0)" using pre(3) [of 0] pre(4) repr_levels(1) [OF R] by simp
  obtain a s where node: "M_constructNode L x () sl = Some (a, s)" "coin s = coin sl" "tossed s = tossed sl" "level_now s = level_now sl"
    by (auto simp: M_constructNode_def node_ctor_def L_def set_randomLevel_def)
  have coin: "with_coin (coin sl) (tossed sl) (u\<lparr>counter := n\<rparr>) = u\<lparr>counter := n\<rparr>" if "link_levels pre a 0 L s = Some u" for u n
  proof -
    have "link_levels pre a 0 L (with_coin (coin sl) (tossed sl) s) = map_option (with_coin (coin sl) (tossed sl)) (Some u)"
      using that by (simp add: link_levels_coin)
    moreover have "with_coin (coin sl) (tossed sl) s = s" using node(2,3) by (metis with_coin_fields(10))
    ultimately have "with_coin (coin sl) (tossed sl) u = u" using that by simp
    then show ?thesis by (metis with_coin_fields(11))
  qed
  have L: "\<not> level_now sl < L" using p(2) by (simp add: L_def)
  have "set_insert r x sl = map_option (\<lambda>u. u\<lparr>counter := Suc (counter u)\<rparr>) (link_levels pre a 0 L s)"
    unfolding set_list_defs pre(1) using p(1) no_match_abs [OF R, of x] L node
    by (simp add: pre(4) Let_def flip: L_def) (simp add: map_option_case split: option.split)
  moreover have "M_insert pre' x () sl
      = map_option (\<lambda>u. (a, with_coin c t (u\<lparr>counter := Suc (counter u)\<rparr>))) (link_levels pre a 0 L s)"
    unfolding M_insert_def rl using L node by (simp add: Let_def link bind_map_option comp_def)
      (simp add: map_option_case split: option.split)
  then have "insert_kv x () sl
      = map_option (\<lambda>u. (Some a, with_coin c t (u\<lparr>counter := Suc (counter u)\<rparr>))) (link_levels pre a 0 L s)"
    unfolding insert_kv_def pre(2) using p(1) no_match_abs [OF R, of x]
    by (simp add: p0 bind_map_option comp_def) (simp add: map_option_case split: option.split)
  ultimately show ?thesis
    using coin by (cases "link_levels pre a 0 L s") auto
qed

section \<open>From the empty list\<close>

lemma repr_coin [simp]: "repr (with_coin c t sl) xs = repr sl xs"
proof -
  have "nxt (with_coin c t sl) = nxt sl" "shape (with_coin c t sl) = shape sl"
    by (intro ext, simp add: nxt_def shape_def cong: option.case_cong)+
  then have "slots (with_coin c t sl) = slots sl" "levof (with_coin c t sl) = levof sl" "keyof (with_coin c t sl) = keyof sl"
    by (intro ext, simp add: slots_def levof_def keyof_def)+
  then show ?thesis using \<open>nxt (with_coin c t sl) = nxt sl\<close>
    by (simp add: repr_def at_level_def)
qed

lemma abs_coin [simp]: "repr sl xs \<Longrightarrow> abs_kv (with_coin c t sl) = abs_kv sl"
proof -
  assume R: "repr sl xs"
  have "shape (with_coin c t sl) = shape sl" by (intro ext) (simp add: shape_def)
  then have "contents (with_coin c t sl) xs = contents sl xs" by (simp add: contents_def keyof_def valof_def)
  with R show ?thesis by (simp add: abs_repr [of _ xs])
qed

lemma advance_head: "get_forward sl p l = Some None \<Longrightarrow> advance sl x l p = Some p"
  by (simp add: advance.simps)

lemma get_forward_level [simp]: "get_forward (sl\<lparr>level_now := n\<rparr>) = get_forward sl"
  by (intro ext) (simp add: get_forward_def)

text \<open>The first insertion is the one of an empty key-value list whose coin says to stay on level one.\<close>

lemma set_insert_empty:
  assumes e: "set_empty sl"
  obtains t where "set_insert r x sl = Some t" "sl_inv t" "abs_kv t = [x \<mapsto> ()]" "max_level t = max_level sl"
proof -
  define kv where "kv = with_coin (\<lambda>i. False) 0 (sl\<lparr>level_now := 1\<rparr>)"
  note E = set_emptyD [OF e]
  have R: "repr kv []" using e by (simp add: kv_def set_empty_def)
  have f: "get_forward kv (head kv) 0 = Some None" using E(4) by (simp add: kv_def)
  have coin0: "M_randomLevel kv = (1, with_coin (\<lambda>i. False) 1 kv)"
    by (subst M_randomLevel_def) (simp add: kv_def M_randomLevel_loop.simps with_coin_def)
  have L: "set_randomLevel r sl = 1" using E(1,3) by (simp add: set_randomLevel_def)
  define s where "s = snd (the (M_constructNode 1 x () (sl\<lparr>level_now := 1\<rparr>)))"
  have node: "M_constructNode 1 x () (sl\<lparr>level_now := 1\<rparr>) = Some (fresh sl, s)" "level_now s = 1"
    by (simp_all add: s_def M_constructNode_def node_ctor_def)
  have pre: "arr_set [None] 0 (Some (head sl)) = Some [Some (head sl)]"
    "raise_pre (head sl) 0 1 [Some (head sl)] = Some [Some (head sl)]"
    by (simp_all add: arr_set_def raise_pre.simps)
  have "M_findPrecursors kv x (replicate (max_level kv) None) = Some ((replicate (max_level sl) None)[0 := Some (head sl)])"
    using E(3) f by (simp add: M_findPrecursors_def kv_def advance_head arr_set_def)
  moreover have "pre_at ((replicate (max_level sl) None)[0 := Some (head sl)]) 0 = Some (head sl)"
    using E(3) by (simp add: pre_at_def arr_get_def)
  moreover have "link_levels ((replicate (max_level sl) None)[0 := Some (head sl)]) a 0 1 (with_coin c t u)
      = map_option (with_coin c t) (link_levels [Some (head sl)] a 0 1 u)" for a c t and u :: "'a set_list"
    by (rule link_levels_coin) (use E(3) in \<open>simp add: pre_at_def arr_get_def\<close>)
  ultimately have kv: "insert_kv x () kv = map_option (\<lambda>u. (Some (fresh sl), with_coin (\<lambda>i. False) 1 (u\<lparr>counter := Suc (counter u)\<rparr>)))
      (link_levels [Some (head sl)] (fresh sl) 0 1 s)"
    using f node coin0 unfolding insert_kv_def M_insert_def
    by (simp add: kv_def no_match_def) (simp add: map_option_case split: option.split)
  have st: "set_insert r x sl = map_option (\<lambda>u. u\<lparr>counter := Suc (counter u)\<rparr>) (link_levels [Some (head sl)] (fresh sl) 0 1 s)"
    unfolding set_list_defs set_findPrecursor_def
    using E node pre L by (simp add: advance_head no_match_def pre_at_def arr_get_def Let_def)
      (simp add: map_option_case split: option.split)
  obtain q t ys where t: "insert_kv x () kv = Some (q, t)" "repr t ys" "max_level t = max_level kv" "abs_kv t = [x \<mapsto> ()]"
    by (rule insert_kv_repr [OF R, of x "()"]) (simp add: abs_repr [OF R] contents_def)
  then obtain u where u: "link_levels [Some (head sl)] (fresh sl) 0 1 s = Some u"
    "t = with_coin (\<lambda>i. False) 1 (u\<lparr>counter := Suc (counter u)\<rparr>)" using kv by auto
  let ?u = "u\<lparr>counter := Suc (counter u)\<rparr>"
  have ru: "repr ?u ys" using t(2) u(2) by simp
  have "abs_kv ?u = [x \<mapsto> ()]" using t(4) u(2) abs_coin [OF ru] by simp
  then show thesis using that [of ?u] st u t(3) ru by (auto simp: sl_inv_def kv_def)
qed

lemma emptied:
  assumes "repr t []" "level_now t = 1" "max_level t < 2 ^ 64"
  shows "set_empty (t\<lparr>level_now := 0\<rparr>)"
proof -
  have "t\<lparr>level_now := 0, level_now := 1\<rparr> = t" using assms(2) by simp
  then have "repr (t\<lparr>level_now := 0, level_now := 1\<rparr>) []" using assms(1) by (simp only:)
  then show ?thesis unfolding set_empty_def using assms(3) by simp
qed

lemma set_clear_kv:
  assumes R: "repr sl xs" and m: "max_level sl < 2 ^ 64"
  shows "\<exists>t. clear_kv sl = Some t \<and> set_clear sl = Some (t\<lparr>level_now := 0\<rparr>) \<and> set_empty (t\<lparr>level_now := 0\<rparr>)"
proof -
  obtain t where t: "clear_kv sl = Some t" "repr t []" "max_level t = max_level sl"
    using clear_kv_repr [OF R] by blast
  then have "level_now t = 1" "set_clear sl = Some (t\<lparr>level_now := 0\<rparr>)"
    by (auto simp: clear_kv_def set_clear_def bind_eq_Some_conv split: if_splits)
  then show ?thesis using emptied [OF t(2)] t(1,3) m by simp
qed

text \<open>The destructor frees every cell, with the arrays lost as in the key-value list.\<close>

lemma set_dtor_kv:
  assumes "sl_inv sl" "max_level sl < 2 ^ 64"
  shows "set_dtor sl = map_option (\<lambda>t. t\<lparr>level_now := 0\<rparr>) (kv_dtor sl)"
proof -
  obtain xs where "repr sl xs" using assms(1) by (auto simp: sl_inv_def)
  from set_clear_kv [OF this assms(2)] obtain t where "clear_kv sl = Some t" "set_clear sl = Some (t\<lparr>level_now := 0\<rparr>)"
    by blast
  then show ?thesis by (cases "cells t (head t)") (simp_all add: set_list_defs kv_dtor_def M_destroyNode_def)
qed

lemma skiplist_ctor_empty:
  assumes "0 < maxl" "maxl < 2 ^ 64"
  shows "\<exists>sl. skiplist_ctor maxl d c = Some sl \<and> set_empty sl"
proof -
  obtain t where t: "kvskiplist maxl d () c = Some t" "repr t []" "max_level t = maxl"
    by (rule kvskiplist_repr [OF assms(1), of d "()" c])
  let ?n = "\<lparr>nkey = d, nvalue = (), nlevel = maxl, forward = replicate maxl None\<rparr>"
  let ?k = "\<lparr>cells = Map.empty(0 \<mapsto> ?n), head = 0, level_now = 1, counter = 0, max_level = maxl,
              fresh = Suc 0, coin = c, tossed = 0\<rparr>"
  have "kvskiplist maxl d () c = Some ?k"
    using assms(1) by (simp add: kvskiplist_def M_constructNode_def node_ctor_def)
  with t(1) have k: "t = ?k" by (simp only: option.inject)
  have "skiplist_ctor maxl d c = Some (t\<lparr>level_now := 0\<rparr>)"
    unfolding k using assms(1) by (simp add: set_list_defs M_constructNode_def node_ctor_def)
  moreover have "level_now t = 1" unfolding k by simp
  ultimately show ?thesis using emptied [OF t(2)] t(3) assms(2) by simp
qed

text \<open>
  C25. On a list that holds something, the skip list of values does what the key-value list
  does: \<open>find\<close> and \<open>remove\<close> agree, and \<open>insert\<close> agrees whenever both choose the same level.
  But an \<open>insert\<close> of a new value that chooses a level above the current one writes past the end
  of its array; and after \<open>clear\<close>, which agrees too, \<open>find\<close> reads out of bounds until a value
  is inserted.
\<close>
theorem set_list_matches_kv:
  assumes "sl_inv sl" "max_level sl < 2 ^ 64"
  shows "set_find x sl = map_option (\<lambda>p. p \<noteq> None) (find_kv sl x)
    \<and> set_remove x sl = remove_kv x sl
    \<and> (set_randomLevel r sl = fst (M_randomLevel sl) \<and> set_randomLevel r sl \<le> level_now sl \<longrightarrow>
        set_insert r x sl = map_option (\<lambda>(p, t). with_coin (coin sl) (tossed sl) t) (insert_kv x () sl))
    \<and> (set_randomLevel r sl > level_now sl \<longrightarrow>
        set_insert r x sl = (if abs_kv sl x = None then None else Some sl))
    \<and> (\<exists>t u. clear_kv sl = Some t \<and> set_clear sl = Some (t\<lparr>level_now := 0\<rparr>)
        \<and> set_find x (t\<lparr>level_now := 0\<rparr>) = None
        \<and> set_insert r x (t\<lparr>level_now := 0\<rparr>) = Some u \<and> sl_inv u \<and> abs_kv u = [x \<mapsto> ()])"
proof -
  obtain xs where R: "repr sl xs" using assms(1) by (auto simp: sl_inv_def)
  obtain t where t: "clear_kv sl = Some t" "set_clear sl = Some (t\<lparr>level_now := 0\<rparr>)" "set_empty (t\<lparr>level_now := 0\<rparr>)"
    using set_clear_kv [OF R assms(2)] by blast
  have "set_insert r x sl = map_option (\<lambda>(p, t). with_coin (coin sl) (tossed sl) t) (insert_kv x () sl)"
    if "set_randomLevel r sl = fst (M_randomLevel sl)" "set_randomLevel r sl \<le> level_now sl"
    using set_insert_level [OF R _ that(2)] set_insert_present(1) [OF R, of x r] set_insert_present(2) [OF R, of x] that(1)
    by (cases "abs_kv sl x = None") simp_all
  moreover have "set_insert r x sl = (if abs_kv sl x = None then None else Some sl)"
    if "set_randomLevel r sl > level_now sl"
    using set_insert_overflow [OF R _ that] set_insert_present(1) [OF R, of x r] by simp
  moreover obtain u where "set_insert r x (t\<lparr>level_now := 0\<rparr>) = Some u" "sl_inv u" "abs_kv u = [x \<mapsto> ()]"
    by (rule set_insert_empty [OF t(3), where r = r and x = x])
  ultimately show ?thesis
    using set_find_kv [OF R assms(2)] set_remove_kv [OF R] set_find_empty [OF t(3)] t by blast
qed

theorem set_list_matches_kv_witness:
  "\<exists>sl :: int set_list. abs_kv sl = [3 \<mapsto> ()] \<and> set_remove 3 sl = remove_kv 3 sl
    \<and> set_find 3 sl = map_option (\<lambda>p. p \<noteq> None) (find_kv sl 3)"
proof -
  obtain a :: "int set_list" where a: "skiplist_ctor 4 0 (\<lambda>n. False) = Some a" "set_empty a"
    using skiplist_ctor_empty [of 4 0 "\<lambda>n. False"] by auto
  obtain b :: "int set_list" where b: "sl_inv b" "abs_kv b = [3 \<mapsto> ()]" "max_level b = max_level a"
    by (rule set_insert_empty [OF a(2), where r = 0 and x = 3])
  have "max_level b < 2 ^ 64" using a(2) b(3) by (simp add: set_empty_def)
  from set_list_matches_kv [OF b(1) this, of 3 0] b(2) show ?thesis by blast
qed

end
