(* ===== verification/Rpc.thy ===== *)
theory Rpc
  imports Archive Config Utils "HOL-Library.Word"
begin

text \<open>
  \<open>src/rpc\<close>: the client's channel (\<open>mprpcChannel.cpp\<close>), the controller and the provider
  (\<open>rpcProvider.cpp\<close>). Protobuf is not part of the repository: the encoders and parsers of
  the header, the arguments and the response, and the varint of the coded streams, are
  arguments. The network answers through lists of what each call returned.
\<close>

section \<open>Messages\<close>

record rpc_header =
  service_name :: string
  method_name :: string
  args_size :: "32 word"

text \<open>A message may be written as the empty string, unlike an archive.\<close>

definition parses :: "('a \<Rightarrow> string) \<Rightarrow> (string \<Rightarrow> 'a option) \<Rightarrow> bool" where
  "parses enc dec \<longleftrightarrow> (\<forall>x. dec (enc x) = Some x)"

text \<open>The bytes of a request: the header's length, the header, the arguments.\<close>

definition request_header :: "string \<Rightarrow> string \<Rightarrow> string \<Rightarrow> rpc_header" where
  "request_header sname mname args =
     \<lparr>service_name = sname, method_name = mname, args_size = of_nat (length args)\<rparr>"

definition request_bytes ::
  "(32 word \<Rightarrow> string) \<Rightarrow> (rpc_header \<Rightarrow> string) \<Rightarrow> string \<Rightarrow> string \<Rightarrow> string \<Rightarrow> string" where
  "request_bytes wv henc sname mname args =
     (let h = henc (request_header sname mname args) in wv (of_nat (length h)) @ h @ args)"

section \<open>The controller\<close>

datatype rpc_error = NoConnection int | NoArguments | NoHeader | NoAnswer int | BadAnswer

record controller =
  ct_failed :: bool
  ct_message :: "rpc_error option"

definition mprpcController :: controller where
  "mprpcController = \<lparr>ct_failed = False, ct_message = None\<rparr>"

definition ctrl_Reset :: "controller \<Rightarrow> controller" where
  "ctrl_Reset c = c\<lparr>ct_failed := False, ct_message := None\<rparr>"

definition SetFailed :: "rpc_error \<Rightarrow> controller \<Rightarrow> controller" where
  "SetFailed e c = c\<lparr>ct_failed := True, ct_message := Some e\<rparr>"

section \<open>The channel\<close>

text \<open>What \<open>socket\<close> and \<open>connect\<close> answered, with the error or the descriptor.\<close>

datatype connect_answer = NoSocket int | Refused int | Connected int

type_synonym channel = int

definition ch_close :: "channel \<Rightarrow> channel" where
  "ch_close fd = - 1"

definition ch_connect :: "connect_answer \<Rightarrow> channel \<Rightarrow> int \<times> channel" where
  "ch_connect a fd =
     (case a of NoSocket en \<Rightarrow> (en, - 1) | Refused en \<Rightarrow> (en, ch_close fd) | Connected c \<Rightarrow> (0, c))"

fun connect_loop :: "nat \<Rightarrow> connect_answer list \<Rightarrow> channel \<Rightarrow> channel option" where
  "connect_loop n [] fd = None"
| "connect_loop n (a # as) fd =
     (let (res, fd) = ch_connect a fd in
      if res \<noteq> 0 \<and> n > 0 then connect_loop (n - 1) as fd else Some fd)"

definition mprpcChannel :: "bool \<Rightarrow> connect_answer list \<Rightarrow> channel option" where
  "mprpcChannel connectNow as = (if \<not> connectNow then Some (- 1) else connect_loop 3 as (- 1))"

text \<open>
  Sending: a \<open>send\<close> that fails is repeated on a new connection; what it returns otherwise is
  not looked at. The first component is the error of the connection that ended the loop.
\<close>

datatype send_answer = Sent | SendFails connect_answer

fun send_loop :: "send_answer list \<Rightarrow> channel \<Rightarrow> (int option \<times> channel) option" where
  "send_loop [] fd = None"
| "send_loop (Sent # as) fd = Some (None, fd)"
| "send_loop (SendFails a # as) fd =
     (let (res, fd) = ch_connect a (ch_close fd) in
      if res \<noteq> 0 then Some (Some res, fd) else send_loop as fd)"

text \<open>\<open>Waiting s\<close>: \<open>recv\<close> finds the bytes \<open>s\<close>, none when the peer has closed the connection.\<close>

datatype recv_answer = RecvFails int | Waiting string

definition recv_bytes :: "recv_answer \<Rightarrow> int + string" where
  "recv_bytes a = (case a of RecvFails en \<Rightarrow> Inl en | Waiting s \<Rightarrow> Inr (take 1024 s))"

text \<open>The result carries the bytes sent, the response parsed, the controller and the channel.\<close>

record 'p call_result =
  cr_sent :: "string option"
  cr_response :: "'p option"
  cr_ctrl :: controller
  cr_fd :: channel

definition CallMethod ::
  "(32 word \<Rightarrow> string) \<Rightarrow> (rpc_header \<Rightarrow> string option) \<Rightarrow> (string \<Rightarrow> 'p option) \<Rightarrow> string \<Rightarrow> string
    \<Rightarrow> string option \<Rightarrow> connect_answer \<Rightarrow> send_answer list \<Rightarrow> recv_answer \<Rightarrow> controller \<Rightarrow> channel
    \<Rightarrow> 'p call_result option" where
  "CallMethod wv hser pdec sname mname args conn sends ans ctrl fd =
     (let (res, fd) = (if fd = - 1 then ch_connect conn fd else (0, fd));
          failed = (\<lambda>sent e fd. \<lparr>cr_sent = sent, cr_response = None, cr_ctrl = SetFailed e ctrl, cr_fd = fd\<rparr>)
      in if res \<noteq> 0 then Some (failed None (NoConnection res) fd)
         else case args of
           None \<Rightarrow> Some (failed None NoArguments fd)
         | Some args_str \<Rightarrow> (case hser (request_header sname mname args_str) of
             None \<Rightarrow> Some (failed None NoHeader fd)
           | Some h \<Rightarrow> do {
               let request = wv (of_nat (length h)) @ h @ args_str;
               (e, fd) \<leftarrow> send_loop sends fd;
               (case e of
                  Some res \<Rightarrow> Some (failed None (NoConnection res) fd)
                | None \<Rightarrow> (case recv_bytes ans of
                    Inl en \<Rightarrow> Some (failed (Some request) (NoAnswer en) (ch_close fd))
                  | Inr buf \<Rightarrow> (case pdec buf of
                      None \<Rightarrow> Some (failed (Some request) BadAnswer fd)
                    | Some p \<Rightarrow> Some \<lparr>cr_sent = Some request, cr_response = Some p, cr_ctrl = ctrl,
                        cr_fd = fd\<rparr>))) }))"

section \<open>The provider\<close>

record ('s, 'm) service_info =
  si_service :: 's
  si_methods :: "string \<Rightarrow> 'm option"

type_synonym ('s, 'm) services = "string \<Rightarrow> ('s, 'm) service_info option"

definition notifyService ::
  "'s \<Rightarrow> string \<Rightarrow> (string \<times> 'm) list \<Rightarrow> ('s, 'm) services \<Rightarrow> ('s, 'm) services" where
  "notifyService service sname methods ss =
     insert_new sname \<lparr>si_service = service,
       si_methods = fold (\<lambda>(n, md). insert_new n md) methods Map.empty\<rparr> ss"

text \<open>
  \<open>ReadString\<close> takes its size as an \<open>int\<close> and refuses a negative one; \<open>junk\<close> is what a failed
  one leaves in the string.
\<close>

definition read_string :: "string \<Rightarrow> 32 word \<Rightarrow> string \<Rightarrow> bool \<times> string \<times> string" where
  "read_string junk n s =
     (if 2 ^ 31 \<le> n then (False, junk, s)
      else if unat n \<le> length s then (True, take (unat n) s, drop (unat n) s)
      else (False, junk, []))"

text \<open>
  \<open>_M_onMessage\<close> up to the call of the service: \<open>Ret None\<close> when the message is dropped. The
  result of reading the header's length and the header is not looked at: without a varint the
  length is never set.
\<close>

definition M_onMessage ::
  "(string \<Rightarrow> (32 word \<times> string) option) \<Rightarrow> (string \<Rightarrow> rpc_header option) \<Rightarrow> ('m \<Rightarrow> string \<Rightarrow> 'q option)
    \<Rightarrow> string \<Rightarrow> ('s, 'm) services \<Rightarrow> string \<Rightarrow> ('s \<times> 'm \<times> 'q) option outcome" where
  "M_onMessage rv hdec qdec junk ss recvBuf = and_then (of_opt (rv recvBuf)) (\<lambda>(header_size, rest).
     let (ok, header_str, rest) = read_string junk header_size rest in
     Ret (do {
       h \<leftarrow> hdec header_str;
       let (ok, args, rest) = read_string junk (args_size h) rest;
       _ \<leftarrow> (if ok then Some () else None);
       info \<leftarrow> ss (service_name h);
       m \<leftarrow> si_methods info (method_name h);
       q \<leftarrow> qdec m args;
       Some (si_service info, m, q) }))"

text \<open>\<open>_M_senRPCResponse\<close>: what is sent back, if anything.\<close>

definition M_senRPCResponse :: "('p \<Rightarrow> string option) \<Rightarrow> 'p \<Rightarrow> string option" where
  "M_senRPCResponse pser resp = pser resp"

text \<open>
  \<open>run\<close> up to the start of the server: the address and port it listens on. \<open>addrs\<close> are the host's
  addresses, \<open>None\<close> when \<open>gethostbyname\<close> fails; the last one stays in \<open>addr\<close>, which is never
  set when there is none. Leaving the process is written as an exception.
\<close>

definition rpcProvider_run :: "string list option \<Rightarrow> (16 word \<Rightarrow> bool) \<Rightarrow> 16 word \<Rightarrow> (string \<times> 16 word) outcome" where
  "rpcProvider_run addrs avail port = and_then (of_opt addrs) (\<lambda>as.
     let (found, port) = findAvailablePort avail port in
     if \<not> found then Throw ''exit'' else if as = [] then Undef else Ret (last as, port))"

text \<open>\<open>_M_onConnection\<close>: whether it shuts the connection down.\<close>

definition M_onConnection :: "bool \<Rightarrow> bool" where
  "M_onConnection connected = (\<not> connected)"

section \<open>A call and its answer\<close>

lemma short_length:
  assumes "length s < 2 ^ 31"
  shows "unat (of_nat (length s) :: 32 word) = length s" "\<not> 2 ^ 31 \<le> (of_nat (length s) :: 32 word)"
proof -
  show u: "unat (of_nat (length s) :: 32 word) = length s"
    using assms by (simp add: unat_of_nat take_bit_nat_eq_self)
  have "unat ((2 :: 32 word) ^ 31) = 2 ^ 31" by simp
  with assms u show "\<not> 2 ^ 31 \<le> (of_nat (length s) :: 32 word)" by (simp add: word_le_nat_alt)
qed

lemma read_string_exact:
  "length x < 2 ^ 31 \<Longrightarrow> read_string junk (of_nat (length x)) (x @ r) = (True, x, r)"
  using short_length [of x] by (simp add: read_string_def)

lemma read_string_cut:
  "length x < 2 ^ 31 \<Longrightarrow> n < length x \<Longrightarrow> fst (read_string junk (of_nat (length x)) (take n x)) = False"
  using short_length [of x] by (simp add: read_string_def)

lemma onMessage_request:
  assumes "prefix_codec wv rv" "parses henc hdec"
    and "length (henc (request_header sname mname args)) < 2 ^ 31" "length args < 2 ^ 31"
    and "ss sname = Some info" "si_methods info mname = Some m"
  shows "M_onMessage rv hdec qdec junk ss (request_bytes wv henc sname mname args @ rest)
    = Ret (map_option (\<lambda>q. (si_service info, m, q)) (qdec m args))"
proof -
  let ?h = "request_header sname mname args"
  have h: "args_size ?h = of_nat (length args)" "service_name ?h = sname" "method_name ?h = mname"
    by (simp_all add: request_header_def)
  show ?thesis using assms h
    by (simp add: M_onMessage_def request_bytes_def Let_def prefix_codecD parses_def
        read_string_exact) (simp add: map_option_case split: option.split)
qed

text \<open>A buffer that ends within the arguments is dropped.\<close>

lemma onMessage_cut:
  assumes "prefix_codec wv rv" "parses henc hdec"
    and "length (henc (request_header sname mname args)) < 2 ^ 31" "length args < 2 ^ 31" "n < length args"
  shows "M_onMessage rv hdec qdec junk ss
      (take (length (request_bytes wv henc sname mname args) - (length args - n)) (request_bytes wv henc sname mname args))
    = Ret None"
proof -
  let ?h = "request_header sname mname args"
  have "args_size ?h = of_nat (length args)" by (simp add: request_header_def)
  then have "M_onMessage rv hdec qdec junk ss (wv (of_nat (length (henc ?h))) @ henc ?h @ take n args) = Ret None"
    using assms read_string_cut [OF assms(4,5), of junk]
    by (simp add: M_onMessage_def Let_def prefix_codecD parses_def read_string_exact case_prod_beta)
  then show ?thesis using assms(5) by (simp add: request_bytes_def Let_def)
qed

lemma CallMethod_answered:
  "fd \<noteq> - 1 \<Longrightarrow> CallMethod wv (\<lambda>h. Some (henc h)) pdec sname mname (Some args) conn (Sent # sends) (Waiting s) ctrl fd
    = Some \<lparr>cr_sent = Some (request_bytes wv henc sname mname args), cr_response = pdec (take 1024 s),
        cr_ctrl = (if pdec (take 1024 s) = None then SetFailed BadAnswer ctrl else ctrl), cr_fd = fd\<rparr>"
  by (simp add: CallMethod_def request_bytes_def recv_bytes_def Let_def split: option.split)

text \<open>
  C28. A call whose request arrives in one piece reaches exactly the method the client named, of
  the service registered under that name, with the arguments the client gave, whatever bytes
  follow; and the client gets the response the method gave when that is at most 1024 bytes
  long. A request that arrives cut within its arguments is dropped instead, bytes that follow a
  request are lost with it, and a connection closed without an answer counts as an answered
  call whenever the empty string parses.
\<close>
theorem rpc_round_trip:
  assumes "prefix_codec wv rv" "parses henc hdec" "parses penc pdec" "\<And>q. qdec m (qenc q) = Some q"
    and "ss sname = Some info" "si_methods info mname = Some m" "fd \<noteq> - 1"
    and "length (henc (request_header sname mname (qenc q))) < 2 ^ 31" "length (qenc q) < 2 ^ 31"
  shows "\<exists>bytes. CallMethod wv (\<lambda>h. Some (henc h)) pdec sname mname (Some (qenc q)) conn (Sent # sends) (Waiting (penc p)) ctrl fd
      = Some \<lparr>cr_sent = Some bytes, cr_response = pdec (take 1024 (penc p)),
          cr_ctrl = (if pdec (take 1024 (penc p)) = None then SetFailed BadAnswer ctrl else ctrl), cr_fd = fd\<rparr>
    \<and> M_onMessage rv hdec qdec junk ss (bytes @ rest) = Ret (Some (si_service info, m, q))
    \<and> (length (penc p) \<le> 1024 \<longrightarrow> pdec (take 1024 (penc p)) = Some p)
    \<and> (\<forall>n < length (qenc q). M_onMessage rv hdec qdec junk ss (take (length bytes - (length (qenc q) - n)) bytes) = Ret None)
    \<and> CallMethod wv (\<lambda>h. Some (henc h)) pdec sname mname (Some (qenc q)) conn (Sent # sends) (Waiting []) ctrl fd
      = Some \<lparr>cr_sent = Some bytes, cr_response = pdec [],
          cr_ctrl = (if pdec [] = None then SetFailed BadAnswer ctrl else ctrl), cr_fd = fd\<rparr>"
proof -
  let ?b = "request_bytes wv henc sname mname (qenc q)"
  have "M_onMessage rv hdec qdec junk ss (?b @ rest) = Ret (Some (si_service info, m, q))"
    using onMessage_request [where ss = ss and info = info and m = m, OF assms(1,2,8,9) assms(5,6), of qdec junk rest] assms(4) by simp
  moreover have "length (penc p) \<le> 1024 \<longrightarrow> pdec (take 1024 (penc p)) = Some p"
    using assms(3) by (simp add: parses_def)
  moreover have "\<forall>n < length (qenc q). M_onMessage rv hdec qdec junk ss (take (length ?b - (length (qenc q) - n)) ?b) = Ret None"
    using onMessage_cut [OF assms(1,2,8,9)] by blast
  ultimately show ?thesis
    using CallMethod_answered [OF assms(7), of wv henc pdec sname mname "qenc q" conn sends "[]" ctrl]
    by (intro exI [of _ ?b] conjI CallMethod_answered [OF assms(7)]) simp_all
qed

text \<open>A service of two methods, called with a concrete codec.\<close>

definition demo_hdr_put :: "rpc_header \<Rightarrow> string" where
  "demo_hdr_put = put_map (\<lambda>h. (service_name h, method_name h, uint (args_size h)))
     (put_pair put_str (put_pair put_str put_int))"

definition demo_hdr_get :: "string \<Rightarrow> rpc_header option" where
  "demo_hdr_get = whole (get_map (\<lambda>(s, m, n). \<lparr>service_name = s, method_name = m, args_size = of_int n\<rparr>)
     (get_pair get_str (get_pair get_str get_int)))"

definition demo_word_put :: "32 word \<Rightarrow> string" where
  "demo_word_put = put_map uint put_int"

definition demo_word_get :: "string \<Rightarrow> (32 word \<times> string) option" where
  "demo_word_get = get_map of_int get_int"

lemma demo_rpc_codecs:
  "prefix_codec demo_word_put demo_word_get" "parses demo_hdr_put demo_hdr_get"
  "parses put_str (whole get_str)"
proof -
  show "prefix_codec demo_word_put demo_word_get"
    unfolding demo_word_put_def demo_word_get_def by (intro prefix_map prefix_int) simp
  have "codec demo_hdr_put demo_hdr_get"
    unfolding demo_hdr_put_def demo_hdr_get_def by (intro prefix_whole prefix_codecs) simp
  then show "parses demo_hdr_put demo_hdr_get" by (simp add: codec_def parses_def)
  show "parses put_str (whole get_str)" using prefix_whole [OF prefix_str] by (simp add: codec_def parses_def)
qed

lemma length_put_nat: "length (put_nat n) = Suc n"
  by (induction n) simp_all

definition demo_services :: "(nat, nat) services" where
  "demo_services = notifyService 1 ''kv'' [(''put'', 10), (''get'', 11)] Map.empty"

theorem rpc_round_trip_witness:
  "\<exists>bytes. M_onMessage demo_word_get demo_hdr_get (\<lambda>m. whole get_str) [] demo_services bytes = Ret (Some (1, 11, ''x''))"
proof -
  have s: "demo_services ''kv'' = Some \<lparr>si_service = 1, si_methods = [''put'' \<mapsto> 10, ''get'' \<mapsto> 11]\<rparr>"
    by (simp add: demo_services_def notifyService_def insert_new_def)
  have l: "length (demo_hdr_put (request_header ''kv'' ''get'' (put_str ''x''))) < 2 ^ 31" "length (put_str ''x'') < 2 ^ 31"
    by (simp_all add: demo_hdr_put_def put_map_def put_pair_def put_str_def put_int_def request_header_def length_put_nat)
  have q: "whole get_str (put_str x) = Some x" for x using demo_rpc_codecs(3) by (simp add: parses_def)
  have "\<exists>bytes. M_onMessage demo_word_get demo_hdr_get (\<lambda>m. whole get_str) [] demo_services (bytes @ [])
      = Ret (Some (si_service \<lparr>si_service = 1, si_methods = [''put'' \<mapsto> 10, ''get'' \<mapsto> 11]\<rparr>, 11, ''x''))"
    using rpc_round_trip [where qdec = "\<lambda>m. whole get_str" and qenc = put_str and ss = demo_services and fd = 5
        and m = 11 and sname = "''kv''" and mname = "''get''" and q = "''x''" and conn = "Refused 0" and sends = "[]"
        and p = "''ok''" and ctrl = mprpcController and rest = "[]" and junk = "[]",
        OF demo_rpc_codecs q s _ _ l] by auto
  then show ?thesis by simp
qed

end

