(* ===== verification/FdMan.thy ===== *)
theory FdMan
  imports Prelude Config "HOL-Library.Word" "HOL-Library.Signed_Division"
begin

unbundle bit_operations_syntax

text \<open>
  \<open>src/cort/include/fdman.h\<close> and \<open>src/cort/faman.cpp\<close>: what the hooks remember of a file
  descriptor, and the table of descriptors. What \<open>fstat\<close> and \<open>fcntl(F_GETFL)\<close> answer is an
  argument. Then the hooks of \<open>src/cort/hook.cpp\<close> that only work on this table.
\<close>

section \<open>A descriptor\<close>

definition ISINIT :: "32 word" where "ISINIT = 0x1"
definition ISSOCK :: "32 word" where "ISSOCK = 0x2"
definition SYSNONBLOCK :: "32 word" where "SYSNONBLOCK = 0x4"
definition USERNONBLOCK :: "32 word" where "USERNONBLOCK = 0x8"
definition ISCLOSE :: "32 word" where "ISCLOSE = 0x10"

lemmas fd_flag_defs = ISINIT_def ISSOCK_def SYSNONBLOCK_def USERNONBLOCK_def ISCLOSE_def

text \<open>Linux's \<open>O_NONBLOCK\<close>, \<open>SO_RCVTIMEO\<close> and \<open>SO_SNDTIMEO\<close>.\<close>

definition O_NONBLOCK :: "32 word" where "O_NONBLOCK = 0x800"
definition RECV :: int where "RECV = 20"
definition SEND :: int where "SEND = 21"

record fd_info =
  recvTimeout :: "64 word"
  sendTimeout :: "64 word"
  info_fd :: int
  fd_flags :: "32 word"

definition has_flag :: "32 word \<Rightarrow> fd_info \<Rightarrow> bool" where
  "has_flag f c = (fd_flags c AND f \<noteq> 0)"

definition set_flag :: "32 word \<Rightarrow> fd_info \<Rightarrow> fd_info" where
  "set_flag f c = c\<lparr>fd_flags := fd_flags c OR f\<rparr>"

definition reset_flag :: "32 word \<Rightarrow> fd_info \<Rightarrow> fd_info" where
  "reset_flag f c = c\<lparr>fd_flags := fd_flags c AND NOT f\<rparr>"

definition set_userNonBlock :: "bool \<Rightarrow> fd_info \<Rightarrow> fd_info" where
  "set_userNonBlock v c = (if v then set_flag USERNONBLOCK c else reset_flag USERNONBLOCK c)"

definition get_timeout :: "int \<Rightarrow> fd_info \<Rightarrow> 64 word outcome" where
  "get_timeout ty c =
     (if ty = RECV then Ret (recvTimeout c) else if ty = SEND then Ret (sendTimeout c)
      else Throw ''Invalid timeout type'')"

definition set_timeout :: "int \<Rightarrow> 64 word \<Rightarrow> fd_info \<Rightarrow> fd_info outcome" where
  "set_timeout ty t c =
     (if ty = RECV then Ret (c\<lparr>recvTimeout := t\<rparr>) else if ty = SEND then Ret (c\<lparr>sendTimeout := t\<rparr>)
      else Throw ''Invalid timeout type'')"

datatype stat_answer = StatFails | IsSocket | NotSocket

text \<open>\<open>_M_init\<close>: whether it is initialised, and the flags it passes to \<open>fcntl(F_SETFL)\<close>, if it does.\<close>

definition M_init :: "stat_answer \<Rightarrow> 32 word \<Rightarrow> fd_info \<Rightarrow> bool \<times> 32 word option \<times> fd_info" where
  "M_init stat getfl c =
     (if has_flag ISINIT c then (True, None, c)
      else let c = (case stat of StatFails \<Rightarrow> reset_flag (ISINIT OR ISSOCK) c
                    | IsSocket \<Rightarrow> set_flag (ISINIT OR ISSOCK) c
                    | NotSocket \<Rightarrow> set_flag ISINIT c)
        in if has_flag ISSOCK c
           then let c' = set_flag SYSNONBLOCK c
             in (has_flag ISINIT c', if getfl AND O_NONBLOCK = 0 then Some (getfl OR O_NONBLOCK) else None, c')
           else let c' = reset_flag SYSNONBLOCK c in (has_flag ISINIT c', None, c'))"

definition fdContext :: "int \<Rightarrow> stat_answer \<Rightarrow> 32 word \<Rightarrow> 32 word option \<times> fd_info" where
  "fdContext fd stat getfl =
     snd (M_init stat getfl \<lparr>recvTimeout = - 1, sendTimeout = - 1, info_fd = fd, fd_flags = 0\<rparr>)"

section \<open>The table\<close>

type_synonym fdman = "int \<Rightarrow> fd_info option"

text \<open>
  \<open>get\<close>: the part under the read lock answers or goes on (\<open>None\<close>); the part under the write
  lock creates the entry without looking again. The second result is what reaches \<open>fcntl\<close>.
\<close>

definition fdman_find :: "int \<Rightarrow> bool \<Rightarrow> fdman \<Rightarrow> fd_info option option" where
  "fdman_find fd auto_create datas =
     (if fd < 0 then Some None
      else case datas fd of Some c \<Rightarrow> Some (Some c) | None \<Rightarrow> if auto_create then None else Some None)"

definition fdman_create ::
  "int \<Rightarrow> stat_answer \<Rightarrow> 32 word \<Rightarrow> fdman \<Rightarrow> fd_info option \<times> 32 word option \<times> fdman" where
  "fdman_create fd stat getfl datas =
     (let (call, c) = fdContext fd stat getfl in
      if \<not> has_flag ISINIT c then (None, call, datas) else (Some c, call, insert_new fd c datas))"

definition fdman_get ::
  "int \<Rightarrow> bool \<Rightarrow> stat_answer \<Rightarrow> 32 word \<Rightarrow> fdman \<Rightarrow> fd_info option \<times> 32 word option \<times> fdman" where
  "fdman_get fd auto_create stat getfl datas =
     (case fdman_find fd auto_create datas of
        Some r \<Rightarrow> (r, None, datas)
      | None \<Rightarrow> fdman_create fd stat getfl datas)"

definition fdman_del :: "int \<Rightarrow> fdman \<Rightarrow> fdman" where
  "fdman_del fd datas = datas(fd := None)"

section \<open>Hooks on the table\<close>

text \<open>Whether the hooks manage the descriptor: it is known, open, and a socket.\<close>

definition managed :: "int \<Rightarrow> fdman \<Rightarrow> fd_info option" where
  "managed fd datas =
     (case fst (fdman_get fd False StatFails 0 datas) of
        None \<Rightarrow> None
      | Some c \<Rightarrow> if has_flag ISCLOSE c \<or> \<not> has_flag ISSOCK c then None else Some c)"

text \<open>\<open>fcntl(F_SETFL)\<close>: the argument passed on.\<close>

definition hook_setfl :: "int \<Rightarrow> 32 word \<Rightarrow> fdman \<Rightarrow> 32 word \<times> fdman" where
  "hook_setfl fd arg datas =
     (case managed fd datas of
        None \<Rightarrow> (arg, datas)
      | Some c \<Rightarrow>
          (let c = set_userNonBlock (arg AND O_NONBLOCK \<noteq> 0) c in
           (if has_flag SYSNONBLOCK c then arg OR O_NONBLOCK else arg AND NOT O_NONBLOCK, datas(fd \<mapsto> c))))"

text \<open>\<open>fcntl(F_GETFL)\<close>: \<open>arg\<close> is what the system call returned.\<close>

definition hook_getfl :: "int \<Rightarrow> 32 word \<Rightarrow> fdman \<Rightarrow> 32 word" where
  "hook_getfl fd arg datas =
     (case managed fd datas of
        None \<Rightarrow> arg
      | Some c \<Rightarrow> if has_flag USERNONBLOCK c then arg OR O_NONBLOCK else arg AND NOT O_NONBLOCK)"

text \<open>\<open>ioctl(FIONBIO)\<close>: the value passed on is the caller's.\<close>

definition hook_fionbio :: "int \<Rightarrow> bool \<Rightarrow> fdman \<Rightarrow> bool \<times> fdman" where
  "hook_fionbio fd v datas =
     (case managed fd datas of
        None \<Rightarrow> (v, datas)
      | Some c \<Rightarrow> (v, datas(fd \<mapsto> set_userNonBlock v c)))"

text \<open>\<open>setsockopt\<close> with a timeout of \<open>sec\<close> seconds and \<open>usec\<close> microseconds.\<close>

definition hook_setsockopt :: "bool \<Rightarrow> bool \<Rightarrow> int \<Rightarrow> int \<Rightarrow> int \<Rightarrow> int \<Rightarrow> fdman \<Rightarrow> fdman outcome" where
  "hook_setsockopt hook_enable sol_socket fd optname sec usec datas =
     (if \<not> hook_enable \<or> \<not> sol_socket \<or> optname \<notin> {RECV, SEND} then Ret datas
      else case fst (fdman_get fd False StatFails 0 datas) of
          None \<Rightarrow> Ret datas
        | Some c \<Rightarrow> and_then (set_timeout optname (of_int (sec * 1000 + usec sdiv 1000)) c)
            (\<lambda>c. Ret (datas(fd \<mapsto> c))))"

text \<open>\<open>socket\<close> and \<open>accept\<close> enter the descriptor they got.\<close>

definition hook_socket :: "bool \<Rightarrow> int \<Rightarrow> stat_answer \<Rightarrow> 32 word \<Rightarrow> fdman \<Rightarrow> fdman" where
  "hook_socket hook_enable fd stat getfl datas =
     (if hook_enable \<and> fd \<noteq> - 1 then snd (snd (fdman_get fd True stat getfl datas)) else datas)"

definition hook_accept :: "int \<Rightarrow> stat_answer \<Rightarrow> 32 word \<Rightarrow> fdman \<Rightarrow> fdman" where
  "hook_accept fd stat getfl datas =
     (if fd \<ge> 0 then snd (snd (fdman_get fd True stat getfl datas)) else datas)"

section \<open>Blocking mode as the user sees it\<close>

lemma flag_powers:
  "ISSOCK = 2 ^ 1" "SYSNONBLOCK = 2 ^ 2" "USERNONBLOCK = 2 ^ 3" "ISCLOSE = 2 ^ 4" "O_NONBLOCK = 2 ^ 11"
  by (simp_all add: fd_flag_defs O_NONBLOCK_def)

lemma flag_bit:
  "bit ISSOCK n \<longleftrightarrow> n = 1" "bit SYSNONBLOCK n \<longleftrightarrow> n = 2" "bit USERNONBLOCK n \<longleftrightarrow> n = 3"
  "bit ISCLOSE n \<longleftrightarrow> n = 4" "bit O_NONBLOCK n \<longleftrightarrow> n = 11"
  unfolding flag_powers bit_exp_iff by auto

lemma and_flag:
  "x AND ISSOCK = 0 \<longleftrightarrow> \<not> bit x 1" "x AND SYSNONBLOCK = 0 \<longleftrightarrow> \<not> bit x 2" "x AND USERNONBLOCK = 0 \<longleftrightarrow> \<not> bit x 3"
  "x AND ISCLOSE = 0 \<longleftrightarrow> \<not> bit x 4" "x AND O_NONBLOCK = 0 \<longleftrightarrow> \<not> bit x 11"
  unfolding flag_powers by (rule and_exp_eq_0_iff_not_bit)+

lemmas flag_simps = flag_bit and_flag bit_or_iff bit_and_iff bit_not_iff

lemma flag_bits:
  "has_flag USERNONBLOCK (set_userNonBlock v c) = v"
  "f \<in> {ISSOCK, ISCLOSE, SYSNONBLOCK} \<Longrightarrow> has_flag f (set_userNonBlock v c) = has_flag f c"
  by (auto simp: has_flag_def set_userNonBlock_def set_flag_def reset_flag_def flag_simps)

text \<open>
  On a managed socket the kernel is always told \<open>O_NONBLOCK\<close> by \<open>fcntl\<close>, and \<open>F_GETFL\<close> tells the
  user what \<open>F_SETFL\<close> set.
\<close>

lemma setfl_getfl:
  assumes "managed fd datas = Some c" "has_flag SYSNONBLOCK c" "hook_setfl fd arg datas = (arg', datas')"
  shows "arg' AND O_NONBLOCK \<noteq> 0" "hook_getfl fd x datas' AND O_NONBLOCK = arg AND O_NONBLOCK"
    "\<exists>c'. managed fd datas' = Some c' \<and> has_flag SYSNONBLOCK c'"
proof -
  let ?v = "arg AND O_NONBLOCK \<noteq> 0"
  have d: "0 \<le> fd" "datas fd = Some c" "\<not> has_flag ISCLOSE c" "has_flag ISSOCK c"
    using assms(1) by (auto simp: managed_def fdman_get_def fdman_find_def split: option.splits if_splits)
  have n: "arg' = arg OR O_NONBLOCK" "datas' = datas(fd \<mapsto> set_userNonBlock ?v c)"
    using assms flag_bits(2) [of SYSNONBLOCK ?v c] by (auto simp: hook_setfl_def Let_def)
  have m: "managed fd datas' = Some (set_userNonBlock ?v c)"
    using d flag_bits(2) [of ISCLOSE ?v c] flag_bits(2) [of ISSOCK ?v c]
    by (simp add: managed_def fdman_get_def fdman_find_def n(2))
  have b: "x AND O_NONBLOCK = (if bit x 11 then O_NONBLOCK else 0)" for x :: "32 word"
    by (rule bit_eqI) (auto simp: flag_simps)
  show "\<exists>c'. managed fd datas' = Some c' \<and> has_flag SYSNONBLOCK c'"
    using m flag_bits(2) [of SYSNONBLOCK ?v c] assms(2) by simp
  show "arg' AND O_NONBLOCK \<noteq> 0" by (simp add: n(1)) (simp add: O_NONBLOCK_def)
  show "hook_getfl fd x datas' AND O_NONBLOCK = arg AND O_NONBLOCK"
    by (simp add: hook_getfl_def m flag_bits(1) b flag_simps)
qed

text \<open>\<open>ioctl(FIONBIO)\<close> does not keep the kernel's flag: it passes a zero on.\<close>

lemma fionbio_blocks:
  "managed fd datas = Some c \<Longrightarrow> hook_fionbio fd False datas = (False, datas(fd \<mapsto> set_userNonBlock False c))"
  by (simp add: hook_fionbio_def)

text \<open>Two threads that enter a descriptor at once: the second returns a context that is not in the table.\<close>

lemma create_twice:
  assumes "fdman_create fd IsSocket fl datas = (Some c, x, datas1)" "datas fd = None"
    and "fdman_create fd IsSocket fl' datas1 = (Some c', y, datas2)"
  shows "datas2 = datas1" "datas1 fd = Some c"
  using assms by (auto simp: fdman_create_def insert_new_def Let_def split: prod.splits if_splits)

section \<open>The dispatch of \<open>fcntl\<close>\<close>

datatype fcntl_cmd = F_SETFL | F_GETFL
  | F_DUPFD | F_DUPFD_CLOEXEC | F_SETFD | F_SETOWN | F_SETSIG | F_SETLEASE | F_NOTIFY | F_SETPIPE_SZ
  | F_GETFD | F_GETOWN | F_GETSIG | F_GETLEASE | F_GETPIPE_SZ
  | F_SETLK | F_SETLKW | F_GETLK | F_GETOWN_EX | F_SETOWN_EX | F_OTHER nat

text \<open>
  What follows the command in a call: nothing, an \<open>int\<close> or a pointer. Reading one that is not
  there, or of another type, is undefined.
\<close>

datatype fcntl_arg = NoArg | IntArg "32 word" | PtrArg nat

fun va_int :: "fcntl_arg \<Rightarrow> fcntl_arg outcome" where
  "va_int (IntArg x) = Ret (IntArg x)"
| "va_int _ = Undef"

fun va_ptr :: "fcntl_arg \<Rightarrow> fcntl_arg outcome" where
  "va_ptr (PtrArg p) = Ret (PtrArg p)"
| "va_ptr _ = Undef"

text \<open>\<open>sys\<close> is what the real call answers to a command and its argument.\<close>

fun hook_fcntl ::
  "(fcntl_cmd \<Rightarrow> fcntl_arg \<Rightarrow> 32 word) \<Rightarrow> int \<Rightarrow> fcntl_cmd \<Rightarrow> fcntl_arg \<Rightarrow> fdman \<Rightarrow> (32 word \<times> fdman) outcome" where
  "hook_fcntl sys fd F_SETFL (IntArg x) datas =
     (let (y, datas) = hook_setfl fd x datas in Ret (sys F_SETFL (IntArg y), datas))"
| "hook_fcntl sys fd F_SETFL va datas = Undef"
| "hook_fcntl sys fd F_GETFL va datas = Ret (hook_getfl fd (sys F_GETFL NoArg) datas, datas)"
| "hook_fcntl sys fd cmd va datas =
     (if cmd \<in> {F_DUPFD, F_DUPFD_CLOEXEC, F_SETFD, F_SETOWN, F_SETSIG, F_SETLEASE, F_NOTIFY, F_SETPIPE_SZ}
      then and_then (va_int va) (\<lambda>x. Ret (sys cmd x, datas))
      else if cmd \<in> {F_GETFD, F_GETOWN, F_GETSIG, F_GETLEASE, F_GETPIPE_SZ} then Ret (sys cmd NoArg, datas)
      else if cmd \<in> {F_SETLK, F_SETLKW, F_GETLK, F_GETOWN_EX, F_SETOWN_EX}
      then and_then (va_ptr va) (\<lambda>x. Ret (sys cmd x, datas))
      else Ret (sys cmd NoArg, datas))"

text \<open>
  What the table keeps: a socket in it is non-blocking for the kernel. Every operation on the
  table keeps it.
\<close>

definition table_ok :: "fdman \<Rightarrow> bool" where
  "table_ok datas \<longleftrightarrow> (\<forall>fd c. datas fd = Some c \<longrightarrow> (has_flag ISSOCK c \<longrightarrow> has_flag SYSNONBLOCK c))"

lemma managed_in: "managed fd datas = Some c \<Longrightarrow> datas fd = Some c \<and> 0 \<le> fd \<and> has_flag ISSOCK c \<and> \<not> has_flag ISCLOSE c"
  by (auto simp: managed_def fdman_get_def fdman_find_def split: option.splits if_splits)

lemma fdContext_ok: "has_flag ISSOCK (snd (fdContext fd stat fl)) \<Longrightarrow> has_flag SYSNONBLOCK (snd (fdContext fd stat fl))"
proof -
  have "SYSNONBLOCK \<noteq> 0" by (simp add: SYSNONBLOCK_def)
  then show "has_flag ISSOCK (snd (fdContext fd stat fl)) \<Longrightarrow> has_flag SYSNONBLOCK (snd (fdContext fd stat fl))"
    by (cases stat)
      (auto simp: fdContext_def M_init_def Let_def has_flag_def set_flag_def reset_flag_def flag_simps split: if_splits)
qed

lemma table_ok_get: "table_ok datas \<Longrightarrow> table_ok (snd (snd (fdman_get fd auto_create stat fl datas)))"
  using fdContext_ok [of fd stat fl]
  by (auto simp: table_ok_def fdman_get_def fdman_create_def insert_new_def split: option.splits prod.splits if_splits)

lemma table_ok_del: "table_ok datas \<Longrightarrow> table_ok (fdman_del fd datas)"
  by (simp add: table_ok_def fdman_del_def)

lemma table_ok_set: "table_ok datas \<Longrightarrow> datas fd = Some c \<Longrightarrow> table_ok (datas(fd \<mapsto> set_userNonBlock v c))"
  by (simp add: table_ok_def flag_bits(2))

lemma table_ok_fionbio: "table_ok datas \<Longrightarrow> table_ok (snd (hook_fionbio fd v datas))"
  using managed_in [of fd datas] table_ok_set [of datas fd] by (auto simp: hook_fionbio_def split: option.splits)

lemma table_ok_setsockopt:
  assumes "table_ok datas" "hook_setsockopt e b fd opt sec usec datas = Ret datas'"
  shows "table_ok datas'"
proof -
  have keeps: "set_timeout opt t c = Ret c' \<Longrightarrow> fd_flags c' = fd_flags c" for t c c'
    by (auto simp: set_timeout_def split: if_splits)
  have "fst (fdman_get fd False StatFails 0 datas) = Some c \<Longrightarrow> datas fd = Some c" for c
    by (auto simp: fdman_get_def fdman_find_def split: option.splits if_splits)
  with assms keeps show ?thesis
    by (auto simp: hook_setsockopt_def and_then_Ret table_ok_def has_flag_def split: if_splits option.splits)
qed

lemma table_ok_fcntl:
  assumes "table_ok datas" "hook_fcntl sys fd cmd va datas = Ret (r, datas')"
  shows "table_ok datas'"
proof (cases "cmd = F_SETFL")
  case True
  with assms(2) obtain x y where x: "hook_setfl fd x datas = (y, datas')" by (cases va) (auto split: prod.splits)
  show ?thesis
    using x assms(1) managed_in [of fd datas] table_ok_set
    by (auto simp: hook_setfl_def Let_def split: option.splits)
next
  case False
  then have "datas' = datas" using assms(2)
    by (cases cmd; cases va) (auto split: if_splits)
  with assms(1) show ?thesis by simp
qed



end
