(* ===== verification/Hook.thy ===== *)
theory Hook
  imports FdMan IomanProps TimerProps
begin

unbundle bit_operations_syntax

text \<open>
  \<open>src/cort/hook.cpp\<close>: a system call that would block becomes a registered event, perhaps with a
  timer, and a yield. The call is cut where it gives up the thread; between its parts any
  coroutine, the idle coroutine and the timer's callback may run. Times are arguments, and so
  is what the real system calls return.
\<close>

section \<open>State\<close>

text \<open>
  The functions the hooks hand to timers. A wait names its \<open>timer_info\<close> by a number; the weak
  pointer to it is the watched object of the timer.
\<close>

datatype io_fun = CancelIo nat int "32 word" | WakeTask nat

text \<open>\<open>hw_info\<close>: the \<open>cancelled\<close> field of every \<open>timer_info\<close> that is alive.\<close>

record 'k hook_world =
  hw_io :: "(io_fun, 'k) ioman"
  hw_fds :: fdman
  hw_info :: "nat \<Rightarrow> int option"

definition ETIMEDOUT :: int where "ETIMEDOUT = 110"
definition EINTR :: int where "EINTR = 4"
definition EAGAIN :: int where "EAGAIN = 11"
definition EBADF :: int where "EBADF = 9"
definition EINPROGRESS :: int where "EINPROGRESS = 115"

lemmas errno_defs = ETIMEDOUT_def EINTR_def EAGAIN_def EBADF_def EINPROGRESS_def

section \<open>The parts of a hooked call\<close>

text \<open>Whether the call goes to the kernel as it is, fails, or is managed with a time-out.\<close>

datatype io_route = Direct | BadFd | Managed "64 word"

definition do_io_route :: "bool \<Rightarrow> int \<Rightarrow> int \<Rightarrow> fdman \<Rightarrow> io_route outcome" where
  "do_io_route hook_enable fd ty datas =
     (if \<not> hook_enable then Ret Direct
      else case fst (fdman_get fd False StatFails 0 datas) of
          None \<Rightarrow> Ret Direct
        | Some c \<Rightarrow> if has_flag ISCLOSE c then Ret BadFd
            else if \<not> has_flag ISSOCK c \<or> has_flag USERNONBLOCK c then Ret Direct
            else and_then (get_timeout ty c) (\<lambda>t. Ret (Managed t)))"

text \<open>The call itself, repeated while a signal interrupts it: the result and \<open>errno\<close>.\<close>

fun call_retry :: "(int \<times> int) list \<Rightarrow> (int \<times> int) option" where
  "call_retry [] = None"
| "call_retry ((n, e) # rs) = (if n = - 1 \<and> e = EINTR then call_retry rs else Some (n, e))"

text \<open>The timer, unless the time-out is infinite.\<close>

definition io_arm ::
  "64 word \<Rightarrow> 64 word \<Rightarrow> nat \<Rightarrow> int \<Rightarrow> 32 word \<Rightarrow> 'k hook_world \<Rightarrow> nat option \<times> 'k hook_world" where
  "io_arm now timeout tinfo fd ev w =
     (if timeout = - 1 then (None, w)
      else let (a, tick, m) = addConditionTimer now timeout (CancelIo tinfo fd ev) tinfo False (io_timers (hw_io w))
        in (Some a, w\<lparr>hw_io := (hw_io w)\<lparr>io_timers := m\<rparr>\<rparr>))"

definition cancel_if :: "nat option \<Rightarrow> 'k hook_world \<Rightarrow> 'k hook_world outcome" where
  "cancel_if tsptr w =
     (case tsptr of
        None \<Rightarrow> Ret w
      | Some a \<Rightarrow> and_then (of_opt (timer_cancel a (io_timers (hw_io w)))) (\<lambda>(b, m).
          Ret (w\<lparr>hw_io := (hw_io w)\<lparr>io_timers := m\<rparr>\<rparr>)))"

text \<open>Registering the event: \<open>True\<close> when the call then yields, otherwise it returns \<open>- 1\<close>.\<close>

definition io_register ::
  "'k epoll \<Rightarrow> nat option \<Rightarrow> nat \<Rightarrow> bool \<Rightarrow> nat option \<Rightarrow> int \<Rightarrow> 32 word \<Rightarrow> 'k hook_world
    \<Rightarrow> (bool \<times> 'k hook_world) outcome" where
  "io_register ctl sch co running tsptr fd ev w =
     and_then (addEvent ctl sch co running fd ev None (hw_io w)) (\<lambda>(ret, io).
       let w = w\<lparr>hw_io := io\<rparr> in
       if ret \<noteq> 0 then and_then (cancel_if tsptr w) (\<lambda>w. Ret (False, w)) else Ret (True, w))"

text \<open>After the yield: \<open>Some e\<close> when the call returns \<open>- 1\<close> with that error, \<open>None\<close> when it is tried again.\<close>

definition io_wake :: "nat option \<Rightarrow> nat \<Rightarrow> 'k hook_world \<Rightarrow> (int option \<times> 'k hook_world) outcome" where
  "io_wake tsptr tinfo w = and_then (cancel_if tsptr w) (\<lambda>w.
     and_then (of_opt (hw_info w tinfo)) (\<lambda>c. Ret (if c \<noteq> 0 then Some c else None, w)))"

text \<open>The function given to the timer. A signal number that is not set is zero.\<close>

definition on_timeout ::
  "'k epoll \<Rightarrow> nat \<Rightarrow> int \<Rightarrow> 32 word \<Rightarrow> 'k hook_world \<Rightarrow> 'k hook_world outcome" where
  "on_timeout ctl tinfo fd ev w =
     (case hw_info w tinfo of
        None \<Rightarrow> Ret w
      | Some c \<Rightarrow> if c \<noteq> 0 then Ret w
          else let w = w\<lparr>hw_info := (hw_info w)(tinfo \<mapsto> ETIMEDOUT)\<rparr> in
            and_then (cancelEvent ctl fd ev (hw_io w)) (\<lambda>(b, io). Ret (w\<lparr>hw_io := io\<rparr>)))"

text \<open>
  A managed call from one of its points to the next: the kernel's answers when it is to be
  made (again), the wake-up when it has yielded.
\<close>

datatype io_point = AtCall | AtYield "nat option" | Returned int int

definition do_io_call ::
  "'k epoll \<Rightarrow> nat option \<Rightarrow> nat \<Rightarrow> bool \<Rightarrow> 64 word \<Rightarrow> 64 word \<Rightarrow> nat \<Rightarrow> int \<Rightarrow> 32 word \<Rightarrow> int
    \<Rightarrow> (int \<times> int) list \<Rightarrow> 'k hook_world \<Rightarrow> (io_point \<times> 'k hook_world) outcome" where
  "do_io_call ctl sch co running now timeout tinfo fd ev errno answers w =
     and_then (of_opt (call_retry answers)) (\<lambda>(n, e).
       if n = - 1 \<and> e = EAGAIN
       then let (tsptr, w) = io_arm now timeout tinfo fd ev w
         in and_then (io_register ctl sch co running tsptr fd ev w) (\<lambda>(yields, w).
              Ret (if yields then AtYield tsptr else Returned (- 1) errno, w))
       else Ret (Returned n e, w))"

definition do_io_wake :: "nat option \<Rightarrow> nat \<Rightarrow> 'k hook_world \<Rightarrow> (io_point \<times> 'k hook_world) outcome" where
  "do_io_wake tsptr tinfo w = and_then (io_wake tsptr tinfo w) (\<lambda>(r, w).
     Ret (case r of Some e \<Rightarrow> Returned (- 1) e | None \<Rightarrow> AtCall, w))"

section \<open>The other hooks\<close>

text \<open>
  The calls that go through \<open>do_io\<close>, with the event each waits for and the time-out it uses;
  \<open>accept\<close> enters the new descriptor afterwards (\<open>hook_accept\<close>).
\<close>

datatype io_call = IoAccept | IoRead | IoReadv | IoRecv | IoRecvfrom | IoRecvmsg
  | IoWrite | IoWritev | IoSend | IoSendto | IoSendmsg

fun io_call_args :: "io_call \<Rightarrow> 32 word \<times> int" where
  "io_call_args IoAccept = (READ, RECV)"
| "io_call_args IoRead = (READ, RECV)"
| "io_call_args IoReadv = (READ, RECV)"
| "io_call_args IoRecv = (READ, RECV)"
| "io_call_args IoRecvfrom = (READ, RECV)"
| "io_call_args IoRecvmsg = (READ, RECV)"
| "io_call_args IoWrite = (WRITE, SEND)"
| "io_call_args IoWritev = (WRITE, SEND)"
| "io_call_args IoSend = (WRITE, SEND)"
| "io_call_args IoSendto = (WRITE, SEND)"
| "io_call_args IoSendmsg = (WRITE, SEND)"

text \<open>
  \<open>sleep\<close>, \<open>usleep\<close>, \<open>nanosleep\<close>: a timer that puts the coroutine back, and a yield
  (\<open>True\<close>); without the hooks, the real call. Milliseconds are computed in the width of each
  argument.
\<close>

definition sleep_timer :: "64 word \<Rightarrow> 64 word \<Rightarrow> nat \<Rightarrow> 'k hook_world \<Rightarrow> 'k hook_world" where
  "sleep_timer now ms co w =
     (let (a, tick, m) = addTimer now ms (Plain (WakeTask co)) False (io_timers (hw_io w))
      in w\<lparr>hw_io := (hw_io w)\<lparr>io_timers := m\<rparr>\<rparr>)"

definition hook_sleep :: "bool \<Rightarrow> 64 word \<Rightarrow> 32 word \<Rightarrow> nat \<Rightarrow> 'k hook_world \<Rightarrow> bool \<times> 'k hook_world" where
  "hook_sleep hook_enable now sec co w =
     (if \<not> hook_enable then (False, w) else (True, sleep_timer now (ucast (sec * 1000)) co w))"

definition hook_usleep :: "bool \<Rightarrow> 64 word \<Rightarrow> 32 word \<Rightarrow> nat \<Rightarrow> 'k hook_world \<Rightarrow> bool \<times> 'k hook_world" where
  "hook_usleep hook_enable now usec co w =
     (if \<not> hook_enable then (False, w) else (True, sleep_timer now (ucast (usec div 1000)) co w))"

definition hook_nanosleep :: "bool \<Rightarrow> 64 word \<Rightarrow> int \<Rightarrow> int \<Rightarrow> nat \<Rightarrow> 'k hook_world \<Rightarrow> bool \<times> 'k hook_world" where
  "hook_nanosleep hook_enable now sec nsec co w =
     (if \<not> hook_enable then (False, w)
      else (True, sleep_timer now (of_int (sec * 1000 + nsec sdiv 1000000)) co w))"

definition wake_task :: "nat \<Rightarrow> 'k hook_world \<Rightarrow> 'k hook_world" where
  "wake_task co w = w\<lparr>hw_io := add_task (io_self (hw_io w))
     \<lparr>tk_coroutine = Some co, tk_func = None, tk_thread = - 1\<rparr> (hw_io w)\<rparr>"

text \<open>\<open>close\<close>: what happens before the real call. \<open>has_ioman\<close>: the thread has a manager.\<close>

definition hook_close :: "'k epoll \<Rightarrow> bool \<Rightarrow> bool \<Rightarrow> int \<Rightarrow> 'k hook_world \<Rightarrow> 'k hook_world outcome" where
  "hook_close ctl hook_enable has_ioman fd w =
     (if hook_enable \<and> fst (fdman_get fd False StatFails 0 (hw_fds w)) \<noteq> None
      then and_then (if has_ioman then cancelAll ctl fd (hw_io w) else Ret (False, hw_io w)) (\<lambda>(b, io).
        Ret (w\<lparr>hw_io := io, hw_fds := fdman_del fd (hw_fds w)\<rparr>))
      else Ret w)"

text \<open>
  \<open>connect_with_timeout\<close>: how it starts, the wait, and what it returns at the end. The
  time-out is an argument, so \<open>Managed\<close> carries none here. From \<open>AtCall\<close> it goes on to
  \<open>getsockopt\<close>, when the wait has ended without an error and when it could not start.
\<close>

definition connect_route :: "bool \<Rightarrow> int \<Rightarrow> fdman \<Rightarrow> io_route" where
  "connect_route hook_enable fd datas =
     (if \<not> hook_enable then Direct
      else case fst (fdman_get fd False StatFails 0 datas) of
          None \<Rightarrow> BadFd
        | Some c \<Rightarrow> if has_flag ISCLOSE c then BadFd
            else if \<not> has_flag ISSOCK c \<or> has_flag USERNONBLOCK c then Direct else Managed 0)"

definition connect_start ::
  "'k epoll \<Rightarrow> nat option \<Rightarrow> nat \<Rightarrow> bool \<Rightarrow> 64 word \<Rightarrow> 64 word \<Rightarrow> nat \<Rightarrow> int \<Rightarrow> int \<times> int \<Rightarrow> 'k hook_world
    \<Rightarrow> (io_point \<times> 'k hook_world) outcome" where
  "connect_start ctl sch co running now timeout tinfo fd answer w =
     (case answer of (n, e) \<Rightarrow>
        if n = 0 then Ret (Returned 0 e, w)
        else if n \<noteq> - 1 \<or> e \<noteq> EINPROGRESS then Ret (Returned n e, w)
        else let (tsptr, w) = io_arm now timeout tinfo fd WRITE w
          in and_then (io_register ctl sch co running tsptr fd WRITE w) (\<lambda>(yields, w).
               Ret (if yields then AtYield tsptr else AtCall, w)))"

text \<open>\<open>so_error\<close>: the pending error \<open>getsockopt\<close> reports, or the error of \<open>getsockopt\<close> itself.\<close>

definition connect_finish :: "int + int \<Rightarrow> int \<Rightarrow> io_point" where
  "connect_finish so_error errno =
     (case so_error of Inl e \<Rightarrow> Returned (- 1) e
      | Inr error \<Rightarrow> if error = 0 then Returned 0 errno else Returned (- 1) error)"

end
