(* ===== verification/HookProps.thy ===== *)
theory HookProps
  imports Hook
begin

text \<open>
  A hooked call that waits: what it leaves registered, and that each of the two things it waits
  for puts its coroutine back exactly once, with the manager's and the timers' invariants kept.
\<close>

section \<open>A registered event\<close>

definition event_slot :: "32 word \<Rightarrow> nat \<Rightarrow> ('f, 'k) ioman \<Rightarrow> 'f callback event_context" where
  "event_slot e a io = (if e = READ then readContext (fdEventContexts io ! a) else writeContext (fdEventContexts io ! a))"

definition waiting :: "nat \<Rightarrow> int \<Rightarrow> 32 word \<Rightarrow> ('f, 'k) ioman \<Rightarrow> bool" where
  "waiting co fd e io \<longleftrightarrow> 0 \<le> fd \<and> nat fd < length (fdEventContexts io) \<and> has_event e (nat fd) io
     \<and> event_slot e (nat fd) io = \<lparr>ec_co = Some co, ec_func = None, ec_sch = Some (io_self io)\<rparr>"

text \<open>The task of coroutine \<open>co\<close>, for any thread.\<close>

definition co_task :: "nat \<Rightarrow> 'f sched_task" where
  "co_task co = \<lparr>tk_coroutine = Some co, tk_func = None, tk_thread = - 1\<rparr>"

text \<open>A change of the interest list that the manual allows succeeds.\<close>

definition epoll_succeeds :: "'k epoll \<Rightarrow> ('k \<Rightarrow> nat \<Rightarrow> 32 word option) \<Rightarrow> bool" where
  "epoll_succeeds ctl interest \<longleftrightarrow>
     (\<forall>op fd ev k. epoll_effect op ev (interest k fd) \<noteq> None \<longrightarrow> fst (ctl op fd ev k))"

lemma getEventContext_slot:
  "e \<in> {READ, WRITE} \<Longrightarrow> getEventContext e (fdEventContexts io ! a) = Ret (event_slot e a io)"
  by (auto simp: getEventContext_def event_slot_def)

lemma addEvent_waiting:
  assumes "io_ok interest io" "e \<in> {READ, WRITE}" "fd < 2 ^ 31"
    and "addEvent ctl (Some (io_self io)) co True fd e None io = Ret (0, io')"
  shows "waiting co fd e io'" "io_sched io' = io_sched io" "io_timers io' = io_timers io" "io_self io' = io_self io"
proof -
  have fd: "0 \<le> fd"
    using assms(4) by (auto simp: addEvent_def open_context_def find_context_def split: if_splits)
  define a where "a = nat fd"
  obtain jo where jo: "open_context fd io = Ret (a, jo)" "io_ok interest jo" "a < length (fdEventContexts jo)"
    using open_context_ok [OF assms(1) fd assms(3)] by (auto simp: a_def)
  have same: "io_self jo = io_self io" "io_sched jo = io_sched io" "io_timers jo = io_timers io"
    using jo(1) by (auto simp: open_context_def M_expandContext_def Let_def split: option.splits if_splits)
  define c where "c = fdEventContexts jo ! a"
  have ok: "context_ok a c" using jo by (simp add: io_ok_def counts_ok_def c_def)
  have z: "fd_events c AND e = 0"
    using assms(4) jo by (auto simp: addEvent_def arr_get_in c_def split: if_splits)
  obtain b k where k: "ctl (if fd_events c \<noteq> 0 then CTL_MOD else CTL_ADD) a (fd_events c OR e OR EPOLLET) (epollFd jo) = (b, k)"
    by fastforce
  have b: b
    using assms(4) jo z k by (auto simp: addEvent_def arr_get_in Let_def simp flip: c_def split del: if_split split: if_splits)
  have x: "getEventContext e (c\<lparr>fd_events := fd_events c OR e\<rparr>) = Ret empty_context"
    using ok z assms(2) by (auto simp: getEventContext_def context_ok_def slot_ok_def)
  let ?y = "\<lparr>ec_co = Some co, ec_func = None, ec_sch = Some (io_self io)\<rparr>"
  have io': "io' = set_context a (put_context e ?y (c\<lparr>fd_events := fd_events c OR e\<rparr>))
      ((with_kernel k jo)\<lparr>pendingCountor := pendingCountor jo + 1\<rparr>)"
    using assms(4) jo z k b x
    by (simp add: addEvent_def arr_get_in Let_def empty_context_def with_kernel_def flip: c_def split del: if_split)
  show "io_sched io' = io_sched io" "io_timers io' = io_timers io" "io_self io' = io_self io"
    by (simp_all add: io' set_context_def with_kernel_def same)
  have v: "valid_events (fd_events c)" using ok by (simp add: context_ok_def)
  show "waiting co fd e io'"
    using fd jo(3) assms(2) bits_add(3) [OF v assms(2) z]
    by (auto simp: waiting_def event_slot_def has_event_def io' set_context_def with_kernel_def same simp flip: a_def)
qed

text \<open>\<open>drop_event\<close> of a registered event succeeds, and what follows queues the coroutine.\<close>

lemma cancel_waiting:
  assumes "epoll_laws ctl interest" "epoll_succeeds ctl interest" "io_ok interest io" "e \<in> {READ, WRITE}"
    and "waiting co fd e io"
  shows "\<exists>io'. cancelEvent ctl fd e io = Ret (True, io') \<and> idle_report ctl (FromFd (nat fd) e) io = Ret io'
    \<and> io_ok interest io' \<and> \<not> has_event e (nat fd) io' \<and> io_timers io' = io_timers io
    \<and> io_self io' = io_self io \<and> sc_tasks (io_sched io') = sc_tasks (io_sched io) @ [co_task co]"
proof -
  define a c where "a = nat fd" and "c = fdEventContexts io ! a"
  have w: "0 \<le> fd" "a < length (fdEventContexts io)" "fd_events c AND e \<noteq> 0"
    "event_slot e a io = \<lparr>ec_co = Some co, ec_func = None, ec_sch = Some (io_self io)\<rparr>"
    using assms(5) by (simp_all add: waiting_def has_event_def a_def c_def)
  have K: "kernel_ok interest (tickleFd io) (epollFd io) (events_of io)" using assms(3) by (simp add: io_ok_def)
  have ok: "context_ok a c" using assms(3) w(2) by (simp add: io_ok_def counts_ok_def c_def)
  have v: "valid_events (fd_events c)" "fd_fd c = a" using ok by (simp_all add: context_ok_def)
  have nz: "fd_events c \<noteq> 0" using w(3) by auto
  let ?ev = "fd_events c AND NOT e" and ?op = "if fd_events c AND NOT e \<noteq> 0 then CTL_MOD else CTL_DEL"
  have "a \<noteq> tickleFd io" using tick_free [OF K, of a] w(2) nz by (simp add: c_def)
  then have "interest (epollFd io) a = Some (fd_events c OR EPOLLET)"
    using K w(2) nz by (simp add: kernel_ok_def kernel_view_def c_def)
  then have "epoll_effect ?op (?ev OR EPOLLET) (interest (epollFd io) a) \<noteq> None"
    by (simp add: epoll_effect_def)
  then have "fst (ctl ?op a (?ev OR EPOLLET) (epollFd io))"
    using assms(2) unfolding epoll_succeeds_def by blast
  then obtain k where k: "ctl ?op a (?ev OR EPOLLET) (epollFd io) = (True, k)" by (cases "ctl ?op a (?ev OR EPOLLET) (epollFd io)") (auto simp only: fst_conv)
  let ?io = "with_kernel k io"
  have slot: "getEventContext e c = Ret \<lparr>ec_co = Some co, ec_func = None, ec_sch = Some (io_self io)\<rparr>"
    using getEventContext_slot [OF assms(4), of io a] w(4) by (simp add: c_def)
  have tr: "triggerEvent e a ?io = Ret (set_context a (release e c) (add_task (io_self io) (co_task co) ?io))"
    using w slot by (simp add: triggerEvent_def arr_get_in context_task_def co_task_def release_def flip: c_def)
  define io' where "io' = count_down (set_context a (release e c) (add_task (io_self io) (co_task co) ?io))"
  have cancel: "cancelEvent ctl fd e io = Ret (True, io')"
    using w k tr nz by (simp add: cancelEvent_def drop_event_def find_context_def io'_def Let_def flip: a_def c_def)
  have t: "triggered_of (fd_events c) e = e" "\<not> skip_report (fd_events c) e"
    using assms(4) nz by (auto simp: triggered_of_def skip_report_def epoll_bits)
  have e: "READ AND e \<noteq> 0 \<longleftrightarrow> e = READ" "WRITE AND e \<noteq> 0 \<longleftrightarrow> e = WRITE"
    using assms(4) by (auto simp: epoll_bits)
  have "idle_report ctl (FromFd a e) io = and_then (trigger_if (e = READ) READ a ?io) (trigger_if (e = WRITE) WRITE a)"
    using w(2) k t v(2) by (simp add: idle_report_def arr_get_in Let_def e flip: c_def)
  then have "idle_report ctl (FromFd a e) io = Ret io'"
    using tr assms(4) by (cases "e = READ") (simp_all add: trigger_if_def io'_def)
  moreover have "io_ok interest io'"
    using cancelEvent_ok [OF assms(1,3,4), of fd] cancel by auto
  moreover have "\<not> has_event e a io'"
    using w(2) bits_drop(3) [OF v(1) assms(4) w(3)] release_ok(2) [OF ok assms(4) w(3)]
    by (simp add: has_event_def io'_def count_down_def set_context_def)
  moreover have "sc_tasks (io_sched io') = sc_tasks (io_sched io) @ [co_task co]" "io_timers io' = io_timers io"
    "io_self io' = io_self io"
    by (simp_all add: io'_def count_down_def set_context_def add_task_def with_kernel_def M_addTask_def valid_task_def co_task_def)
  ultimately show ?thesis using cancel by (auto simp: a_def)
qed

lemma cancel_unregistered: "\<not> (0 \<le> fd \<and> nat fd < length (fdEventContexts io) \<and> has_event e (nat fd) io) \<Longrightarrow>
    cancelEvent ctl fd e io = Ret (False, io)"
  by (auto simp: cancelEvent_def drop_event_def find_context_def has_event_def Let_def)

section \<open>A call that waits\<close>

definition timer_known :: "nat option \<Rightarrow> 'k hook_world \<Rightarrow> bool" where
  "timer_known ts w \<longleftrightarrow> tm_inv (io_timers (hw_io w))
     \<and> (\<forall>a. ts = Some a \<longrightarrow> tm_heap (io_timers (hw_io w)) a \<noteq> None)"

definition with_timers :: "io_fun manager \<Rightarrow> 'k hook_world \<Rightarrow> 'k hook_world" where
  "with_timers m w = w\<lparr>hw_io := (hw_io w)\<lparr>io_timers := m\<rparr>\<rparr>"

lemma with_timers_fields [simp]:
  "hw_info (with_timers m w) = hw_info w" "io_timers (hw_io (with_timers m w)) = m"
  "io_self (hw_io (with_timers m w)) = io_self (hw_io w)" "io_sched (hw_io (with_timers m w)) = io_sched (hw_io w)"
  by (simp_all add: with_timers_def)

lemma with_timers_ok [simp]: "io_ok interest (hw_io (with_timers m w)) = io_ok interest (hw_io w)"
  by (rule io_ok_frame) (simp_all add: with_timers_def)

lemma arm_run:
  assumes "tm_inv (io_timers (hw_io w))" "io_arm now timeout tinfo fd ev w = (ts, w1)"
  shows "\<exists>m. w1 = with_timers m w" "timer_known ts w1" "ts = None \<longleftrightarrow> timeout = - 1"
proof -
  have "(\<exists>m. w1 = with_timers m w) \<and> timer_known ts w1 \<and> (ts = None \<longleftrightarrow> timeout = - 1)"
  proof (cases "timeout = - 1")
    case True
    then have "ts = None" "w1 = with_timers (io_timers (hw_io w)) w"
      using assms(2) by (simp_all add: io_arm_def with_timers_def)
    with True assms(1) show ?thesis by (auto simp: timer_known_def)
  next
    case False
    obtain a tick m where t: "addConditionTimer now timeout (CancelIo tinfo fd ev) tinfo False (io_timers (hw_io w)) = (a, tick, m)"
      by (metis prod_cases3)
    then have w1: "ts = Some a" "w1 = with_timers m w"
      using False assms(2) by (simp_all add: io_arm_def with_timers_def)
    have t': "addTimer now timeout (Guarded tinfo (CancelIo tinfo fd ev)) False (io_timers (hw_io w)) = (a, tick, m)"
      using t by (simp add: addConditionTimer_def)
    from addTimer_inv [OF assms(1) t'] have "tm_inv m" "a \<in> set (tm_timers m)" by auto
    then have "tm_heap m a \<noteq> None" by (auto simp: tm_inv_def set_ok_def live_def)
    then show ?thesis using addTimer_inv [OF assms(1) t'] w1 False by (auto simp: timer_known_def)
  qed
  then show "\<exists>m. w1 = with_timers m w" "timer_known ts w1" "ts = None \<longleftrightarrow> timeout = - 1" by simp_all
qed

lemma cancel_if_run:
  assumes "timer_known ts w"
  shows "\<exists>m. cancel_if ts w = Ret (with_timers m w) \<and> tm_inv m \<and> (\<forall>a. ts = Some a \<longrightarrow> a \<notin> set (tm_timers m))"
proof (cases ts)
  case None
  then show ?thesis using assms
    by (intro exI [of _ "io_timers (hw_io w)"]) (simp add: cancel_if_def timer_known_def with_timers_def)
next
  case (Some a)
  then obtain t where t: "tm_inv (io_timers (hw_io w))" "tm_heap (io_timers (hw_io w)) a = Some t"
    using assms by (auto simp: timer_known_def)
  from timer_cancel_run [OF this] obtain m where m: "timer_cancel a (io_timers (hw_io w)) = Some (t_cb t \<noteq> None, m)"
    "tm_inv m" "tm_timers m = remove1 a (tm_timers (io_timers (hw_io w)))" by blast
  have "distinct (tm_timers (io_timers (hw_io w)))"
    using t(1) set_ok_ordered(2) by (auto simp: tm_inv_def)
  with m Some show ?thesis by (intro exI [of _ m]) (simp add: cancel_if_def with_timers_def)
qed

text \<open>The coroutine \<open>co\<close> waits for \<open>fd\<close>, nothing has ended its wait yet.\<close>

definition pending_wait ::
  "('k \<Rightarrow> nat \<Rightarrow> 32 word option) \<Rightarrow> nat \<Rightarrow> nat option \<Rightarrow> nat \<Rightarrow> int \<Rightarrow> 32 word \<Rightarrow> 'k hook_world \<Rightarrow> bool" where
  "pending_wait interest tinfo ts co fd e w \<longleftrightarrow> io_ok interest (hw_io w) \<and> timer_known ts w
     \<and> hw_info w tinfo = Some 0 \<and> waiting co fd e (hw_io w)"

lemma wake_run:
  assumes "timer_known ts w" "hw_info w tinfo = Some c"
  shows "\<exists>m. do_io_wake ts tinfo w = Ret (if c = 0 then AtCall else Returned (- 1) c, with_timers m w)
    \<and> tm_inv m \<and> (\<forall>a. ts = Some a \<longrightarrow> a \<notin> set (tm_timers m))"
proof -
  from cancel_if_run [OF assms(1)] obtain m where "cancel_if ts w = Ret (with_timers m w)" "tm_inv m"
    "\<forall>a. ts = Some a \<longrightarrow> a \<notin> set (tm_timers m)" by blast
  with assms(2) show ?thesis by (intro exI [of _ m]) (simp add: do_io_wake_def io_wake_def)
qed

lemma call_waits:
  assumes "io_ok interest (hw_io w)" "tm_inv (io_timers (hw_io w))" "hw_info w tinfo = Some 0"
    and "e \<in> {READ, WRITE}" "fd < 2 ^ 31" "call_retry answers = Some (- 1, EAGAIN)"
    and "epoll_laws ctl interest"
    and "do_io_call ctl (Some (io_self (hw_io w))) co True now timeout tinfo fd e errno answers w = Ret (AtYield ts, w1)"
  shows "pending_wait interest tinfo ts co fd e w1" "ts = None \<longleftrightarrow> timeout = - 1"
    "io_self (hw_io w1) = io_self (hw_io w)" "io_sched (hw_io w1) = io_sched (hw_io w)"
proof -
  obtain ts' wa where arm: "io_arm now timeout tinfo fd e w = (ts', wa)" by fastforce
  from arm_run [OF assms(2) arm] obtain m where m: "wa = with_timers m w" "timer_known ts' wa"
    "ts' = None \<longleftrightarrow> timeout = - 1" by blast
  have self: "io_self (hw_io wa) = io_self (hw_io w)" by (simp add: m(1))
  from assms(6,8) arm obtain ret io where add: "addEvent ctl (Some (io_self (hw_io wa))) co True fd e None (hw_io wa) = Ret (ret, io)"
    and r: "ret = 0" "ts = ts'" "w1 = wa\<lparr>hw_io := io\<rparr>"
    by (auto simp: do_io_call_def io_register_def and_then_Ret Let_def self split: if_splits)
  have ok: "io_ok interest (hw_io wa)" using assms(1) by (simp add: m(1))
  have "0 \<le> fd" using add by (auto simp: addEvent_def open_context_def find_context_def split: if_splits)
  then have io: "io_ok interest io"
    using addEvent_ok [OF assms(7) ok assms(4) _ assms(5), of "io_self (hw_io wa)" co True None] add by auto
  note W = addEvent_waiting [OF ok assms(4,5) add [unfolded r(1)]]
  show "ts = None \<longleftrightarrow> timeout = - 1" using m(3) r(2) by simp
  show "pending_wait interest tinfo ts co fd e w1"
    using W io m(2) assms(3) by (simp add: pending_wait_def timer_known_def r m(1))
  show "io_self (hw_io w1) = io_self (hw_io w)" "io_sched (hw_io w1) = io_sched (hw_io w)"
    using W by (simp_all add: r m(1))
qed

definition timer_gone :: "nat option \<Rightarrow> 'k hook_world \<Rightarrow> bool" where
  "timer_gone ts w \<longleftrightarrow> (\<forall>a. ts = Some a \<longrightarrow> a \<notin> set (tm_timers (io_timers (hw_io w))))"

definition queued :: "nat \<Rightarrow> 'k hook_world \<Rightarrow> 'k hook_world \<Rightarrow> bool" where
  "queued co w w' \<longleftrightarrow> sc_tasks (io_sched (hw_io w')) = sc_tasks (io_sched (hw_io w)) @ [co_task co]"

lemma event_ends_wait:
  assumes "epoll_laws ctl interest" "epoll_succeeds ctl interest" "e \<in> {READ, WRITE}"
    and "pending_wait interest tinfo ts co fd e w"
  shows "\<exists>io w'. idle_report ctl (FromFd (nat fd) e) (hw_io w) = Ret io \<and> queued co w (w\<lparr>hw_io := io\<rparr>)
    \<and> do_io_wake ts tinfo (w\<lparr>hw_io := io\<rparr>) = Ret (AtCall, w') \<and> io_ok interest (hw_io w') \<and> timer_gone ts w'"
proof -
  have p: "io_ok interest (hw_io w)" "timer_known ts w" "hw_info w tinfo = Some 0" "waiting co fd e (hw_io w)"
    using assms(4) by (simp_all add: pending_wait_def)
  from cancel_waiting [OF assms(1,2) p(1) assms(3) p(4)] obtain io where
    io: "idle_report ctl (FromFd (nat fd) e) (hw_io w) = Ret io" "io_ok interest io" "io_timers io = io_timers (hw_io w)"
      "sc_tasks (io_sched io) = sc_tasks (io_sched (hw_io w)) @ [co_task co]" by blast
  have "timer_known ts (w\<lparr>hw_io := io\<rparr>)" using p(2) io(3) by (simp add: timer_known_def)
  from wake_run [OF this, of tinfo 0] p(3) obtain m where
    "do_io_wake ts tinfo (w\<lparr>hw_io := io\<rparr>) = Ret (AtCall, with_timers m (w\<lparr>hw_io := io\<rparr>))"
    "\<forall>a. ts = Some a \<longrightarrow> a \<notin> set (tm_timers m)" by auto
  with io show ?thesis
    by (intro exI [of _ io] exI [of _ "with_timers m (w\<lparr>hw_io := io\<rparr>)"]) (simp add: queued_def timer_gone_def)
qed

lemma timeout_ends_wait:
  assumes "epoll_laws ctl interest" "epoll_succeeds ctl interest" "e \<in> {READ, WRITE}"
    and "pending_wait interest tinfo ts co fd e w"
  shows "\<exists>wt w'. on_timeout ctl tinfo fd e w = Ret wt \<and> queued co w wt \<and> \<not> has_event e (nat fd) (hw_io wt)
    \<and> do_io_wake ts tinfo wt = Ret (Returned (- 1) ETIMEDOUT, w') \<and> io_ok interest (hw_io w') \<and> timer_gone ts w'"
proof -
  have p: "io_ok interest (hw_io w)" "timer_known ts w" "hw_info w tinfo = Some 0" "waiting co fd e (hw_io w)"
    using assms(4) by (simp_all add: pending_wait_def)
  from cancel_waiting [OF assms(1,2) p(1) assms(3) p(4)] obtain io where
    io: "cancelEvent ctl fd e (hw_io w) = Ret (True, io)" "io_ok interest io" "io_timers io = io_timers (hw_io w)"
      "sc_tasks (io_sched io) = sc_tasks (io_sched (hw_io w)) @ [co_task co]" "\<not> has_event e (nat fd) io" by blast
  define wt where "wt = w\<lparr>hw_info := (hw_info w)(tinfo \<mapsto> ETIMEDOUT), hw_io := io\<rparr>"
  have run: "on_timeout ctl tinfo fd e w = Ret wt" using p(3) io(1) by (simp add: on_timeout_def wt_def Let_def)
  have "timer_known ts wt" using p(2) io(3) by (simp add: timer_known_def wt_def)
  from wake_run [OF this, of tinfo ETIMEDOUT] obtain m where
    "do_io_wake ts tinfo wt = Ret (Returned (- 1) ETIMEDOUT, with_timers m wt)"
    "\<forall>a. ts = Some a \<longrightarrow> a \<notin> set (tm_timers m)" by (auto simp: wt_def ETIMEDOUT_def)
  with io run show ?thesis
    by (intro exI [of _ wt] exI [of _ "with_timers m wt"]) (simp add: queued_def timer_gone_def, simp add: wt_def)
qed

lemma timeout_lost:
  assumes "hw_info w tinfo = Some 0"
    and "\<not> (0 \<le> fd \<and> nat fd < length (fdEventContexts (hw_io w)) \<and> has_event e (nat fd) (hw_io w))"
  shows "on_timeout ctl tinfo fd e w = Ret (w\<lparr>hw_info := (hw_info w)(tinfo \<mapsto> ETIMEDOUT)\<rparr>)"
  using assms by (simp add: on_timeout_def cancel_unregistered Let_def)


definition demo_hooks :: "32 word \<Rightarrow> 64 word \<Rightarrow> io_fun manager \<Rightarrow> demo_kernel hook_world" where
  "demo_hooks ev p m = \<lparr>hw_io = (demo_ioman ev p)\<lparr>io_timers := m\<rparr>, hw_fds = Map.empty, hw_info = [0 \<mapsto> 0]\<rparr>"


end
