(* ===== verification/Threads.thy ===== *)
theory Threads
  imports Prelude
begin

text \<open>
  \<open>src/cort/include/mutex.h\<close> and \<open>src/cort/thread.cpp\<close>: the scope guards over the locks of
  the thread library, and a thread. What \<open>pthread_create\<close> and \<open>pthread_join\<close> answer is an
  argument.
\<close>

section \<open>Guards\<close>

text \<open>The calls that reach the lock: \<open>mutex\<close> has the first and the last, \<open>rwMutex\<close> the others.\<close>

datatype lock_call = Lock | Rdlock | Wrlock | Unlock

datatype guard_op = Acquire | Release

text \<open>
  A guard, with \<open>_M_locked\<close> as its state, asks for its lock with the call \<open>c\<close>. The destructor
  releases what is still held.
\<close>

fun guard_calls :: "lock_call \<Rightarrow> bool \<Rightarrow> guard_op list \<Rightarrow> lock_call list" where
  "guard_calls c locked [] = (if locked then [Unlock] else [])"
| "guard_calls c locked (Acquire # ops) =
     (if \<not> locked then c # guard_calls c True ops else guard_calls c locked ops)"
| "guard_calls c locked (Release # ops) =
     (if locked then Unlock # guard_calls c False ops else guard_calls c locked ops)"

text \<open>The three guards from their construction, which acquires, to their destruction.\<close>

definition scopedGuard :: "guard_op list \<Rightarrow> lock_call list" where
  "scopedGuard ops = guard_calls Lock False (Acquire # ops)"

definition readScopedGuard :: "guard_op list \<Rightarrow> lock_call list" where
  "readScopedGuard ops = guard_calls Rdlock False (Acquire # ops)"

definition writeScopedGuard :: "guard_op list \<Rightarrow> lock_call list" where
  "writeScopedGuard ops = guard_calls Wrlock False (Acquire # ops)"

text \<open>
  The locks as the thread library documents them, for the calls of one thread while the others
  keep what they hold: \<open>None\<close> when a call waits, for ever if nobody else lets go, or releases
  what nobody holds.
\<close>

datatype lock_state = Readers nat | Writer

fun lock_step :: "lock_call \<Rightarrow> lock_state \<Rightarrow> lock_state option" where
  "lock_step Lock s = (if s = Readers 0 then Some Writer else None)"
| "lock_step Wrlock s = (if s = Readers 0 then Some Writer else None)"
| "lock_step Rdlock (Readers n) = Some (Readers (Suc n))"
| "lock_step Rdlock Writer = None"
| "lock_step Unlock (Readers 0) = None"
| "lock_step Unlock (Readers (Suc n)) = Some (Readers n)"
| "lock_step Unlock Writer = Some (Readers 0)"

fun lock_run :: "lock_call list \<Rightarrow> lock_state \<Rightarrow> lock_state option" where
  "lock_run [] s = Some s"
| "lock_run (c # cs) s = Option.bind (lock_step c s) (lock_run cs)"

lemma lock_run_append: "lock_run (xs @ ys) s = Option.bind (lock_run xs s) (lock_run ys)"
  by (induction xs arbitrary: s) (simp_all split: Option.bind_splits)

text \<open>Whatever a guard is asked to do, the lock is as before when the guard is gone.\<close>

lemma guard_calls_run:
  assumes "lock_step c s = Some s'" "lock_step Unlock s' = Some s"
  shows "lock_run (guard_calls c locked ops) (if locked then s' else s) = Some s"
  using assms by (induction c locked ops rule: guard_calls.induct) auto

lemma guards_release:
  "lock_run (scopedGuard ops) (Readers 0) = Some (Readers 0)"
  "lock_run (readScopedGuard ops) (Readers n) = Some (Readers n)"
  "lock_run (writeScopedGuard ops) (Readers 0) = Some (Readers 0)"
  using guard_calls_run [of Lock "Readers 0" Writer True] guard_calls_run [of Rdlock "Readers n" "Readers (Suc n)" True]
    guard_calls_run [of Wrlock "Readers 0" Writer True]
  by (simp_all add: scopedGuard_def readScopedGuard_def writeScopedGuard_def)

text \<open>
  \<open>fdman::get\<close> has to let go of its read lock before it takes the write lock; within it,
  the second guard would wait for its own thread.
\<close>

lemma read_then_write:
  "lock_run (readScopedGuard [Release] @ writeScopedGuard []) (Readers 0) = Some (Readers 0)"
  "lock_run (Rdlock # writeScopedGuard []) (Readers n) = None"
  by (simp_all add: readScopedGuard_def writeScopedGuard_def)

section \<open>Threads\<close>

text \<open>\<open>th_tid\<close> has no value before the new thread runs; \<open>th_handle\<close> is \<open>None\<close> for zero.\<close>

record 'f os_thread =
  th_tid :: "int option"
  th_name :: string
  th_handle :: "nat option"
  th_func :: "'f option"

definition thread_ctor :: "nat option \<Rightarrow> 'f \<Rightarrow> string \<Rightarrow> 'f os_thread outcome" where
  "thread_ctor created func name =
     (case created of
        None \<Rightarrow> Throw ''pthread_create''
      | Some h \<Rightarrow> Ret \<lparr>th_tid = None, th_name = (if name = [] then ''unknow'' else name),
          th_handle = Some h, th_func = Some func\<rparr>)"

definition thread_join :: "bool \<Rightarrow> 'f os_thread \<Rightarrow> 'f os_thread outcome" where
  "thread_join joined t =
     (if th_handle t = None then Ret t
      else if \<not> joined then Throw ''pthread_join'' else Ret (t\<lparr>th_handle := None\<rparr>))"

text \<open>The handle the destructor detaches, if any.\<close>

definition thread_dtor :: "'f os_thread \<Rightarrow> nat option" where
  "thread_dtor t = th_handle t"

text \<open>The new thread: the name given to the system, the function it calls, and the object then.\<close>

definition thread_run :: "int \<Rightarrow> 'f os_thread \<Rightarrow> string \<times> 'f option \<times> 'f os_thread" where
  "thread_run tid t = (take 15 (th_name t), th_func t, t\<lparr>th_tid := Some tid, th_func := None\<rparr>)"

text \<open>A thread is joined or detached, never both; the scheduler can read an identifier too early.\<close>

lemma join_or_detach:
  assumes "thread_ctor (Some h) func name = Ret t"
  shows "thread_dtor t = Some h" "\<exists>t'. thread_join True t = Ret t' \<and> thread_dtor t' = None \<and> thread_join j t' = Ret t'"
    "th_tid t = None"
  using assms by (auto simp: thread_ctor_def thread_join_def thread_dtor_def)

end
