(* ===== verification/ThreadPool.thy ===== *)
theory ThreadPool
  imports Utils Steps "HOL-Library.Multiset"
begin

text \<open>
  \<open>threadPool\<close> of \<open>src/utils.h\<close>: the pool with its threads, under any interleaving. A push and
  the destructor first change the pool under the lock and then, with the lock released,
  notify; a thread that finds nothing to do sleeps on the condition until it is notified,
  or wakes for no reason.
\<close>

section \<open>State and steps\<close>

datatype 'task worker = Awake | Asleep | Executing 'task | Returned

text \<open>
  \<open>notices\<close> counts the pushes that have not notified yet, \<open>alerted\<close> says that the destructor
  has; \<open>given\<close>, \<open>taken\<close> and \<open>completed\<close> are the history of the tasks.
\<close>

record 'task pool_run =
  pool_of :: "'task pool"
  threads_num :: nat
  workers :: "'task worker list"
  notices :: nat
  alerted :: bool
  given :: "'task list"
  taken :: "'task list"
  completed :: "'task list"

definition threadPool :: "nat \<Rightarrow> 'task pool_run" where
  "threadPool n = \<lparr>pool_of = \<lparr>tasks = [], stop = False\<rparr>, threads_num = n, workers = [], notices = 0,
     alerted = False, given = [], taken = [], completed = []\<rparr>"

definition pool_start :: "'task pool_run \<Rightarrow> 'task pool_run" where
  "pool_start y = y\<lparr>workers := workers y @ replicate (threads_num y) Awake\<rparr>"

definition wake_all :: "'task worker list \<Rightarrow> 'task worker list" where
  "wake_all ws = map (\<lambda>w. if w = Asleep then Awake else w) ws"

datatype 'task pool_action = Start | Enqueue 'task | NotifyOne nat | Pass nat | EndTask nat | Wakeup nat
  | Stop | NotifyAll

text \<open>
  \<open>NotifyOne k\<close> wakes thread \<open>k\<close> if any thread sleeps. Nobody uses the pool once its destructor
  has begun.
\<close>

fun pool_do :: "'task pool_action \<Rightarrow> 'task pool_run \<Rightarrow> 'task pool_run option" where
  "pool_do Start y = (if stop (pool_of y) then None else Some (pool_start y))"
| "pool_do (Enqueue t) y = (if stop (pool_of y) then None
     else Some (y\<lparr>pool_of := pool_push t (pool_of y), notices := Suc (notices y), given := given y @ [t]\<rparr>))"
| "pool_do (NotifyOne k) y = (if notices y = 0 then None
     else if Asleep \<notin> set (workers y) then Some (y\<lparr>notices := notices y - 1\<rparr>)
     else do { w \<leftarrow> arr_get (workers y) k;
       (if w = Asleep then Some (y\<lparr>notices := notices y - 1, workers := (workers y)[k := Awake]\<rparr>) else None) })"
| "pool_do (Pass k) y = do { w \<leftarrow> arr_get (workers y) k;
     (if w \<noteq> Awake then None
      else case worker_pass (pool_of y) of
          (Wait, p) \<Rightarrow> Some (y\<lparr>pool_of := p, workers := (workers y)[k := Asleep]\<rparr>)
        | (Exit, p) \<Rightarrow> Some (y\<lparr>pool_of := p, workers := (workers y)[k := Returned]\<rparr>)
        | (Run t, p) \<Rightarrow> Some (y\<lparr>pool_of := p, workers := (workers y)[k := Executing t], taken := taken y @ [t]\<rparr>)) }"
| "pool_do (EndTask k) y = do { w \<leftarrow> arr_get (workers y) k;
     (case w of
        Executing t \<Rightarrow> Some (y\<lparr>workers := (workers y)[k := Awake], completed := completed y @ [t]\<rparr>)
      | _ \<Rightarrow> None) }"
| "pool_do (Wakeup k) y = do { w \<leftarrow> arr_get (workers y) k;
     (if w = Asleep then Some (y\<lparr>workers := (workers y)[k := Awake]\<rparr>) else None) }"
| "pool_do Stop y = (if stop (pool_of y) then None else Some (y\<lparr>pool_of := pool_stop (pool_of y)\<rparr>))"
| "pool_do NotifyAll y = (if stop (pool_of y) \<and> \<not> alerted y
     then Some (y\<lparr>alerted := True, workers := wake_all (workers y)\<rparr>) else None)"

text \<open>The destructor returns when it has joined every thread.\<close>

definition pool_joined :: "'task pool_run \<Rightarrow> bool" where
  "pool_joined y \<longleftrightarrow> alerted y \<and> (\<forall>w \<in> set (workers y). w = Returned)"

inductive pool_step :: "'task pool_run \<Rightarrow> 'task pool_run \<Rightarrow> bool" where
  pool_step: "pool_do a y = Some z \<Longrightarrow> pool_step y z"

inductive_cases pool_stepE: "pool_step y z"

fun pool_acts :: "'task pool_action list \<Rightarrow> 'task pool_run \<Rightarrow> 'task pool_run option" where
  "pool_acts [] y = Some y"
| "pool_acts (a # as) y = do { z \<leftarrow> pool_do a y; pool_acts as z }"

lemma pool_acts_run: "pool_acts as y = Some z \<Longrightarrow> pool_step\<^sup>*\<^sup>* y z"
proof (induction as arbitrary: y)
  case (Cons a as)
  then obtain x where x: "pool_do a y = Some x" "pool_acts as x = Some z" by (auto simp: bind_eq_Some_conv)
  from pool_step.intros [OF x(1)] Cons.IH [OF x(2)] show ?case by (rule converse_rtranclp_into_rtranclp)
qed simp

section \<open>Every task once, and no lost wake-up\<close>

fun task_of :: "'task worker \<Rightarrow> 'task multiset" where
  "task_of (Executing t) = {#t#}"
| "task_of _ = {#}"

definition in_hand :: "'task worker list \<Rightarrow> 'task multiset" where
  "in_hand ws = sum_list (map task_of ws)"

fun at_work :: "'task worker \<Rightarrow> bool" where
  "at_work Awake = True"
| "at_work (Executing t) = True"
| "at_work _ = False"

definition pool_inv :: "'task pool_run \<Rightarrow> bool" where
  "pool_inv y \<longleftrightarrow> given y = taken y @ tasks (pool_of y) \<and> mset (taken y) = mset (completed y) + in_hand (workers y)
     \<and> (Returned \<in> set (workers y) \<longrightarrow> stop (pool_of y) \<and> tasks (pool_of y) = [])
     \<and> (tasks (pool_of y) \<noteq> [] \<and> workers y \<noteq> [] \<longrightarrow> notices y > 0 \<or> (\<exists>w \<in> set (workers y). at_work w))
     \<and> (alerted y \<longrightarrow> stop (pool_of y) \<and> Asleep \<notin> set (workers y))"

lemma in_hand_update:
  "k < length ws \<Longrightarrow> in_hand (ws[k := w]) + task_of (ws ! k) = in_hand ws + task_of w"
proof (induction ws arbitrary: k)
  case (Cons v ws)
  then show ?case by (cases k) (auto simp: in_hand_def ac_simps)
qed simp

lemma in_hand_awake: "in_hand (wake_all ws) = in_hand ws"
  by (induction ws) (auto simp: in_hand_def wake_all_def)

lemma in_hand_replicate: "in_hand (ws @ replicate n Awake) = in_hand ws"
  by (induction n) (simp_all add: in_hand_def)

lemma asleep_all: "w \<noteq> Asleep \<Longrightarrow> w \<noteq> Returned \<Longrightarrow> at_work w"
  by (cases w) simp_all

lemma in_update_set: "k < length ws \<Longrightarrow> w \<in> set (ws[k := w])"
  by (rule set_update_memI)

lemma worker_pass_cases:
  assumes "worker_pass p = (a, q)"
  obtains "a = Wait" "q = p" "tasks p = []" "\<not> stop p"
    | "a = Exit" "q = p" "tasks p = []" "stop p"
    | t ts where "a = Run t" "q = p\<lparr>tasks := ts\<rparr>" "tasks p = t # ts"
  using assms by (cases "tasks p") (auto simp: worker_pass_def split: if_splits)

lemma pool_invD:
  assumes "pool_inv y"
  shows "given y = taken y @ tasks (pool_of y)" "mset (taken y) = mset (completed y) + in_hand (workers y)"
    "Returned \<in> set (workers y) \<Longrightarrow> stop (pool_of y)" "Returned \<in> set (workers y) \<Longrightarrow> tasks (pool_of y) = []"
    "tasks (pool_of y) \<noteq> [] \<Longrightarrow> workers y \<noteq> [] \<Longrightarrow> notices y = 0 \<Longrightarrow> \<exists>w \<in> set (workers y). at_work w"
    "alerted y \<Longrightarrow> stop (pool_of y)" "alerted y \<Longrightarrow> Asleep \<notin> set (workers y)"
  using assms unfolding pool_inv_def by auto

text \<open>A thread goes from one state to another.\<close>

lemma pool_inv_worker:
  assumes "pool_inv y" "k < length (workers y)" "workers z = (workers y)[k := w]"
    and "given z = taken z @ tasks (pool_of z)"
    and "mset (taken z) + mset (completed y) + task_of (workers y ! k) = mset (taken y) + mset (completed z) + task_of w"
    and "stop (pool_of z) = stop (pool_of y)" "alerted z = alerted y"
    and "tasks (pool_of y) = [] \<Longrightarrow> tasks (pool_of z) = []"
    and "w = Returned \<Longrightarrow> stop (pool_of y) \<and> tasks (pool_of z) = []"
    and "at_work w \<or> tasks (pool_of z) = []" "w = Asleep \<Longrightarrow> \<not> alerted y"
  shows "pool_inv z"
proof -
  note D = pool_invD [OF assms(1)]
  have old: "v = w \<or> v \<in> set (workers y)" if "v \<in> set (workers z)" for v
    using that set_update_subset_insert [of "workers y" k w] by (auto simp: assms(3))
  have "mset (taken z) + mset (completed y) + task_of (workers y ! k) + (in_hand (workers z) + task_of (workers y ! k))
      = mset (taken y) + mset (completed z) + task_of w + (in_hand (workers y) + task_of w)"
    unfolding assms(3) in_hand_update [OF assms(2)] by (simp add: assms(5))
  then have h: "mset (taken z) + mset (completed y) + task_of (workers y ! k) + (in_hand (workers y) + task_of w)
      = mset (taken y) + mset (completed z) + task_of w + (in_hand (workers z) + task_of (workers y ! k))"
    using in_hand_update [OF assms(2), of w] assms(3,5) by simp
  have "mset (taken z) = mset (completed z) + in_hand (workers z)"
  proof -
    have "mset (taken z) + (mset (completed y) + in_hand (workers y)) + (task_of (workers y ! k) + task_of w)
      = (mset (taken y) + (mset (completed z) + in_hand (workers z))) + (task_of (workers y ! k) + task_of w)"
      using h by (simp add: ac_simps)
    then show ?thesis using D(2) by simp
  qed
  moreover have "at_work w \<Longrightarrow> \<exists>v \<in> set (workers z). at_work v"
    unfolding assms(3) using set_update_memI [OF assms(2)] by blast
  ultimately show ?thesis
    unfolding pool_inv_def using assms(4,6-11) D(3,4,6,7) old by blast
qed

lemma pool_do_inv:
  assumes I: "pool_inv y" and step: "pool_do a y = Some z"
  shows "pool_inv z"
proof -
  note D = pool_invD [OF I]
  show ?thesis
  proof (cases a)
    case Start
    with step have z: "z = pool_start y" "\<not> stop (pool_of y)" by (auto split: if_splits)
    then show ?thesis using D
      by (cases "threads_num y") (auto simp: pool_inv_def pool_start_def in_hand_replicate simp del: replicate_Suc)
  next
    case (Enqueue t)
    with step show ?thesis using D by (auto simp: pool_inv_def pool_push_def split: if_splits)
  next
    case (NotifyOne k)
    show ?thesis
    proof (cases "Asleep \<in> set (workers y)")
      case True
      with step NotifyOne have "k < length (workers y)" "workers y ! k = Asleep"
        "z = y\<lparr>notices := notices y - 1, workers := (workers y)[k := Awake]\<rparr>"
        by (auto simp: bind_eq_Some_conv arr_get_Some split: if_splits)
      then show ?thesis using D by (intro pool_inv_worker [OF I, of k z Awake]) auto
    next
      case False
      with step NotifyOne have z: "z = y\<lparr>notices := notices y - 1\<rparr>" by (auto split: if_splits)
      have "\<exists>w \<in> set (workers y). at_work w" if "tasks (pool_of y) \<noteq> []" "workers y \<noteq> []"
        using that D(4) False asleep_all by (metis list.set_sel(1))
      with z I show ?thesis by (auto simp: pool_inv_def)
    qed
  next
    case (Pass k)
    with step have w: "k < length (workers y)" "workers y ! k = Awake"
      by (auto simp: bind_eq_Some_conv arr_get_Some split: if_splits)
    obtain b p where p: "worker_pass (pool_of y) = (b, p)" by fastforce
    from p show ?thesis
    proof (cases rule: worker_pass_cases)
      case 1
      then have "z = y\<lparr>pool_of := p, workers := (workers y)[k := Asleep]\<rparr>" "\<not> alerted y"
        using step Pass w p D(6) by (auto simp: arr_get_def)
      then show ?thesis using D w 1 by (intro pool_inv_worker [OF I w(1), of z Asleep]) auto
    next
      case 2
      then have "z = y\<lparr>pool_of := p, workers := (workers y)[k := Returned]\<rparr>" using step Pass w p by (simp add: arr_get_def)
      then show ?thesis using D w 2 by (intro pool_inv_worker [OF I w(1), of z Returned]) auto
    next
      case (3 t ts)
      then have "z = y\<lparr>pool_of := p, workers := (workers y)[k := Executing t], taken := taken y @ [t]\<rparr>"
        using step Pass w p by (simp add: arr_get_def)
      then show ?thesis using D w 3 by (intro pool_inv_worker [OF I w(1), of z "Executing t"]) auto
    qed
  next
    case (EndTask k)
    with step obtain w where w: "k < length (workers y)" "workers y ! k = w"
      "(case w of Executing t \<Rightarrow> Some (y\<lparr>workers := (workers y)[k := Awake], completed := completed y @ [t]\<rparr>)
        | _ \<Rightarrow> None) = Some z" by (auto simp: bind_eq_Some_conv arr_get_Some)
    from w(3) obtain t where "w = Executing t" "z = y\<lparr>workers := (workers y)[k := Awake], completed := completed y @ [t]\<rparr>"
      by (cases w) auto
    with w(1,2) D show ?thesis by (intro pool_inv_worker [OF I w(1), of z Awake]) auto
  next
    case (Wakeup k)
    with step have "k < length (workers y)" "workers y ! k = Asleep" "z = y\<lparr>workers := (workers y)[k := Awake]\<rparr>"
      by (auto simp: bind_eq_Some_conv arr_get_Some split: if_splits)
    then show ?thesis using D by (intro pool_inv_worker [OF I, of k z Awake]) auto
  next
    case Stop
    with step I show ?thesis by (auto simp: pool_inv_def pool_stop_def split: if_splits)
  next
    case NotifyAll
    with step have z: "z = y\<lparr>alerted := True, workers := wake_all (workers y)\<rparr>" "stop (pool_of y)"
      by (auto split: if_splits)
    have "Returned \<in> set (wake_all ws) \<Longrightarrow> Returned \<in> set ws" "Asleep \<notin> set (wake_all ws)"
      "\<exists>w \<in> set ws. at_work w \<Longrightarrow> \<exists>w \<in> set (wake_all ws). at_work w" "wake_all ws = [] \<longleftrightarrow> ws = []" for ws :: "'a worker list"
      by (induction ws) (auto simp: wake_all_def split: if_splits)
    with z I show ?thesis by (auto simp: pool_inv_def in_hand_awake)
  qed
qed

interpretation pool_runs: step_invariant "\<lambda>y. \<exists>n. y = threadPool n" pool_step pool_inv
proof
  fix y :: "'a pool_run" assume "\<exists>n. y = threadPool n"
  then show "pool_inv y" by (auto simp: pool_inv_def threadPool_def in_hand_def)
next
  fix y z :: "'a pool_run" assume "pool_inv y" "pool_step y z"
  then show "pool_inv z" by (auto elim!: pool_stepE intro: pool_do_inv)
qed

section \<open>The destructor\<close>

text \<open>Every move of a thread uses up some of \<open>work_left\<close>.\<close>

fun moves_of :: "'task worker \<Rightarrow> nat" where
  "moves_of Returned = 0"
| "moves_of Awake = 1"
| "moves_of (Executing t) = 2"
| "moves_of Asleep = 2"

definition work_left :: "'task pool_run \<Rightarrow> nat" where
  "work_left y = 2 * length (tasks (pool_of y)) + sum_list (map moves_of (workers y))"

fun of_thread :: "'task pool_action \<Rightarrow> bool" where
  "of_thread (Pass k) = True"
| "of_thread (EndTask k) = True"
| "of_thread (Wakeup k) = True"
| "of_thread _ = False"

lemma moves_update: "k < length ws \<Longrightarrow> sum_list (map moves_of (ws[k := w])) + moves_of (ws ! k) = sum_list (map moves_of ws) + moves_of w"
proof (induction ws arbitrary: k)
  case (Cons v ws)
  then show ?case by (cases k) (auto simp: ac_simps)
qed simp

lemma thread_progress:
  assumes "alerted y" "pool_inv y" "of_thread a" "pool_do a y = Some z"
  shows "alerted z" "work_left z < work_left y" "given z = given y" "workers z \<noteq> [] \<longleftrightarrow> workers y \<noteq> []"
proof -
  have st: "stop (pool_of y)" using pool_invD(6) [OF assms(2,1)] .
  have "alerted z \<and> work_left z < work_left y \<and> given z = given y \<and> (workers z \<noteq> [] \<longleftrightarrow> workers y \<noteq> [])"
  proof (cases a)
    case (Pass k)
    with assms(4) have w: "k < length (workers y)" "workers y ! k = Awake"
      by (auto simp: bind_eq_Some_conv arr_get_Some split: if_splits)
    obtain b p where p: "worker_pass (pool_of y) = (b, p)" by fastforce
    note u = moves_update [OF w(1)]
    from p show ?thesis
      by (cases rule: worker_pass_cases) (use assms Pass w p st u [of Returned] u [of "Executing _"] in \<open>auto simp: arr_get_def work_left_def\<close>)
  next
    case (EndTask k)
    with assms(4) obtain w where w: "k < length (workers y)" "workers y ! k = w"
      "(case w of Executing t \<Rightarrow> Some (y\<lparr>workers := (workers y)[k := Awake], completed := completed y @ [t]\<rparr>)
        | _ \<Rightarrow> None) = Some z" by (auto simp: bind_eq_Some_conv arr_get_Some)
    with assms(1) moves_update [OF w(1), of Awake] show ?thesis by (cases w) (auto simp: work_left_def)
  next
    case (Wakeup k)
    with assms(4) have "k < length (workers y)" "workers y ! k = Asleep"
      by (auto simp: bind_eq_Some_conv arr_get_Some split: if_splits)
    then have "Asleep \<in> set (workers y)" by (metis nth_mem)
    with pool_invD(7) [OF assms(2,1)] show ?thesis by simp
  qed (use assms(3) in simp_all)
  then show "alerted z" "work_left z < work_left y" "given z = given y" "workers z \<noteq> [] \<longleftrightarrow> workers y \<noteq> []" by blast+
qed

lemma thread_can_move:
  assumes "alerted y" "pool_inv y" "\<not> pool_joined y"
  shows "\<exists>a z. of_thread a \<and> pool_do a y = Some z"
proof -
  obtain k where k: "k < length (workers y)" "workers y ! k \<noteq> Returned"
    using assms(1,3) by (auto simp: pool_joined_def in_set_conv_nth)
  show ?thesis
  proof (cases "workers y ! k")
    case Awake
    have "\<exists>z. pool_do (Pass k) y = Some z"
      using k Awake by (cases "worker_pass (pool_of y)"; cases "fst (worker_pass (pool_of y))") (auto simp: arr_get_def)
    then show ?thesis using of_thread.simps(1) by blast
  next
    case (Executing t)
    with k have "\<exists>z. pool_do (EndTask k) y = Some z" by (simp add: arr_get_def)
    then show ?thesis using of_thread.simps(2) by blast
  next
    case Asleep
    with k have "Asleep \<in> set (workers y)" by (metis nth_mem)
    with pool_invD(7) [OF assms(2,1)] show ?thesis by simp
  qed (use k in simp)
qed

lemma all_returned: "\<forall>w \<in> set ws. w = Returned \<Longrightarrow> in_hand ws = {#}"
  by (induction ws) (auto simp: in_hand_def)

lemma joined_done:
  assumes "pool_inv y" "pool_joined y" "workers y \<noteq> []"
  shows "tasks (pool_of y) = []" "mset (completed y) = mset (given y)" "taken y = given y"
proof -
  have "Returned \<in> set (workers y)" using assms(2,3) by (auto simp: pool_joined_def neq_Nil_conv)
  then show "tasks (pool_of y) = []" by (rule pool_invD(4) [OF assms(1)])
  with pool_invD(1,2) [OF assms(1)] all_returned [of "workers y"] assms(2)
  show "taken y = given y" "mset (completed y) = mset (given y)" by (simp_all add: pool_joined_def)
qed

lemma threads_end:
  assumes "alerted y" "pool_inv y" "\<forall>a \<in> set as. of_thread a" "pool_acts as y = Some z"
  shows "length as + work_left z \<le> work_left y \<and> alerted z \<and> given z = given y
    \<and> (workers z \<noteq> [] \<longleftrightarrow> workers y \<noteq> []) \<and> pool_inv z"
  using assms
proof (induction as arbitrary: y)
  case (Cons a as)
  then obtain x where x: "pool_do a y = Some x" "pool_acts as x = Some z" "of_thread a" by (auto simp: bind_eq_Some_conv)
  note t = thread_progress [OF Cons.prems(1,2) x(3,1)]
  have "length as + work_left z \<le> work_left x \<and> alerted z \<and> given z = given x
    \<and> (workers z \<noteq> [] \<longleftrightarrow> workers x \<noteq> []) \<and> pool_inv z"
    by (rule Cons.IH [OF t(1) pool_do_inv [OF Cons.prems(2) x(1)] _ x(2)]) (use Cons.prems(3) in simp)
  with t show ?case by auto
qed simp

lemma threads_return:
  assumes "alerted y" "pool_inv y"
  shows "\<exists>as z. (\<forall>a \<in> set as. of_thread a) \<and> pool_acts as y = Some z \<and> pool_joined z"
  using assms
proof (induction y rule: measure_induct_rule [where f = work_left])
  case (less y)
  show ?case
  proof (cases "pool_joined y")
    case True
    then show ?thesis by (intro exI [of _ "[]"]) simp
  next
    case False
    then obtain a x where x: "of_thread a" "pool_do a y = Some x" using thread_can_move less.prems by blast
    note t = thread_progress [OF less.prems x]
    obtain as z where "\<forall>a \<in> set as. of_thread a" "pool_acts as x = Some z" "pool_joined z"
      using less.IH [OF t(2,1) pool_do_inv [OF less.prems(2) x(2)]] by blast
    with x show ?thesis by (intro exI [of _ "a # as"]) auto
  qed
qed

section \<open>Properties\<close>

text \<open>
  C23. The thread pool, in every run of its threads, of pushes and of the destructor: the tasks
  are taken in the order they were pushed, each once, and each is waiting, in the hands of a
  thread, or finished; no wake-up is lost: while tasks wait, some thread is awake or a push is
  about to notify. Once the destructor has notified, the threads make at most \<open>work_left\<close> more
  moves, can always go on until all have been joined, and then every task has been executed,
  unless the pool was never started.
\<close>
theorem pool_executes_all:
  assumes "pool_step\<^sup>*\<^sup>* (threadPool n) y"
  shows "given y = taken y @ tasks (pool_of y) \<and> mset (taken y) = mset (completed y) + in_hand (workers y)
    \<and> (tasks (pool_of y) \<noteq> [] \<and> workers y \<noteq> [] \<and> notices y = 0 \<longrightarrow> (\<exists>w \<in> set (workers y). at_work w))
    \<and> (alerted y \<longrightarrow> (\<forall>as z. (\<forall>a \<in> set as. of_thread a) \<and> pool_acts as y = Some z \<longrightarrow>
         length as \<le> work_left y
         \<and> (pool_joined z \<or> (\<exists>a. of_thread a \<and> pool_do a z \<noteq> None))
         \<and> (pool_joined z \<and> workers y \<noteq> [] \<longrightarrow> mset (completed z) = mset (given y))))"
proof -
  have I: "pool_inv y" using pool_runs.reach_inv assms by blast
  have "length as \<le> work_left y \<and> (pool_joined z \<or> (\<exists>a. of_thread a \<and> pool_do a z \<noteq> None))
      \<and> (pool_joined z \<and> workers y \<noteq> [] \<longrightarrow> mset (completed z) = mset (given y))"
    if "alerted y" "\<forall>a \<in> set as. of_thread a" "pool_acts as y = Some z" for as z
    using threads_end [OF that(1) I that(2,3)] thread_can_move [of z] joined_done(2) [of z] by auto
  with pool_invD(1,2,5) [OF I] show ?thesis by blast
qed

text \<open>Two threads, three tasks, and the destructor before any of them is done.\<close>

definition three_tasks :: "int pool_action list" where
  "three_tasks = [Start, Pass 0, Enqueue 7, NotifyOne 0, Enqueue 8, Pass 0, Enqueue 9, Pass 1, Stop, NotifyAll]"

definition three_ends :: "int pool_action list" where
  "three_ends = [EndTask 1, EndTask 0, Pass 1, Pass 0, EndTask 1, Pass 1]"

lemma three_tasks_run:
  "map_option (\<lambda>y. (given y, completed y, alerted y, workers y,
       map_option (\<lambda>z. (alerted z, workers z, completed z)) (pool_acts three_ends y))) (pool_acts three_tasks (threadPool 2))
     = Some ([7, 8, 9], [], True, [Executing 7, Executing 8], Some (True, [Returned, Returned], [8, 7, 9]))"
  by code_simp

theorem pool_executes_all_witness:
  "\<exists>y z. pool_step\<^sup>*\<^sup>* (threadPool 2) y \<and> given y = [7, 8, 9 :: int] \<and> completed y = [] \<and> alerted y
    \<and> pool_acts three_ends y = Some z \<and> pool_joined z \<and> length three_ends \<le> work_left y
    \<and> mset (completed z) = mset (given y)"
proof -
  obtain y z where y: "pool_acts three_tasks (threadPool 2) = Some y" "given y = [7, 8, 9]" "completed y = []" "alerted y"
    "workers y = [Executing 7, Executing 8]" and z: "pool_acts three_ends y = Some z" "alerted z" "workers z = [Returned, Returned]"
    using three_tasks_run by auto
  have j: "pool_joined z" using z by (simp add: pool_joined_def)
  have t: "\<forall>a \<in> set three_ends. of_thread a" by (simp add: three_ends_def)
  have "length three_ends \<le> work_left y \<and> mset (completed z) = mset (given y)"
    using pool_executes_all [OF pool_acts_run [OF y(1)]] y(4,5) z(1) j t by (metis list.distinct(1))
  with y z(1) j pool_acts_run [OF y(1)] show ?thesis by blast
qed

end
