(* ===== verification/StoreCarry.thy ===== *)
theory StoreCarry
  imports LogIdentity
begin

text \<open>
  What the nodes pass on: every command in a log, in a call or in a message was executed by
  some leader, and every snapshot in a file, in a call or in a message is what reading back a
  snapshot file gave. \<open>P\<close> is a property of commands, \<open>Q\<close> of snapshots as they are read.
\<close>

section \<open>The snapshot file\<close>

definition read_back :: "string \<Rightarrow> string" where
  "read_back w = snd (extract_word w [])"

definition two_files :: "persister \<Rightarrow> bool" where
  "two_files p \<longleftrightarrow> stateFile p \<noteq> snapshotFile p"

definition shot_of :: "persister \<Rightarrow> string" where
  "shot_of p = snd (loadSnapshot p [])"

lemma read_back_Nil [simp]: "read_back [] = []"
  by (simp add: read_back_def extract_word_def)

lemma read_back_idem [simp]: "read_back (read_back w) = read_back w"
proof -
  define v where "v = takeWhile (\<lambda>c. \<not> is_space c) (dropWhile is_space w)"
  have sp: "\<not> is_space c" if "c \<in> set v" for c using that set_takeWhileD unfolding v_def by fastforce
  have r: "read_back w = v" 
    by (cases "dropWhile is_space w") (simp_all add: read_back_def extract_word_def v_def Let_def del: dropWhile_eq_Nil_conv)
  have "dropWhile is_space v = v" using sp by (cases v) auto
  moreover have "takeWhile (\<lambda>c. \<not> is_space c) v = v" using sp by (simp add: takeWhile_eq_all_conv)
  ultimately show ?thesis unfolding r by (simp add: read_back_def extract_word_def Let_def)
qed

lemma two_files_persist [simp]:
  "two_files (persist_state st p) = two_files p" "two_files (persist_both st sh p) = two_files p"
  by (simp_all add: two_files_def persist_state_def persist_both_def M_persistState_def M_persistSnapshot_def)

lemma shot_persist:
  "two_files p \<Longrightarrow> shot_of (persist_state st p) = shot_of p"
  "two_files p \<Longrightarrow> shot_of (persist_both st sh p) \<in> {shot_of p, read_back sh}"
  by (auto simp: two_files_def shot_of_def loadSnapshot_def load_file_def read_back_def persist_state_def
      persist_both_def M_persistState_def M_persistSnapshot_def write_file_def)

lemma shot_both:
  assumes "two_files p" "q = p \<or> (\<exists>w. q = persist_both w sh p)"
  shows "two_files q" "shot_of q = shot_of p \<or> shot_of q = read_back sh"
proof -
  have "shot_of (persist_both w sh p) \<in> {shot_of p, read_back sh}" for w by (rule shot_persist(2) [OF assms(1)])
  with assms(2) show "shot_of q = shot_of p \<or> shot_of q = read_back sh" by blast
  show "two_files q" using assms by (elim disjE exE) simp_all
qed

section \<open>Nodes\<close>

definition node_carries :: "(string \<Rightarrow> bool) \<Rightarrow> (string \<Rightarrow> bool) \<Rightarrow> raft_state \<Rightarrow> bool" where
  "node_carries P Q s \<longleftrightarrow> (\<forall>e \<in> set (logs s). P (entry_command e)) \<and> two_files (pstr s) \<and> Q (shot_of (pstr s))"

definition msg_carries :: "(string \<Rightarrow> bool) \<Rightarrow> (string \<Rightarrow> bool) \<Rightarrow> apply_message \<Rightarrow> bool" where
  "msg_carries P Q m \<longleftrightarrow> (validCommand m \<longrightarrow> P (command m)) \<and> (validSnapshot m \<longrightarrow> \<not> validCommand m \<and> Q (snapshot m))"

text \<open>A step that persists the state only.\<close>

definition same_shot :: "raft_state \<Rightarrow> raft_state \<Rightarrow> bool" where
  "same_shot s t \<longleftrightarrow> (two_files (pstr s) \<longrightarrow> two_files (pstr t) \<and> shot_of (pstr t) = shot_of (pstr s))"

lemma carries_grows:
  assumes "node_carries P Q s" "grows E s t" "same_shot s t" "\<forall>e \<in> E. P (entry_command e)"
  shows "node_carries P Q t"
  using assms by (auto simp: node_carries_def grows_def same_shot_def)

lemma pstr_persist [node_simps]: "pstr (M_persist S s) = persist_state (M_dump S s) (pstr s)"
  "pstr (M_identityChange S idn t v s)
     = persist_state (M_dump S (s\<lparr>identity := idn, cur_term := t, vote4 := v\<rparr>)) (pstr s)"
  by (simp_all add: M_persist_def M_identityChange_def)

lemma same_shot_steps:
  "L_stand4Election S now s = (ts, t) \<Longrightarrow> same_shot s t"
  "L_heartBeat now s = Some (ts, t) \<Longrightarrow> same_shot s t"
  "L_requestVote S now va s = (vr, t) \<Longrightarrow> same_shot s t"
  "L_sendRequestVote S dst va rpcv num s = Some (b, num', ts, t) \<Longrightarrow> same_shot s t"
  "sendSnapshot_reply S now dst sa rpcs s = Some t \<Longrightarrow> same_shot s t"
  by (auto simp: same_shot_def shot_persist node_simps Let_def bind_eq_Some_conv L_stand4Election_def L_heartBeat_def
      L_requestVote_def L_sendRequestVote_def sendSnapshot_reply_def split: if_splits option.splits)

lemma same_shot_more:
  "M_getApplyMessages s = Ret (msgs, t) \<Longrightarrow> same_shot s t"
  "same_shot s (snd (raft_execute S c s))"
  by (auto simp: same_shot_def shot_persist node_simps Let_def of_opt_def M_getApplyMessages_def raft_execute_def
      split: if_splits option.splits dest!: getApply_loop_fields)

lemma same_shot_append_reply:
  "L_sendAppendEntries S now dst a rpc num s = Ret (b, num', t) \<Longrightarrow> same_shot s t"
  by (auto simp: L_sendAppendEntries_def same_shot_def shot_persist node_simps and_then_Ret of_opt_def Let_def
      arr_set_def arr_get_def split: option.splits if_splits)

lemma same_shot_append: "L_appendEntries S now a s = Ret (r, t) \<Longrightarrow> same_shot s t"
proof (cases "aa_term a < cur_term s")
  case False
  assume "L_appendEntries S now a s = Ret (r, t)"
  from appendEntries_leaves [OF this False] show ?thesis
    by (auto simp: same_shot_def shot_persist followed_def node_simps dest!: put_entries_fields)
qed (simp add: L_appendEntries_def same_shot_def)

lemma persist_carries:
  assumes "node_carries P Q s" "core s" "raft_persist S index shot s = Some (b, t)" "Q (read_back shot)"
  shows "node_carries P Q t"
proof -
  have "set (logs t) \<subseteq> set (logs s)" using persist_grows [OF assms(2,3), of "{}"] by (simp add: grows_def)
  moreover have "pstr t = pstr s \<or> (\<exists>w. pstr t = persist_both w shot (pstr s))"
    using assms(3) by (auto simp: raft_persist_def bind_eq_Some_conv Let_def split: if_splits)
  ultimately show ?thesis using assms(1,4) shot_both [of "pstr s" "pstr t" shot] by (auto simp: node_carries_def)
qed

lemma install_pstr:
  assumes "L_installSnapshot S now a s = Some (r, ts, t)"
  obtains p where "p = pstr s \<or> (\<exists>v. p = persist_state v (pstr s))"
    "pstr t = p \<or> (\<exists>w. pstr t = persist_both w (sa_data a) p)"
proof -
  let ?f = "if sa_term a > cur_term s then M_identityChange S FOLLOWER (sa_term a) (- 1) s else s"
  have "pstr ?f = pstr s \<or> (\<exists>v. pstr ?f = persist_state v (pstr s))" by (auto simp: node_simps)
  moreover have "pstr t = pstr ?f \<or> pstr t = pstr s \<or> (\<exists>w. pstr t = persist_both w (sa_data a) (pstr ?f))"
    using assms unfolding L_installSnapshot_def Let_def by (auto simp: bind_eq_Some_conv split: if_splits)
  ultimately show ?thesis using that by blast
qed

lemma install_carries:
  assumes "node_carries P Q s" "core s" "snapshot_ok a" "L_installSnapshot S now a s = Some (r, ts, t)"
    and "Q (sa_data a)" "read_back (sa_data a) = sa_data a"
  shows "node_carries P Q t" "x \<in> set ts \<Longrightarrow> \<exists>m. x = PushMessage m \<and> msg_carries P Q m"
proof -
  have "set (logs t) \<subseteq> set (logs s)" using install_grows [OF assms(2-4), of "{}"] by (simp add: grows_def)
  moreover obtain p where p: "p = pstr s \<or> (\<exists>v. p = persist_state v (pstr s))"
    and t: "pstr t = p \<or> (\<exists>w. pstr t = persist_both w (sa_data a) p)"
    by (rule install_pstr [OF assms(4)])
  moreover have "two_files (pstr s)" using assms(1) by (simp add: node_carries_def)
  then have "two_files p" "shot_of p = shot_of (pstr s)" using p by (auto simp: shot_persist)
  ultimately show "node_carries P Q t" 
    using assms(1,5,6) shot_both [OF _ t] by (auto simp: node_carries_def)
  show "x \<in> set ts \<Longrightarrow> \<exists>m. x = PushMessage m \<and> msg_carries P Q m"
    using assms(4,5)
    by (auto simp: L_installSnapshot_def bind_eq_Some_conv Let_def msg_carries_def snapshot_message_def
        split: if_splits)
qed

lemma getApply_loop_msgs:
  "getApply_loop s m = Some (m', t) \<Longrightarrow> x \<in> set m' \<Longrightarrow>
    x \<in> set m \<or> (\<exists>e \<in> set (logs s). \<exists>i. x = command_message True i (entry_command e))"
proof (induction s m rule: getApply_loop.induct)
  case (1 s m)
  show ?case
  proof (cases "appliedIndex s < commitIndex s")
    case True
    let ?s = "s\<lparr>appliedIndex := appliedIndex s + 1\<rparr>"
    obtain e where e: "arr_geti (logs ?s) (M_getSlicesIndexFromLogIndex ?s (appliedIndex ?s)) = Some e"
      using 1(2) True by (auto simp: getApply_loop.simps [of s m] bind_eq_Some_conv Let_def)
    with 1(2) True have "getApply_loop ?s (m @ [command_message True (word_of_int (appliedIndex ?s)) (entry_command e)])
        = Some (m', t)" by (simp add: getApply_loop.simps [of s m] Let_def)
    moreover have "e \<in> set (logs s)" using e by (auto simp: arr_geti_Some)
    ultimately show ?thesis using 1(1) [OF True refl e _ 1(3)] by auto
  qed (use 1(2,3) in \<open>simp add: getApply_loop.simps [of s m]\<close>)
qed

lemma applier_carries:
  assumes "node_carries P Q s" "M_getApplyMessages s = Ret (msgs, t)" "m \<in> set msgs"
  shows "msg_carries P Q m"
  using assms getApply_loop_msgs [of s "[]" msgs t m]
  by (auto simp: M_getApplyMessages_def of_opt_def node_carries_def msg_carries_def command_message_def
      split: if_splits option.splits)

section \<open>The cluster\<close>

fun thread_carries :: "(string \<Rightarrow> bool) \<Rightarrow> (string \<Rightarrow> bool) \<Rightarrow> thread \<Rightarrow> bool" where
  "thread_carries P Q (AppendCall src dst a r) = (\<forall>e \<in> set (aa_entries a). P (entry_command e))"
| "thread_carries P Q (SnapshotCall src dst a) = Q (sa_data a)"
| "thread_carries P Q (PushThread src m) = msg_carries P Q m"
| "thread_carries P Q _ = True"

definition cluster_carries :: "(string \<Rightarrow> bool) \<Rightarrow> (string \<Rightarrow> bool) \<Rightarrow> cluster \<Rightarrow> bool" where
  "cluster_carries P Q c \<longleftrightarrow> (\<forall>s \<in> set (nodes c). node_carries P Q s) \<and> (\<forall>th \<in> set (threads c). thread_carries P Q th)
     \<and> (\<forall>q \<in> set (applying c) \<union> set (chans c). \<forall>m \<in> set q. msg_carries P Q m)"

lemma carries_node: "cluster_carries P Q c \<Longrightarrow> i < length (nodes c) \<Longrightarrow> node_carries P Q (nodes c ! i)"
  by (simp add: cluster_carries_def)

lemma carries_thread: "cluster_carries P Q c \<Longrightarrow> k < length (threads c) \<Longrightarrow> thread_carries P Q (threads c ! k)"
  by (simp add: cluster_carries_def)

lemma carries_queue:
  "cluster_carries P Q c \<Longrightarrow> q \<in> set (applying c) \<or> q \<in> set (chans c) \<Longrightarrow> m \<in> set q \<Longrightarrow> msg_carries P Q m"
  by (auto simp: cluster_carries_def)

lemma in_update: "x \<in> set (xs[i := y]) \<Longrightarrow> x = y \<or> x \<in> set xs"
  using set_update_subset_insert by fastforce

lemma carries_move:
  assumes "cluster_carries P Q c" "nodes c' = (nodes c)[i := t]" "node_carries P Q t"
    and "\<And>th. th \<in> set (threads c') \<Longrightarrow> th \<in> set (threads c) \<or> thread_carries P Q th"
    and "\<And>q m. q \<in> set (applying c') \<or> q \<in> set (chans c') \<Longrightarrow> m \<in> set q \<Longrightarrow>
      msg_carries P Q m \<or> (\<exists>p. (p \<in> set (applying c) \<or> p \<in> set (chans c)) \<and> m \<in> set p)"
  shows "cluster_carries P Q c'"
  unfolding cluster_carries_def
proof (intro conjI ballI)
  fix s assume "s \<in> set (nodes c')"
  then show "node_carries P Q s" using assms(1-3) in_update by (fastforce simp: cluster_carries_def)
next
  fix th assume "th \<in> set (threads c')"
  then show "thread_carries P Q th" using assms(1,4) by (auto simp: cluster_carries_def)
next
  fix q m assume "q \<in> set (applying c') \<union> set (chans c')" "m \<in> set q"
  then show "msg_carries P Q m" using assms(5) carries_queue [OF assms(1)] by blast
qed

text \<open>Thread \<open>k\<close> goes on and node \<open>i\<close> moves.\<close>

lemma carries_proceed:
  assumes "cluster_carries P Q c" "nodes c' = (nodes c)[i := t]" "threads c' = (threads c)[k := th] @ new"
    "applying c' = applying c" "chans c' = chans c"
    and "node_carries P Q t" "thread_carries P Q th" "\<forall>x \<in> set new. thread_carries P Q x"
  shows "cluster_carries P Q c'"
  by (rule carries_move [OF assms(1,2,6)]) (use assms(3-5,7,8) in_update [of _ "threads c" k th] in auto)

text \<open>What the tasks of a round carry.\<close>

lemma spawn_carries:
  assumes "\<And>x. x \<in> set ts \<Longrightarrow> case x of SendAppendEntries dst a r \<Rightarrow> \<forall>e \<in> set (aa_entries a). P (entry_command e)
    | PushMessage m \<Rightarrow> msg_carries P Q m | _ \<Rightarrow> True"
  shows "\<forall>x \<in> set (map (spawn i r) ts). thread_carries P Q x"
proof
  fix y assume "y \<in> set (map (spawn i r) ts)"
  then obtain x where x: "x \<in> set ts" "y = spawn i r x" by auto
  with assms [OF x(1)] show "thread_carries P Q y" by (cases x) simp_all
qed

lemma heartBeat_spawns:
  assumes "core s" "L_heartBeat now s = Some (ts, t)" "node_carries P Q s"
  shows "\<forall>x \<in> set (map (spawn i r) ts). thread_carries P Q x"
proof (rule spawn_carries)
  fix x assume "x \<in> set ts"
  from heartBeat_sends_core [OF assms(1,2) this] assms(3)
  show "case x of SendAppendEntries dst a r \<Rightarrow> \<forall>e \<in> set (aa_entries a). P (entry_command e)
    | PushMessage m \<Rightarrow> msg_carries P Q m | _ \<Rightarrow> True" by (auto simp: node_carries_def subset_iff)
qed

lemma stand_spawns:
  "L_stand4Election S now s = (ts, t) \<Longrightarrow> \<forall>x \<in> set (map (spawn i r) ts). thread_carries P Q x"
  by (rule spawn_carries) (auto simp: L_stand4Election_def Let_def split: if_splits)

lemma vote_spawns:
  "L_sendRequestVote S dst a rpc num s = Some (b, num', ts, t) \<Longrightarrow> \<forall>x \<in> set (map (spawn i r) ts). thread_carries P Q x"
  by (rule spawn_carries) (use sendRequestVote_vote(3) in fastforce)

lemma install_spawns:
  assumes "\<And>x. x \<in> set ts \<Longrightarrow> \<exists>m. x = PushMessage m \<and> msg_carries P Q m"
  shows "\<forall>x \<in> set (map (spawn i r) ts). thread_carries P Q x"
  by (rule spawn_carries) (use assms in fastforce)

lemma thread_step_carries:
  assumes C: "cluster_carries P Q c" and L: "log_inv n (B, c)" and len: "length (nodes c) = n"
    and k: "k < length (threads c)" and R: "\<And>w. Q w \<Longrightarrow> read_back w = w"
    and step: "thread_step S now k ok (threads c ! k) c = Some c'"
  shows "cluster_carries P Q c'"
proof -
  have core: "core (nodes c ! i)" if "i < n" for i using L that by (simp add: log_inv_def)
  have node: "node_carries P Q (nodes c ! i)" if "i < n" for i using carries_node [OF C] that len by simp
  note move = carries_grows [OF node _ _ ballI]
  show ?thesis
  proof (cases "threads c ! k")
    case (VoteCall src dst a r)
    with step len obtain rp t y where x: "dst < n" "L_requestVote S now a (nodes c ! dst) = (rp, t)"
      "c' = proceed k (VoteBack src dst a r y) dst (if ok then t else nodes c ! dst) [] c"
      by (cases "L_requestVote S now a (nodes c ! dst)") (auto simp: bind_eq_Some_conv arr_get_Some split: if_splits)
    have "node_carries P Q t"
      by (rule move [OF x(1) requestVote_grows [OF core [OF x(1)] x(2), of "{}"] same_shot_steps(3) [OF x(2)]]) simp
    then show ?thesis using x node
      by (intro carries_proceed [OF C, where i = dst and t = "if ok then t else nodes c ! dst"])
        (auto simp: proceed_def)
  next
    case (VoteBack src dst a r rpc)
    with step len obtain b num ts t where x: "src < n"
      "L_sendRequestVote S dst a (if ok then rpc else None) (voteNum c r) (nodes c ! src) = Some (b, num, ts, t)"
      "c' = (proceed k Finished src t (map (spawn src r) ts) c)\<lparr>voteNum := (voteNum c)(r := num)\<rparr>"
      by (auto simp: bind_eq_Some_conv arr_get_Some)
    have "node_carries P Q t"
      by (rule move [OF x(1) sendRequestVote_grows [OF core [OF x(1)] x(2), of "{}"] same_shot_steps(4) [OF x(2)]]) simp
    then show ?thesis using x vote_spawns [OF x(2)] by (intro carries_proceed [OF C]) (auto simp: proceed_def)
  next
    case (AppendCall src dst a r)
    have a: "a \<in> flying (threads c)" using flying_at [OF k AppendCall] .
    then have ok_a: "args_ok a" using L by (simp add: log_inv_def)
    have P: "\<forall>e \<in> set (aa_entries a). P (entry_command e)" using carries_thread [OF C k] AppendCall by simp
    from step AppendCall len obtain t y where x: "dst < n" "c' = proceed k (AppendBack src dst a r y) dst t [] c"
      "t = nodes c ! dst \<or> (\<exists>rp. L_appendEntries S now a (nodes c ! dst) = Ret (rp, t))"
      by (auto simp: bind_eq_Some_conv arr_get_Some split: if_splits outcome.splits)
    have "node_carries P Q t"
      using x(3) node [OF x(1)] move [OF x(1) append_grows [OF core [OF x(1)] ok_a] same_shot_append] P by blast
    then show ?thesis using x(2) by (intro carries_proceed [OF C]) (auto simp: proceed_def)
  next
    case (AppendBack src dst a r rpc)
    with step len obtain b num t where x: "src < n"
      "L_sendAppendEntries S now dst a (if ok then rpc else None) (appendNum c r) (nodes c ! src) = Ret (b, num, t)"
      "c' = (proceed k Finished src t [] c)\<lparr>appendNum := (appendNum c)(r := num)\<rparr>"
      by (auto simp: bind_eq_Some_conv arr_get_Some split: outcome.splits)
    have "node_carries P Q t"
      by (rule move [OF x(1) sendAppendEntries_grows [OF core [OF x(1)] x(2), of "{}"] same_shot_append_reply [OF x(2)]]) simp
    then show ?thesis using x(3) by (intro carries_proceed [OF C]) (auto simp: proceed_def)
  next
    case (SnapshotStart src dst)
    with step len have x: "src < n" "c' = proceed k (SnapshotCall src dst (sendSnapshot_args (nodes c ! src))) src (nodes c ! src) [] c"
      by (auto simp: bind_eq_Some_conv arr_get_Some)
    have "Q (sa_data (sendSnapshot_args (nodes c ! src)))"
      using node [OF x(1)] by (simp add: sendSnapshot_args_def node_carries_def shot_of_def)
    then show ?thesis using x(2) node [OF x(1)]
      by (intro carries_proceed [OF C, where i = src]) (auto simp: proceed_def)
  next
    case (SnapshotCall src dst a)
    have a: "snapshot_ok a" using snapping_at [OF k SnapshotCall] L by (simp add: log_inv_def)
    have q: "Q (sa_data a)" using carries_thread [OF C k] SnapshotCall by simp
    show ?thesis
    proof (cases ok)
      case True
      with step SnapshotCall len obtain rp ts t where x: "dst < n" "L_installSnapshot S now a (nodes c ! dst) = Some (rp, ts, t)"
        "c' = proceed k (SnapshotBack src dst a (Some rp)) dst t (map (spawn dst 0) ts) c"
        by (auto simp: bind_eq_Some_conv arr_get_Some)
      note i = install_carries [OF node [OF x(1)] core [OF x(1)] a x(2) q R [OF q]]
      show ?thesis using x(3) i(1) install_spawns [of ts P Q dst 0, OF i(2)]
        by (intro carries_proceed [OF C]) (auto simp: proceed_def)
    next
      case False
      with step SnapshotCall len have x: "dst < n" "c' = proceed k (SnapshotBack src dst a None) dst (nodes c ! dst) [] c"
        by (auto simp: bind_eq_Some_conv arr_get_Some)
      then show ?thesis using node [OF x(1)]
        by (intro carries_proceed [OF C, where i = dst]) (auto simp: proceed_def)
    qed
  next
    case (SnapshotBack src dst a rpc)
    with step len obtain t where x: "src < n"
      "sendSnapshot_reply S now dst a (if ok then rpc else None) (nodes c ! src) = Some t" "c' = proceed k Finished src t [] c"
      by (auto simp: bind_eq_Some_conv arr_get_Some)
    have "node_carries P Q t"
      by (rule move [OF x(1) sendSnapshot_grows [OF core [OF x(1)] x(2), of "{}"] same_shot_steps(5) [OF x(2)]]) simp
    then show ?thesis using x(3) by (intro carries_proceed [OF C]) (auto simp: proceed_def)
  next
    case (BeatThread src)
    with step len obtain ts t where x: "src < n" "L_heartBeat now (nodes c ! src) = Some (ts, t)"
      "c' = begin_round src t ts (c\<lparr>threads := (threads c)[k := Finished]\<rparr>)"
      by (auto simp: bind_eq_Some_conv arr_get_Some)
    have "node_carries P Q t"
      by (rule move [OF x(1) heartBeat_grows [OF core [OF x(1)] x(2), of "{}"] same_shot_steps(2) [OF x(2)]]) simp
    then show ?thesis using x(3) heartBeat_spawns [OF core [OF x(1)] x(2) node [OF x(1)], of src "rounds c"]
      by (intro carries_proceed [OF C, where th = Finished]) (auto simp: begin_round_def)
  next
    case (PushThread src m)
    with step obtain q where x: "src < length (chans c)"
      "c' = c\<lparr>chans := (chans c)[src := M_pushMessage m (chans c ! src)], threads := (threads c)[k := Finished]\<rparr>"
      by (auto simp: bind_eq_Some_conv arr_get_Some)
    have m: "msg_carries P Q m" using carries_thread [OF C k] PushThread by simp
    have n: "thread_carries P Q th" if "th \<in> set (threads c')" for th
      using that C in_update [of th "threads c" k Finished] by (auto simp: x(2) cluster_carries_def)
    have "chans c ! src \<in> set (chans c)" using x(1) by simp
    then have old: "msg_carries P Q y" if "y = m \<or> y \<in> set (chans c ! src)" for y
      using that m carries_queue [OF C] by blast
    have q: "msg_carries P Q y" if "p \<in> set (chans c')" "y \<in> set p" for p y
      using that old [of y] carries_queue [OF C, of p y]
      by (auto simp: x(2) M_pushMessage_def sq_push_def dest!: in_update)
    have "nodes c' = nodes c" "applying c' = applying c" using x(2) by simp_all
    with n q C show ?thesis unfolding cluster_carries_def by auto
  qed (use step in simp)
qed

text \<open>What an action hands to a node, if anything.\<close>

fun action_carries :: "serial \<Rightarrow> (string \<Rightarrow> bool) \<Rightarrow> (string \<Rightarrow> bool) \<Rightarrow> action \<Rightarrow> bool" where
  "action_carries S P Q (Execute i c) = P (op_dump (out_op S) c)"
| "action_carries S P Q (TakeSnapshot i index shot) = Q (read_back shot)"
| "action_carries S P Q _ = True"

lemma cluster_step_carries:
  assumes C: "cluster_carries P Q c" and L: "log_inv n (B, c)" and len: "length (nodes c) = n"
    and R: "\<And>w. Q w \<Longrightarrow> read_back w = w" and A: "action_carries S P Q a"
    and step: "cluster_step S now a c = Some c'"
  shows "cluster_carries P Q c'"
proof -
  have core: "core (nodes c ! i)" if "i < n" for i using L that by (simp add: log_inv_def)
  have node: "node_carries P Q (nodes c ! i)" if "i < n" for i using carries_node [OF C] that len by simp
  note move = carries_grows [OF node _ _ ballI]
  show ?thesis
  proof (cases a)
    case (Elect i)
    obtain ts t where x: "L_stand4Election S now (nodes c ! i) = (ts, t)" by fastforce
    with step Elect len have i: "i < n" "c' = begin_round i t ts c" by (auto simp: bind_eq_Some_conv arr_get_Some)
    have "node_carries P Q t"
      by (rule move [OF i(1) stand_grows [OF core [OF i(1)] x, of "{}"] same_shot_steps(1) [OF x]]) simp
    then show ?thesis using i(2) stand_spawns [OF x, of i "rounds c" P Q]
      by (intro carries_move [OF C, where i = i]) (auto simp: begin_round_def)
  next
    case (Tick i)
    with step len obtain ts t where x: "i < n" "L_heartBeat now (nodes c ! i) = Some (ts, t)" "c' = begin_round i t ts c"
      by (auto simp: bind_eq_Some_conv arr_get_Some)
    have "node_carries P Q t"
      by (rule move [OF x(1) heartBeat_grows [OF core [OF x(1)] x(2), of "{}"] same_shot_steps(2) [OF x(2)]]) simp
    then show ?thesis using x(3) heartBeat_spawns [OF core [OF x(1)] x(2) node [OF x(1)], of i "rounds c"]
      by (intro carries_move [OF C, where i = i]) (auto simp: begin_round_def)
  next
    case (Execute i opt)
    with step len have x: "i < n" "c' = c\<lparr>nodes := (nodes c)[i := snd (raft_execute S opt (nodes c ! i))]\<rparr>"
      by (auto simp: bind_eq_Some_conv arr_get_Some)
    have "node_carries P Q (snd (raft_execute S opt (nodes c ! i)))"
      using node [OF x(1)] A same_shot_more(2) [of "nodes c ! i" S opt]
      by (auto simp: node_carries_def same_shot_def Execute raft_execute_def Let_def node_simps)
    then show ?thesis using x(2) by (intro carries_move [OF C, where i = i]) auto
  next
    case (TakeSnapshot i index shot)
    with step len obtain b t where x: "i < n" "raft_persist S index shot (nodes c ! i) = Some (b, t)"
      "c' = c\<lparr>nodes := (nodes c)[i := t]\<rparr>" by (auto simp: bind_eq_Some_conv arr_get_Some)
    have "node_carries P Q t"
      by (rule persist_carries [OF node [OF x(1)] core [OF x(1)] x(2)]) (use A TakeSnapshot in simp)
    then show ?thesis using x(3) by (intro carries_move [OF C, where i = i]) auto
  next
    case (ApplyMsgs i)
    with step len obtain m t where x: "i < n" "M_getApplyMessages (nodes c ! i) = Ret (m, t)"
      "c' = c\<lparr>nodes := (nodes c)[i := t], applying := (applying c)[i := m]\<rparr>"
      by (auto simp: bind_eq_Some_conv arr_get_Some split: outcome.splits if_splits)
    have "node_carries P Q t"
      by (rule move [OF x(1) applier_grows [OF core [OF x(1)] x(2), of "{}"] same_shot_more(1) [OF x(2)]]) simp
    then show ?thesis using x(3) applier_carries [OF node [OF x(1)] x(2)]
      by (intro carries_move [OF C, where i = i]) (auto dest!: in_update)
  next
    case (PushMsg i)
    with step obtain m r where x: "i < length (applying c)" "i < length (chans c)" "applying c ! i = m # r"
      "c' = c\<lparr>applying := (applying c)[i := r], chans := (chans c)[i := sq_push m (chans c ! i)]\<rparr>"
      by (auto simp: bind_eq_Some_conv arr_get_Some neq_Nil_conv split: list.splits)
    have "applying c ! i \<in> set (applying c)" "chans c ! i \<in> set (chans c)" using x(1,2) by simp_all
    then have old: "msg_carries P Q y" if "y \<in> set (m # r) \<or> y \<in> set (chans c ! i)" for y
      using that carries_queue [OF C] unfolding x(3) by blast
    have "msg_carries P Q y" if "q \<in> set (applying c') \<or> q \<in> set (chans c')" "y \<in> set q" for q y
      using that old [of y] carries_queue [OF C, of q y] by (auto simp: x(4) sq_push_def dest!: in_update)
    with C x(4) show ?thesis by (auto simp: cluster_carries_def)
  next
    case (TakeMsg i)
    with step obtain m r where x: "i < length (chans c)" "chans c ! i = m # r" "c' = c\<lparr>chans := (chans c)[i := r]\<rparr>"
      by (auto simp: bind_eq_Some_conv arr_get_Some sq_pop_def split: list.splits)
    have "chans c ! i \<in> set (chans c)" using x(1) by simp
    then have old: "msg_carries P Q y" if "y \<in> set (m # r)" for y
      using that carries_queue [OF C] unfolding x(2) by blast
    have "msg_carries P Q y" if "q \<in> set (applying c') \<or> q \<in> set (chans c')" "y \<in> set q" for q y
      using that old [of y] carries_queue [OF C, of q y] by (auto simp: x(3) dest!: in_update)
    with C x(3) show ?thesis by (auto simp: cluster_carries_def)
  next
    case (RunThread k ok)
    with step have "k < length (threads c)" "thread_step S now k ok (threads c ! k) c = Some c'"
      by (auto simp: bind_eq_Some_conv arr_get_Some)
    then show ?thesis by (intro thread_step_carries [OF C L len _ R])
  qed
qed

end
