(* ===== verification/Store.thy ===== *)
theory Store
  imports ClusterProps KvCalls StoreCarry
begin

text \<open>
  The whole store: the cluster of nodes with its threads and network, a key-value server on
  every node, the put and get calls its clients have in flight, and the message loops. The
  node and the channel a server uses are those of the cluster; \<open>view\<close> and \<open>set_server\<close> read
  and write them.
\<close>

section \<open>State\<close>

datatype get_call = GetWaiting get_args raft_state "raft_state list" | GetReplied get_args get_reply bool

text \<open>\<open>issued\<close> is the history of the put calls made so far.\<close>

record store =
  net :: cluster
  servers :: "kv_server list"
  puts :: "(nat \<times> put_call) list"
  gets :: "(nat \<times> get_call) list"
  issued :: "put_args list"

definition view :: "nat \<Rightarrow> store \<Rightarrow> kv_server option" where
  "view i st = do {
     s \<leftarrow> arr_get (servers st) i;
     r \<leftarrow> arr_get (nodes (net st)) i;
     q \<leftarrow> arr_get (chans (net st)) i;
     Some (s\<lparr>raftNode := r, applyChan := q\<rparr>) }"

definition set_server :: "nat \<Rightarrow> kv_server \<Rightarrow> store \<Rightarrow> store" where
  "set_server i s st = st\<lparr>servers := (servers st)[i := s],
     net := (net st)\<lparr>nodes := (nodes (net st))[i := raftNode s], chans := (chans (net st))[i := applyChan s]\<rparr>\<rparr>"

section \<open>Steps\<close>

text \<open>
  What can happen next: an action of the nodes and their threads, a new put call or the next
  critical section of one, a new get call, a wake-up of its wait or its end, and a round of
  the message loop of a server. Commands, snapshots and messages taken reach the nodes only
  through their servers.
\<close>

fun internal :: "action \<Rightarrow> bool" where
  "internal (Execute i c) = False"
| "internal (TakeSnapshot i index shot) = False"
| "internal (TakeMsg i) = False"
| "internal _ = True"

datatype store_action = Node action | CallPut nat put_args | StepPut nat bool
  | CallGet nat get_args | WakeGet nat | RunGet nat | NextMessage nat

fun store_step :: "kv_serial \<Rightarrow> op \<Rightarrow> int \<Rightarrow> store_action \<Rightarrow> store \<Rightarrow> store option" where
  "store_step K u now (Node a) st =
     (if internal a then do { c \<leftarrow> cluster_step (ser K) now a (net st); Some (st\<lparr>net := c\<rparr>) } else None)"
| "store_step K u now (CallPut i args) st = do {
     s \<leftarrow> view i st;
     Some (st\<lparr>puts := puts st @ [(i, PutCalled args)], issued := issued st @ [args]\<rparr>) }"
| "store_step K u now (StepPut k timeout) st = do {
     (i, c) \<leftarrow> arr_get (puts st) k;
     s \<leftarrow> view i st;
     (c, s) \<leftarrow> put_step K timeout c s;
     Some ((set_server i s st)\<lparr>puts := (puts st)[k := (i, c)]\<rparr>) }"
| "store_step K u now (CallGet i args) st = do {
     s \<leftarrow> view i st;
     Some (st\<lparr>gets := gets st @ [(i, GetWaiting args (raftNode s) [])]\<rparr>) }"
| "store_step K u now (WakeGet k) st = do {
     (i, g) \<leftarrow> arr_get (gets st) k;
     s \<leftarrow> view i st;
     (case g of
        GetWaiting args r obs \<Rightarrow>
          Some (st\<lparr>gets := (gets st)[k := (i, GetWaiting args r (obs @ [raftNode s]))]\<rparr>)
      | GetReplied args reply sent \<Rightarrow> None) }"
| "store_step K u now (RunGet k) st = do {
     (i, g) \<leftarrow> arr_get (gets st) k;
     s \<leftarrow> view i st;
     (case g of
        GetWaiting args r obs \<Rightarrow> do {
          (reply, sent, s) \<leftarrow> L_get args r obs s;
          Some ((set_server i s st)\<lparr>gets := (gets st)[k := (i, GetReplied args reply sent)]\<rparr>) }
      | GetReplied args reply sent \<Rightarrow> None) }"
| "store_step K u now (NextMessage i) st = do {
     s \<leftarrow> view i st;
     (msg, q) \<leftarrow> sq_pop (applyChan s);
     (case handle_message K u msg (s\<lparr>applyChan := q\<rparr>) of
        Ret s \<Rightarrow> Some (set_server i s st)
      | _ \<Rightarrow> None) }"

inductive sstep :: "kv_serial \<Rightarrow> op \<Rightarrow> store \<Rightarrow> store \<Rightarrow> bool" for K u where
  sstep: "store_step K u now a st = Some st' \<Longrightarrow> sstep K u st st'"

inductive_cases sstepE: "sstep K u st st'"

fun run_store :: "kv_serial \<Rightarrow> op \<Rightarrow> store_action list \<Rightarrow> store \<Rightarrow> store option" where
  "run_store K u [] st = Some st"
| "run_store K u (a # as) st = do { st \<leftarrow> store_step K u 0 a st; run_store K u as st }"

lemma run_store_reaches: "run_store K u as st = Some st' \<Longrightarrow> (sstep K u)\<^sup>*\<^sup>* st st'"
proof (induction as arbitrary: st)
  case (Cons a as)
  then obtain t where t: "store_step K u 0 a st = Some t" "run_store K u as t = Some st'"
    by (auto simp: bind_eq_Some_conv)
  from sstep.intros [OF t(1)] Cons.IH [OF t(2)] show ?case by (rule converse_rtranclp_into_rtranclp)
qed simp

text \<open>A store whose servers have just been constructed on new files.\<close>

definition server_start :: "kv_serial \<Rightarrow> nat \<Rightarrow> nat \<Rightarrow> kv_server \<Rightarrow> bool" where
  "server_start K n i s \<longleftrightarrow> i < n \<and> (\<exists>now bits fs w maxSize content. w (state_path i) \<and> w (snapshot_path i)
     \<and> length (read_nodes (load_config content Map.empty) 0) = n
     \<and> kvServer_ctor K now bits fs w (int i) maxSize content = Ret s)"

definition store_start :: "kv_serial \<Rightarrow> nat \<Rightarrow> store \<Rightarrow> bool" where
  "store_start K n st \<longleftrightarrow> length (servers st) = n \<and> (\<forall>i < n. server_start K n i (servers st ! i))
     \<and> nodes (net st) = map raftNode (servers st) \<and> applying (net st) = replicate n []
     \<and> chans (net st) = replicate n [] \<and> threads (net st) = []
     \<and> puts st = [] \<and> gets st = [] \<and> issued st = []"

section \<open>A run of the store is a run of its cluster\<close>

lemma view_Some:
  assumes "view i st = Some s"
  shows "i < length (servers st)" "i < length (nodes (net st))" "i < length (chans (net st))"
    "s = (servers st ! i)\<lparr>raftNode := nodes (net st) ! i, applyChan := chans (net st) ! i\<rparr>"
  using assms by (auto simp: view_def bind_eq_Some_conv arr_get_Some)

lemma set_server_fields [simp]:
  "puts (set_server i s st) = puts st" "gets (set_server i s st) = gets st" "issued (set_server i s st) = issued st"
  "servers (set_server i s st) = (servers st)[i := s]"
  by (simp_all add: set_server_def)

text \<open>The cases of a step.\<close>

lemma step_StepPut:
  assumes "store_step K u now (StepPut k timeout) st = Some st'"
  obtains i c d s t where "k < length (puts st)" "puts st ! k = (i, c)" "view i st = Some s"
    "put_step K timeout c s = Some (d, t)" "st' = (set_server i t st)\<lparr>puts := (puts st)[k := (i, d)]\<rparr>"
proof -
  obtain i c d s t where x: "arr_get (puts st) k = Some (i, c)" "view i st = Some s" "put_step K timeout c s = Some (d, t)"
    "st' = (set_server i t st)\<lparr>puts := (puts st)[k := (i, d)]\<rparr>" using assms by (auto simp: bind_eq_Some_conv)
  have "k < length (puts st)" "puts st ! k = (i, c)" using x(1) by (simp_all add: arr_get_Some)
  with x(2-4) show ?thesis by (intro that)
qed

lemma step_WakeGet:
  assumes "store_step K u now (WakeGet k) st = Some st'"
  obtains i g s where "view i st = Some s" "st' = st\<lparr>gets := (gets st)[k := (i, g)]\<rparr>"
    "\<And>args reply sent. g \<noteq> GetReplied args reply sent"
proof -
  obtain i g s where g: "arr_get (gets st) k = Some (i, g)" "view i st = Some s"
    using assms by (auto simp: bind_eq_Some_conv)
  then show ?thesis using assms that by (cases g) auto
qed

lemma step_RunGet:
  assumes "store_step K u now (RunGet k) st = Some st'"
  obtains i args r obs s reply sent t where "view i st = Some s" "L_get args r obs s = Some (reply, sent, t)"
    "st' = (set_server i t st)\<lparr>gets := (gets st)[k := (i, GetReplied args reply sent)]\<rparr>"
proof -
  obtain i g s where g: "arr_get (gets st) k = Some (i, g)" "view i st = Some s"
    using assms by (auto simp: bind_eq_Some_conv)
  then show ?thesis using assms that by (cases g) (auto simp: bind_eq_Some_conv)
qed

lemma step_NextMessage:
  assumes "store_step K u now (NextMessage i) st = Some st'"
  obtains s m q t where "view i st = Some s" "sq_pop (applyChan s) = Some (m, q)"
    "handle_message K u m (s\<lparr>applyChan := q\<rparr>) = Ret t" "st' = set_server i t st"
proof -
  obtain s m q where y: "view i st = Some s" "sq_pop (applyChan s) = Some (m, q)"
    "(case handle_message K u m (s\<lparr>applyChan := q\<rparr>) of Ret s \<Rightarrow> Some (set_server i s st) | _ \<Rightarrow> None) = Some st'"
    using assms by (auto simp: bind_eq_Some_conv)
  then show ?thesis using that by (cases "handle_message K u m (s\<lparr>applyChan := q\<rparr>)") auto
qed

text \<open>What the calls and the message loop do to the node and to the channel.\<close>

lemma put_step_node:
  assumes "put_step K timeout c s = Some (d, t)"
  shows "applyChan t = applyChan s" "table_data t = table_data s"
    "raftNode t = raftNode s \<or> (\<exists>a. c = PutCalled a \<and> raftNode t = snd (raft_execute (ser K) (put_op a) (raftNode s)))"
    "PutCalled a \<noteq> d"
  using assms
  by (cases c; auto simp: bind_eq_Some_conv Let_def case_prod_beta split: if_splits option.splits)+

lemma get_node:
  assumes "L_get args r obs s = Some (reply, sent, t)"
  shows "applyChan t = applyChan s" "table_data t = table_data s" "raftNode t = raftNode s"
  using assms
  by (auto simp: L_get_def L_executeGetOp_def bind_eq_Some_conv Let_def case_prod_beta split: if_splits)

lemma load_node:
  "kv_M_load K w s = Ret t \<Longrightarrow> applyChan t = applyChan s \<and> raftNode t = raftNode s"
  by (auto simp: kv_M_load_def and_then_Ret of_opt_def split: if_splits option.splits)

lemma put_op_node:
  "L_executePutOp c s = Some t \<Longrightarrow> applyChan t = applyChan s \<and> raftNode t = raftNode s"
  by (auto simp: L_executePutOp_def bind_eq_Some_conv)

lemma snapshot_node:
  "L_maySnapshot K index s = Some t \<Longrightarrow> applyChan t = applyChan s \<and> table_data t = table_data s
     \<and> (raftNode t = raftNode s \<or> (\<exists>shot b. kv_M_dump K s = Some shot
        \<and> raft_persist (ser K) index shot (raftNode s) = Some (b, raftNode t)))"
  by (auto simp: L_maySnapshot_def bind_eq_Some_conv split: if_splits)

lemma push_node:
  "L_tryPush2Wait c index s = Some (b, t) \<Longrightarrow> applyChan t = applyChan s \<and> table_data t = table_data s
     \<and> raftNode t = raftNode s"
  by (auto simp: L_tryPush2Wait_def bind_eq_Some_conv split: option.splits)

definition executes :: "kv_serial \<Rightarrow> op \<Rightarrow> apply_message \<Rightarrow> kv_server \<Rightarrow> kv_server \<Rightarrow> bool" where
  "executes K u msg s t \<longleftrightarrow> t = s \<or> validCommand msg
     \<and> (\<exists>b c. op_load (in_op (ser K)) u (command msg) = Some (b, c) \<and> L_executePutOp c s = Some t)"

lemma handle_parts:
  assumes "handle_message K u msg s = Ret t"
  obtains s1 s2 s3 where "executes K u msg s s1"
    "s2 = s1 \<or> (\<exists>i. L_maySnapshot K i s1 = Some s2)"
    "s3 = s2 \<or> (\<exists>c i b. L_tryPush2Wait c i s2 = Some (b, s3))"
    "t = s3 \<or> validSnapshot msg \<and> (\<exists>s4 i. kv_M_load K (snapshot msg) s3 = Ret s4
        \<and> t = s4\<lparr>lastSnapshotCommandIndex := i\<rparr>)"
proof -
  obtain s3 where s3: "(if validCommand msg then L_executeCommand K u msg s else Ret s) = Ret s3"
    "(if validSnapshot msg then kv_L_installSnapshot K msg s3 else Ret s3) = Ret t"
    using assms by (auto simp: handle_message_def and_then_Ret)
  have t: "t = s3 \<or> validSnapshot msg \<and> (\<exists>s4 i. kv_M_load K (snapshot msg) s3 = Ret s4
      \<and> t = s4\<lparr>lastSnapshotCommandIndex := i\<rparr>)"
    using s3(2) by (auto simp: kv_L_installSnapshot_def and_then_Ret split: if_splits)
  show ?thesis
  proof (cases "validCommand msg \<and> \<not> commandIndex msg \<le> word_of_int (lastSnapshotCommandIndex s)")
    case True
    with s3(1) obtain b c s1 s2 b' where x: "op_load (in_op (ser K)) u (command msg) = Some (b, c)"
      "(if \<not> L_duplicateRequest (oclientId c) (orequestId c) s \<and> operation c = Put
        then L_executePutOp c s else Some s) = Some s1" "L_maySnapshot K (to_int (commandIndex msg)) s1 = Some s2"
      "L_tryPush2Wait c (to_int (commandIndex msg)) s2 = Some (b', s3)"
      by (auto simp: L_executeCommand_def and_then_Ret of_opt_def split: option.splits)
    with True have "executes K u msg s s1" by (auto simp: executes_def split: if_splits)
    with x(3,4) t that show ?thesis by blast
  next
    case False
    then have "s3 = s" using s3(1) by (auto simp: L_executeCommand_def split: if_splits)
    with t that [of s s s] show ?thesis by (simp add: executes_def)
  qed
qed

lemma executes_node: "executes K u msg s t \<Longrightarrow> applyChan t = applyChan s \<and> raftNode t = raftNode s"
  by (auto simp: executes_def dest!: put_op_node)

lemma handle_node:
  assumes "handle_message K u msg s = Ret t"
  shows "applyChan t = applyChan s" "raftNode t = raftNode s
    \<or> (\<exists>i shot b s1. executes K u msg s s1 \<and> kv_M_dump K s1 = Some shot
         \<and> raft_persist (ser K) i shot (raftNode s) = Some (b, raftNode t))"
proof -
  obtain s1 s2 s3 where x: "executes K u msg s s1"
    "s2 = s1 \<or> (\<exists>i. L_maySnapshot K i s1 = Some s2)"
    "s3 = s2 \<or> (\<exists>c i b. L_tryPush2Wait c i s2 = Some (b, s3))"
    "t = s3 \<or> validSnapshot msg \<and> (\<exists>s4 i. kv_M_load K (snapshot msg) s3 = Ret s4
        \<and> t = s4\<lparr>lastSnapshotCommandIndex := i\<rparr>)"
    by (rule handle_parts [OF assms])
  note e = executes_node [OF x(1)]
  have t: "applyChan t = applyChan s2 \<and> raftNode t = raftNode s2"
    using x(3,4) by (auto dest!: push_node load_node)
  then show "applyChan t = applyChan s" using x(2) e by (auto dest!: snapshot_node)
  show "raftNode t = raftNode s \<or> (\<exists>i shot b s1. executes K u msg s s1 \<and> kv_M_dump K s1 = Some shot
      \<and> raft_persist (ser K) i shot (raftNode s) = Some (b, raftNode t))"
    using x(1,2) e t snapshot_node by (metis (no_types, lifting))
qed

text \<open>The actions of the cluster behind an action of the store.\<close>

lemma set_server_net:
  assumes "view i st = Some s" "applyChan t = applyChan s" "raftNode t = raftNode s"
  shows "net (set_server i t st) = net st"
  using assms view_Some [OF assms(1)] by (simp add: set_server_def)

definition allows :: "kv_serial \<Rightarrow> op \<Rightarrow> store \<Rightarrow> action \<Rightarrow> bool" where
  "allows K u st b \<longleftrightarrow> internal b \<or> (\<exists>i. b = TakeMsg i)
     \<or> (\<exists>i args. b = Execute i (put_op args) \<and> (i, PutCalled args) \<in> set (puts st))
     \<or> (\<exists>i j shot s m q s1. b = TakeSnapshot i j shot \<and> view i st = Some s \<and> sq_pop (applyChan s) = Some (m, q)
          \<and> executes K u m (s\<lparr>applyChan := q\<rparr>) s1 \<and> kv_M_dump K s1 = Some shot)"

lemma step_actions:
  assumes "store_step K u now a st = Some st'"
  shows "\<exists>bs. run_schedule (ser K) (map (Pair now) bs) (net st) = Some (net st') \<and> (\<forall>b \<in> set bs. allows K u st b)"
proof (cases a)
  case (Node b)
  with assms show ?thesis
    by (intro exI [of _ "[b]"]) (auto simp: bind_eq_Some_conv allows_def split: if_splits)
next
  case (CallPut i args)
  with assms show ?thesis by (intro exI [of _ "[]"]) (auto simp: bind_eq_Some_conv)
next
  case (StepPut k timeout)
  obtain i c d s t where x: "view i st = Some s" "put_step K timeout c s = Some (d, t)"
    "net st' = net (set_server i t st)" "k < length (puts st)" "puts st ! k = (i, c)"
    by (rule step_StepPut [OF assms [unfolded StepPut]]) auto
  have p: "(i, c) \<in> set (puts st)" using x(4,5) by (metis nth_mem)
  note n = put_step_node [OF x(2)]
  from n(3) show ?thesis
  proof
    assume "raftNode t = raftNode s"
    with set_server_net [OF x(1) n(1)] x(3) show ?thesis by (intro exI [of _ "[]"]) simp
  next
    assume "\<exists>a. c = PutCalled a \<and> raftNode t = snd (raft_execute (ser K) (put_op a) (raftNode s))"
    then obtain a where r: "c = PutCalled a" "raftNode t = snd (raft_execute (ser K) (put_op a) (raftNode s))" by blast
    have "cluster_step (ser K) now (Execute i (put_op a)) (net st) = Some (net st')"
      using view_Some [OF x(1)] n(1) r(2) by (simp add: x(3) set_server_def arr_get_def)
    with r(1) p show ?thesis by (intro exI [of _ "[Execute i (put_op a)]"]) (auto simp: allows_def)
  qed
next
  case (CallGet i args)
  with assms show ?thesis by (intro exI [of _ "[]"]) (auto simp: bind_eq_Some_conv)
next
  case (WakeGet k)
  show ?thesis by (rule step_WakeGet [OF assms [unfolded WakeGet]], intro exI [of _ "[]"]) simp
next
  case (RunGet k)
  obtain i args r obs s reply sent t where x: "view i st = Some s"
    "L_get args r obs s = Some (reply, sent, t)" "net st' = net (set_server i t st)"
    by (rule step_RunGet [OF assms [unfolded RunGet]]) auto
  with set_server_net [OF x(1) get_node(1) [OF x(2)] get_node(3) [OF x(2)]] show ?thesis
    by (intro exI [of _ "[]"]) simp
next
  case (NextMessage i)
  obtain s m q t where y: "view i st = Some s" "sq_pop (applyChan s) = Some (m, q)"
    and x: "handle_message K u m (s\<lparr>applyChan := q\<rparr>) = Ret t" "st' = set_server i t st"
    by (rule step_NextMessage [OF assms [unfolded NextMessage]])
  let ?c = "(net st)\<lparr>chans := (chans (net st))[i := q]\<rparr>"
  note v = view_Some [OF y(1)] and n = handle_node [OF x(1)]
  have c: "cluster_step (ser K) now (TakeMsg i) (net st) = Some ?c" using v y(2) by (simp add: arr_get_def)
  from n(2) show ?thesis
  proof
    assume "raftNode t = raftNode (s\<lparr>applyChan := q\<rparr>)"
    then have "net st' = ?c" using n(1) v by (simp add: x(2) set_server_def)
    with c show ?thesis by (intro exI [of _ "[TakeMsg i]"]) (simp add: allows_def)
  next
    assume "\<exists>j shot b s1. executes K u m (s\<lparr>applyChan := q\<rparr>) s1 \<and> kv_M_dump K s1 = Some shot
      \<and> raft_persist (ser K) j shot (raftNode (s\<lparr>applyChan := q\<rparr>)) = Some (b, raftNode t)"
    then obtain j shot b s1 where p: "executes K u m (s\<lparr>applyChan := q\<rparr>) s1" "kv_M_dump K s1 = Some shot"
      "raft_persist (ser K) j shot (nodes (net st) ! i) = Some (b, raftNode t)" using v by auto
    then have "cluster_step (ser K) now (TakeSnapshot i j shot) ?c = Some (net st')"
      using n(1) v by (simp add: x(2) set_server_def arr_get_def)
    with c have "run_schedule (ser K) (map (Pair now) [TakeMsg i, TakeSnapshot i j shot]) (net st) = Some (net st')"
      by simp
    moreover have "allows K u st (TakeSnapshot i j shot)" using y(1,2) p(1,2) unfolding allows_def by blast
    moreover have "allows K u st (TakeMsg i)" by (simp add: allows_def)
    ultimately show ?thesis by (intro exI [of _ "[TakeMsg i, TakeSnapshot i j shot]"]) simp
  qed
qed

lemma run_projects: "(sstep K u)\<^sup>*\<^sup>* st st' \<Longrightarrow> (cstep (ser K))\<^sup>*\<^sup>* (net st) (net st')"
proof (induction rule: rtranclp_induct)
  case (step y z)
  then show ?case using step_actions run_schedule_reaches by (meson sstepE rtranclp_trans)
qed simp

text \<open>The servers an action changes.\<close>

lemma step_servers:
  assumes "store_step K u now a st = Some st'" "t \<in> set (servers st')"
  shows "t \<in> set (servers st) \<or> (\<exists>i s. view i st = Some s \<and> (table_data t = table_data s
      \<or> (\<exists>m q. sq_pop (applyChan s) = Some (m, q) \<and> handle_message K u m (s\<lparr>applyChan := q\<rparr>) = Ret t)))"
proof -
  have upd: "t = x \<or> t \<in> set (servers st)" if "servers st' = (servers st)[i := x]" for i x
    using assms(2) that by (auto dest!: in_update)
  show ?thesis
  proof (cases a)
    case (StepPut k timeout)
    obtain i c d s x where x: "view i st = Some s" "put_step K timeout c s = Some (d, x)"
      "servers st' = (servers st)[i := x]" by (rule step_StepPut [OF assms(1) [unfolded StepPut]]) auto
    with upd [OF x(3)] put_step_node(2) [OF x(2)] show ?thesis by auto
  next
    case (RunGet k)
    obtain i args r obs s reply sent x where x: "view i st = Some s"
      "L_get args r obs s = Some (reply, sent, x)" "servers st' = (servers st)[i := x]"
      by (rule step_RunGet [OF assms(1) [unfolded RunGet]]) auto
    with upd [OF x(3)] get_node(2) [OF x(2)] show ?thesis by auto
  next
    case (NextMessage i)
    obtain s m q x where x: "view i st = Some s" "sq_pop (applyChan s) = Some (m, q)"
      "handle_message K u m (s\<lparr>applyChan := q\<rparr>) = Ret x" "servers st' = (servers st)[i := x]"
      by (rule step_NextMessage [OF assms(1) [unfolded NextMessage]]) auto
    with upd [OF x(4)] show ?thesis by auto
  next
    case (WakeGet k)
    have "servers st' = servers st" by (rule step_WakeGet [OF assms(1) [unfolded WakeGet]]) simp
    with assms(2) show ?thesis by simp
  qed (use assms in \<open>auto simp: bind_eq_Some_conv split: if_splits\<close>)
qed

text \<open>The calls an action changes.\<close>

lemma step_puts:
  assumes "store_step K u now a st = Some st'" "(i, PutCalled args) \<in> set (puts st')"
  shows "(i, PutCalled args) \<in> set (puts st) \<or> args \<in> set (issued st')"
proof (cases a)
  case (StepPut k timeout)
  obtain j c d s t where x: "put_step K timeout c s = Some (d, t)" "puts st' = (puts st)[k := (j, d)]"
    by (rule step_StepPut [OF assms(1) [unfolded StepPut]]) auto
  with assms(2) put_step_node(4) [OF x(1)] show ?thesis by (auto dest!: in_update)
next
  case (WakeGet k)
  have "puts st' = puts st" by (rule step_WakeGet [OF assms(1) [unfolded WakeGet]]) simp
  with assms(2) show ?thesis by simp
next
  case (RunGet k)
  have "puts st' = puts st" by (rule step_RunGet [OF assms(1) [unfolded RunGet]]) simp
  with assms(2) show ?thesis by simp
next
  case (NextMessage j)
  have "puts st' = puts st" by (rule step_NextMessage [OF assms(1) [unfolded NextMessage]]) simp
  with assms(2) show ?thesis by simp
qed (use assms in \<open>auto simp: bind_eq_Some_conv split: if_splits\<close>)

lemma step_gets:
  assumes "store_step K u now a st = Some st'" "(i, GetReplied args reply sent) \<in> set (gets st')"
  shows "(i, GetReplied args reply sent) \<in> set (gets st)
    \<or> (\<exists>j s r obs t. view j st = Some s \<and> L_get args r obs s = Some (reply, sent, t))"
proof (cases a)
  case (RunGet k)
  obtain j ga r obs s y b t where x: "view j st = Some s" "L_get ga r obs s = Some (y, b, t)"
    "gets st' = (gets st)[k := (j, GetReplied ga y b)]" by (rule step_RunGet [OF assms(1) [unfolded RunGet]]) auto
  with assms(2) show ?thesis by (auto dest!: in_update)
next
  case (WakeGet k)
  obtain j g where "gets st' = (gets st)[k := (j, g)]" "g \<noteq> GetReplied args reply sent"
    by (rule step_WakeGet [OF assms(1) [unfolded WakeGet]]) auto
  with assms(2) show ?thesis by (auto dest!: in_update)
next
  case (StepPut k timeout)
  have "gets st' = gets st" by (rule step_StepPut [OF assms(1) [unfolded StepPut]]) simp
  with assms(2) show ?thesis by simp
next
  case (NextMessage j)
  have "gets st' = gets st" by (rule step_NextMessage [OF assms(1) [unfolded NextMessage]]) simp
  with assms(2) show ?thesis by simp
qed (use assms in \<open>auto simp: bind_eq_Some_conv split: if_splits\<close>)

lemma step_issued:
  assumes "store_step K u now a st = Some st'"
  shows "set (issued st) \<subseteq> set (issued st')"
proof (cases a)
  case (StepPut k timeout)
  show ?thesis by (rule step_StepPut [OF assms [unfolded StepPut]]) simp
next
  case (WakeGet k)
  show ?thesis by (rule step_WakeGet [OF assms [unfolded WakeGet]]) simp
next
  case (RunGet k)
  show ?thesis by (rule step_RunGet [OF assms [unfolded RunGet]]) simp
next
  case (NextMessage j)
  show ?thesis by (rule step_NextMessage [OF assms [unfolded NextMessage]]) simp
qed (use assms in \<open>auto simp: bind_eq_Some_conv split: if_splits\<close>)

end
