(* ===== verification/StoreInv.thy ===== *)
theory StoreInv
  imports Store
begin

text \<open>
  The invariant of the whole store: every value a server holds or a get call was answered
  with, every command in a log or on its way, and every snapshot between nodes comes from the
  put calls of clients.
\<close>

section \<open>Where values come from\<close>

definition from_puts :: "put_args set \<Rightarrow> (string \<Rightarrow> string option) \<Rightarrow> bool" where
  "from_puts A m \<longleftrightarrow> (\<forall>k v. m k = Some v \<longrightarrow> (\<exists>a \<in> A. pa_key a = k \<and> pa_value a = v))"

lemma from_puts_upd: "from_puts A m \<Longrightarrow> a \<in> A \<Longrightarrow> from_puts A (m(pa_key a \<mapsto> pa_value a))"
  by (auto simp: from_puts_def split: if_splits)

lemma from_puts_add: "from_puts A m \<Longrightarrow> from_puts A m' \<Longrightarrow> from_puts A (m ++ m')"
  by (auto simp: from_puts_def map_add_Some_iff)

definition put_command :: "kv_serial \<Rightarrow> put_args set \<Rightarrow> string \<Rightarrow> bool" where
  "put_command K A w \<longleftrightarrow> (\<exists>a \<in> A. w = op_dump (out_op (ser K)) (put_op a))"

text \<open>A snapshot as it is read back from its file: the first word of what a server wrote.\<close>

definition put_snapshot :: "kv_serial \<Rightarrow> put_args set \<Rightarrow> string \<Rightarrow> bool" where
  "put_snapshot K A w \<longleftrightarrow> w = [] \<or> (\<exists>src t ids. sl_inv src \<and> from_puts A (abs_kv src)
     \<and> dump_kv (out_table K) src = Some t \<and> w = read_back (out_server K (t, ids)))"

text \<open>
  What a reader of archives does with a first word: it rejects it, unless it is the whole
  archive. (A Boost text archive starts with \<open>22 serialization::archive\<close>; its first word is
  \<open>22\<close>, and reading that throws.)
\<close>

definition snapshot_reads :: "kv_serial \<Rightarrow> bool" where
  "snapshot_reads K \<longleftrightarrow> (\<forall>x. read_back (out_server K x) = [] \<or> in_server K (read_back (out_server K x)) = None
     \<or> in_server K (read_back (out_server K x)) = Some x)"

definition first_word_rejected :: "kv_serial \<Rightarrow> bool" where
  "first_word_rejected K \<longleftrightarrow> (\<forall>x. in_server K (read_back (out_server K x)) = None)"

lemma put_snapshot_word: "put_snapshot K A w \<Longrightarrow> read_back w = w"
  by (auto simp: put_snapshot_def)

definition server_good :: "put_args set \<Rightarrow> kv_server \<Rightarrow> bool" where
  "server_good A s \<longleftrightarrow> sl_inv (table_data s) \<and> from_puts A (abs_kv (table_data s))"

lemma kv_serial_okD:
  assumes "kv_serial_ok K"
  shows "codec (out_op (ser K)) (in_op (ser K))" "codec (out_table K) (in_table K)" "codec (out_server K) (in_server K)"
  using assms by (simp_all add: kv_serial_ok_def serial_ok_def)

lemma executes_good:
  assumes "kv_serial_ok K" "server_good A s" "msg_carries (put_command K A) Q msg" "executes K u msg s t"
  shows "server_good A t"
proof (cases "t = s")
  case False
  then obtain b c where c: "validCommand msg" "op_load (in_op (ser K)) u (command msg) = Some (b, c)" "L_executePutOp c s = Some t"
    using assms(4) by (auto simp: executes_def)
  then obtain a where a: "a \<in> A" "command msg = op_dump (out_op (ser K)) (put_op a)"
    using assms(3) by (auto simp: msg_carries_def put_command_def)
  have "c = put_op a" using c(2) a(2) op_load_dump [OF kv_serial_okD(1) [OF assms(1)]] by simp
  moreover obtain d where "index_assign [] (okey c) (ovalue c) (table_data s) = Some d" "sl_inv d"
    "abs_kv d = (abs_kv (table_data s))(okey c \<mapsto> ovalue c)"
    using index_assign_ok assms(2) by (metis server_good_def)
  ultimately show ?thesis
    using c(3) assms(2) from_puts_upd [OF _ a(1)] by (auto simp: L_executePutOp_def server_good_def put_op_def)
qed (use assms in simp)

lemma dump_good:
  assumes "server_good A s" "kv_M_dump K s = Some shot"
  shows "put_snapshot K A (read_back shot)"
  using assms by (auto simp: kv_M_dump_def bind_eq_Some_conv put_snapshot_def server_good_def)

lemma load_good:
  assumes "kv_serial_ok K" "snapshot_reads K" "server_good A s" "put_snapshot K A w" "kv_M_load K w s = Ret t"
  shows "server_good A t"
proof (cases "w = []")
  case False
  then obtain src str ids where x: "sl_inv src" "from_puts A (abs_kv src)" "dump_kv (out_table K) src = Some str"
    "w = read_back (out_server K (str, ids))" using assms(4) by (auto simp: put_snapshot_def)
  have "in_server K w \<noteq> None" using assms(5) False by (cases "in_server K w") (simp_all add: kv_M_load_def)
  moreover have "w = [] \<or> in_server K w = None \<or> in_server K w = Some (str, ids)"
    using assms(2) unfolding snapshot_reads_def x(4) by blast
  ultimately have "in_server K w = Some (str, ids)" using False by (elim disjE) simp_all
  then obtain d where d: "load_kv (in_table K) str (table_data s) = Some d" "t = s\<lparr>table_data := d, lastRequestId := ids\<rparr>"
    using assms(5) False by (auto simp: kv_M_load_def and_then_Ret of_opt_def split: if_splits option.splits)
  have "sl_inv d" "abs_kv d = abs_kv src ++ abs_kv (table_data s)"
    using load_dump_ok [OF kv_serial_okD(2) [OF assms(1)] x(1), of "table_data s"] assms(3) x(3) d(1)
    by (auto simp: server_good_def)
  with x(2) assms(3) d(2) show ?thesis by (simp add: server_good_def from_puts_add)
qed (use assms in \<open>simp add: kv_M_load_def\<close>)

lemma handle_good:
  assumes "kv_serial_ok K" "snapshot_reads K" "server_good A s" "handle_message K u msg s = Ret t"
    and M: "msg_carries (put_command K A) (put_snapshot K A) msg"
  shows "server_good A t"
proof -
  obtain s1 s2 s3 where x: "executes K u msg s s1"
    "s2 = s1 \<or> (\<exists>i. L_maySnapshot K i s1 = Some s2)"
    "s3 = s2 \<or> (\<exists>c i b. L_tryPush2Wait c i s2 = Some (b, s3))"
    "t = s3 \<or> validSnapshot msg \<and> (\<exists>s4 i. kv_M_load K (snapshot msg) s3 = Ret s4
        \<and> t = s4\<lparr>lastSnapshotCommandIndex := i\<rparr>)"
    by (rule handle_parts [OF assms(4)])
  have "server_good A s1" by (rule executes_good [OF assms(1,3) M x(1)])
  moreover have "table_data s3 = table_data s1" using x(2,3) snapshot_node push_node by metis
  ultimately have s3: "server_good A s3" by (simp add: server_good_def)
  from x(4) show ?thesis
  proof
    assume "validSnapshot msg \<and> (\<exists>s4 i. kv_M_load K (snapshot msg) s3 = Ret s4 \<and> t = s4\<lparr>lastSnapshotCommandIndex := i\<rparr>)"
    then obtain s4 i where l: "kv_M_load K (snapshot msg) s3 = Ret s4" "t = s4\<lparr>lastSnapshotCommandIndex := i\<rparr>"
      "validSnapshot msg" by blast
    then have "put_snapshot K A (snapshot msg)" using M by (simp add: msg_carries_def)
    from load_good [OF assms(1,2) s3 this l(1)] l(2) show ?thesis by (simp add: server_good_def)
  qed (use s3 in simp)
qed

lemma get_good:
  assumes "server_good A s" "L_get args r obs s = Some (reply, True, t)"
  shows "\<exists>a \<in> A. pa_key a = ga_key args \<and> pa_value a = gr_value reply"
proof -
  obtain v where v: "L_executeGetOp (get_op args) s = Some ((True, v), t)" "gr_value reply = v"
    using assms(2) by (auto simp: L_get_def bind_eq_Some_conv Let_def split: if_splits)
  have "lookup_value (table_data s) (ga_key args) = Some (Some v)"
    using v(1) by (auto simp: L_executeGetOp_def lookup_value_def get_op_def bind_eq_Some_conv Let_def split: if_splits)
  with lookup_value_ok [of "table_data s" "ga_key args"] assms(1) v(2) show ?thesis
    by (auto simp: server_good_def from_puts_def)
qed

section \<open>The invariant of the store\<close>

definition store_carries :: "kv_serial \<Rightarrow> put_args set \<Rightarrow> store \<Rightarrow> bool" where
  "store_carries K A st \<longleftrightarrow> cluster_carries (put_command K A) (put_snapshot K A) (net st)
     \<and> (\<forall>s \<in> set (servers st). server_good A s) \<and> (\<forall>i a. (i, PutCalled a) \<in> set (puts st) \<longrightarrow> a \<in> A)
     \<and> (\<forall>i args reply. (i, GetReplied args reply True) \<in> set (gets st) \<longrightarrow>
          (\<exists>a \<in> A. pa_key a = ga_key args \<and> pa_value a = gr_value reply))"

lemma view_good:
  assumes "store_carries K A st" "view i st = Some s"
  shows "server_good A s" "\<And>m. m \<in> set (applyChan s) \<Longrightarrow> msg_carries (put_command K A) (put_snapshot K A) m"
proof -
  note v = view_Some [OF assms(2)]
  have "server_good A (servers st ! i)" using assms(1) v(1) by (simp add: store_carries_def)
  with v(4) show "server_good A s" by (simp add: server_good_def)
  fix m assume "m \<in> set (applyChan s)"
  with v(3,4) have "chans (net st) ! i \<in> set (chans (net st))" "m \<in> set (chans (net st) ! i)" by simp_all
  with assms(1) show "msg_carries (put_command K A) (put_snapshot K A) m"
    unfolding store_carries_def using carries_queue by blast
qed

lemma next_good:
  assumes "store_carries K A st" "view i st = Some s" "sq_pop (applyChan s) = Some (m, q)"
  shows "msg_carries (put_command K A) (put_snapshot K A) m" "server_good A (s\<lparr>applyChan := q\<rparr>)"
proof -
  have "m \<in> set (applyChan s)" using assms(3) by (auto simp: sq_pop_def split: list.splits)
  then show "msg_carries (put_command K A) (put_snapshot K A) m" by (rule view_good(2) [OF assms(1,2)])
  show "server_good A (s\<lparr>applyChan := q\<rparr>)" using view_good(1) [OF assms(1,2)] by (simp add: server_good_def)
qed

lemma allows_carries:
  assumes "kv_serial_ok K" "store_carries K A st" "allows K u st b"
  shows "action_carries (ser K) (put_command K A) (put_snapshot K A) b"
proof -
  have P: "put_command K A (op_dump (out_op (ser K)) (put_op a))" if "(i, PutCalled a) \<in> set (puts st)" for i a
    using assms(2) that by (auto simp: store_carries_def put_command_def)
  have Q: "put_snapshot K A (read_back shot)"
    if "view i st = Some s" "sq_pop (applyChan s) = Some (m, q)" "executes K u m (s\<lparr>applyChan := q\<rparr>) s1"
      "kv_M_dump K s1 = Some shot" for i s m q s1 shot
    using dump_good [OF executes_good [OF assms(1) next_good(2,1) [OF assms(2) that(1,2)] that(3)] that(4)] .
  from assms(3) show ?thesis
    unfolding allows_def by (cases b) (use P Q in auto)
qed

text \<open>A schedule of the cluster whose actions carry what they may.\<close>

lemma schedule_carries:
  assumes "cluster_start S n c0" "(cstep S)\<^sup>*\<^sup>* c0 c" "cluster_carries P Q c" "\<And>w. Q w \<Longrightarrow> read_back w = w"
    and "\<forall>b \<in> set bs. action_carries S P Q b" "run_schedule S (map (Pair now) bs) c = Some c'"
  shows "cluster_carries P Q c'"
  using assms(2,3,5,6)
proof (induction bs arbitrary: c)
  case (Cons b bs)
  then obtain d where d: "cluster_step S now b c = Some d" "run_schedule S (map (Pair now) bs) d = Some c'"
    by (auto simp: bind_eq_Some_conv)
  obtain B where B: "election_inv n (B, c)" "log_inv n (B, c)" using cluster_log_inv [OF assms(1) Cons.prems(1)] by blast
  have "cluster_carries P Q d"
    by (rule cluster_step_carries [OF Cons.prems(2) B(2) inv_length [OF B(1)] assms(4) _ d(1)]) (use Cons.prems(3) in auto)
  moreover have "(cstep S)\<^sup>*\<^sup>* c0 d" using Cons.prems(1) cstep.intros [OF d(1)] by (rule rtranclp.rtrancl_into_rtrancl)
  ultimately show ?case using Cons.IH Cons.prems(3) d(2) by simp
qed simp

text \<open>\<open>A\<close> is any set that holds the puts issued by the end of the run.\<close>

lemma step_carries:
  assumes K: "kv_serial_ok K" "snapshot_reads K" and C: "store_carries K A st" and "set (issued st') \<subseteq> A"
    and step: "store_step K u now a st = Some st'"
    and run: "cluster_start (ser K) n c0" "(cstep (ser K))\<^sup>*\<^sup>* c0 (net st)"
  shows "store_carries K A st'"
  unfolding store_carries_def
proof (intro conjI ballI allI impI)
  have C': "cluster_carries (put_command K A) (put_snapshot K A) (net st)" using C by (simp add: store_carries_def)
  obtain bs where bs: "run_schedule (ser K) (map (Pair now) bs) (net st) = Some (net st')" "\<forall>b \<in> set bs. allows K u st b"
    using step_actions [OF step] by blast
  show "cluster_carries (put_command K A) (put_snapshot K A) (net st')"
    by (rule schedule_carries [OF run C' put_snapshot_word _ bs(1)]) (use bs(2) allows_carries [OF K(1) C] in blast)+
next
  fix t assume "t \<in> set (servers st')"
  from step_servers [OF step this] show "server_good A t"
  proof (elim disjE exE conjE)
    assume "t \<in> set (servers st)"
    with C show ?thesis by (simp add: store_carries_def)
  next
    fix i s assume "view i st = Some s" "table_data t = table_data s"
    with view_good(1) [OF C] show ?thesis by (simp add: server_good_def)
  next
    fix i s m q assume x: "view i st = Some s" "sq_pop (applyChan s) = Some (m, q)"
      "handle_message K u m (s\<lparr>applyChan := q\<rparr>) = Ret t"
    note g = next_good [OF C x(1,2)]
    show ?thesis by (rule handle_good [OF K g(2) x(3) g(1)])
  qed
next
  fix i args assume "(i, PutCalled args) \<in> set (puts st')"
  from step_puts [OF step this] C assms(4) show "args \<in> A" by (auto simp: store_carries_def)
next
  fix i args reply assume "(i, GetReplied args reply True) \<in> set (gets st')"
  from step_gets [OF step this] show "\<exists>a \<in> A. pa_key a = ga_key args \<and> pa_value a = gr_value reply"
  proof (elim disjE exE conjE)
    assume "(i, GetReplied args reply True) \<in> set (gets st)"
    with C show ?thesis by (auto simp: store_carries_def)
  next
    fix j s r obs t assume x: "view j st = Some s" "L_get args r obs s = Some (reply, True, t)"
    show ?thesis by (rule get_good [OF view_good(1) [OF C x(1)] x(2)])
  qed
qed

lemma server_start_fields:
  assumes "server_start K n i s"
  shows "node_start (ser K) n i (raftNode s)" "sl_inv (table_data s)" "abs_kv (table_data s) = Map.empty"
    "two_files (pstr (raftNode s))" "shot_of (pstr (raftNode s)) = []" "appliedChan s = Map.empty"
proof -
  obtain now bits fs w maxSize content where w: "w (state_path i)" "w (snapshot_path i)" and "i < n"
    and len: "length (read_nodes (load_config content Map.empty) 0) = n"
    and c: "kvServer_ctor K now bits fs w (int i) maxSize content = Ret s" using assms by (auto simp: server_start_def)
  let ?p = "persister_ctor fs w i"
  obtain d :: table where d: "kvskiplist 32 [] [] bits = Some d" "repr d []"
    by (rule kvskiplist_repr [of 32 "[]" "[]" bits]) auto
  obtain r where r: "raft_ctor (ser K) now (int i) ?p n = Ret r" "pstr r = ?p"
    using ctor_empties(2) [where w = w and me = i and fs = fs, OF w] by (simp add: raft_ctor_def Let_def M_load_def)
  have l: "loadSnapshot ?p [] = (False, [])" by (rule ctor_empties(3) [OF w])
  have s: "raftNode s = r" "table_data s = d" "appliedChan s = Map.empty"
    using c \<open>i < n\<close> by (auto simp: kvServer_ctor_def len d(1) r l and_then_Ret of_opt_def Let_def)
  show "node_start (ser K) n i (raftNode s)" unfolding node_start_def s using w r(1) \<open>i < n\<close> by blast
  show "sl_inv (table_data s)" "abs_kv (table_data s) = Map.empty"
    using d(2) by (auto simp: s sl_inv_def abs_repr contents_def)
  show "two_files (pstr (raftNode s))" by (simp add: s r(2) two_files_def persister_ctor_def)
  show "appliedChan s = Map.empty" by (rule s(3))
  show "shot_of (pstr (raftNode s)) = []" by (simp add: s r(2) shot_of_def l)
qed

lemma start_cluster: "store_start K n st \<Longrightarrow> cluster_start (ser K) n (net st)"
  by (simp add: store_start_def cluster_start_def server_start_fields(1))

lemma start_carries:
  assumes "store_start K n st"
  shows "store_carries K A st"
proof -
  have srv: "server_good A s \<and> node_carries (put_command K A) (put_snapshot K A) (raftNode s)" if s: "s \<in> set (servers st)" for s
  proof -
    obtain i where i: "server_start K n i s" using assms s by (auto simp: store_start_def in_set_conv_nth)
    note f = server_start_fields [OF i]
    have "logs (raftNode s) = []" by (rule node_start_fields(8) [OF f(1)])
    with f show ?thesis by (simp add: server_good_def from_puts_def node_carries_def put_snapshot_def)
  qed
  with assms show ?thesis by (auto simp: store_carries_def store_start_def cluster_carries_def)
qed

lemma run_carries:
  assumes "kv_serial_ok K" "snapshot_reads K" "store_start K n st0" "(sstep K u)\<^sup>*\<^sup>* st0 st" "set (issued st) \<subseteq> A"
  shows "store_carries K A st"
  using assms(4,5)
proof (induction rule: rtranclp_induct)
  case base
  then show ?case using start_carries [OF assms(3)] by blast
next
  case (step y z)
  obtain now a where a: "store_step K u now a y = Some z" using step(2) by (elim sstepE)
  have "store_carries K A y" using step step_issued [OF a] by blast
  from step_carries [OF assms(1,2) this step(4) a start_cluster [OF assms(3)] run_projects [OF step(1)]]
  show ?case .
qed

end
