(* ===== verification/StoreCalls.thy ===== *)
theory StoreCalls
  imports StoreInv
begin

text \<open>
  The calls of clients in a run of the whole store: the channels the put calls wait on, and
  that no call and no command ever gets stuck. In a cluster a node satisfies \<open>core\<close> only, so
  a server is looked at as if its node were a follower, which is all its invariant needs.
\<close>

section \<open>Servers whose node satisfies \<open>core\<close>\<close>

definition flw :: "kv_server \<Rightarrow> kv_server" where
  "flw s = s\<lparr>raftNode := follower (raftNode s)\<rparr>"

lemma flw_fields [simp]:
  "table_data (flw s) = table_data s" "lastRequestId (flw s) = lastRequestId s" "appliedChan (flw s) = appliedChan s"
  "queues (flw s) = queues s" "nextQueue (flw s) = nextQueue s" "applyChan (flw s) = applyChan s"
  "maxRaftStateSize (flw s) = maxRaftStateSize s" "lastSnapshotCommandIndex (flw s) = lastSnapshotCommandIndex s"
  "raftNode (flw s) = follower (raftNode s)"
  by (simp_all add: flw_def)

lemma flw_updates:
  "flw (s\<lparr>table_data := d\<rparr>) = (flw s)\<lparr>table_data := d\<rparr>" "flw (s\<lparr>queues := m\<rparr>) = (flw s)\<lparr>queues := m\<rparr>"
  "flw (s\<lparr>appliedChan := f\<rparr>) = (flw s)\<lparr>appliedChan := f\<rparr>" "flw (s\<lparr>nextQueue := n\<rparr>) = (flw s)\<lparr>nextQueue := n\<rparr>"
  "flw (s\<lparr>applyChan := q\<rparr>) = (flw s)\<lparr>applyChan := q\<rparr>"
  "flw (s\<lparr>lastSnapshotCommandIndex := i\<rparr>) = (flw s)\<lparr>lastSnapshotCommandIndex := i\<rparr>"
  "flw (s\<lparr>lastRequestId := ids\<rparr>) = (flw s)\<lparr>lastRequestId := ids\<rparr>"
  "flw (note_request c s) = note_request c (flw s)"
  by (simp_all add: flw_def note_request_def)

lemma kv_inv_flw: "kv_inv (flw s) \<longleftrightarrow> sl_inv (table_data s) \<and> core (raftNode s)
     \<and> (\<forall>i p. appliedChan s i = Some p \<longrightarrow> queues s p \<noteq> None \<and> p < nextQueue s)
     \<and> (\<forall>i j p. appliedChan s i = Some p \<and> appliedChan s j = Some p \<longrightarrow> i = j)"
  by (simp add: kv_inv_def core_follower)

text \<open>The role of the node plays no part in the message loop.\<close>

lemma put_op_role: "L_executePutOp c (flw s) = map_option flw (L_executePutOp c s)"
  by (cases "index_assign [] (okey c) (ovalue c) (table_data s)") (simp_all add: L_executePutOp_def flw_updates)

lemma dump_role: "kv_M_dump K (flw s) = kv_M_dump K s"
  by (simp add: kv_M_dump_def)

lemma flw_node: "(flw s)\<lparr>raftNode := follower r\<rparr> = flw (s\<lparr>raftNode := r\<rparr>)"
  by (simp add: flw_def)

lemma snapshot_role: "L_maySnapshot K i (flw s) = map_option flw (L_maySnapshot K i s)"
proof -
  have sz: "getRaftStateSize (follower r) = getRaftStateSize r" for r by (simp add: getRaftStateSize_def)
  show ?thesis
    by (cases "kv_M_dump K s"; cases "raft_persist (ser K) i (the (kv_M_dump K s)) (raftNode s)")
      (auto simp: L_maySnapshot_def dump_role sz persist_role flw_node)
qed

lemma push_role: "L_tryPush2Wait c i (flw s) = map_option (\<lambda>(b, t). (b, flw t)) (L_tryPush2Wait c i s)"
  by (cases "appliedChan s i"; cases "queues s (the (appliedChan s i))") (simp_all add: L_tryPush2Wait_def flw_updates)

fun on_ret :: "('a \<Rightarrow> 'b) \<Rightarrow> 'a outcome \<Rightarrow> 'b outcome" where
  "on_ret f (Ret x) = Ret (f x)"
| "on_ret f (Throw e) = Throw e"
| "on_ret f Undef = Undef"

lemma on_ret_Ret: "on_ret f x = Ret y \<longleftrightarrow> (\<exists>z. x = Ret z \<and> y = f z)"
  by (cases x) auto

lemma load_role: "kv_M_load K w (flw s) = on_ret flw (kv_M_load K w s)"
  by (auto simp: kv_M_load_def of_opt_def flw_updates split: option.splits)

lemma on_ret_and_then: "on_ret f (and_then x g) = and_then x (\<lambda>y. on_ret f (g y))"
  by (cases x) simp_all

lemma and_then_on_ret: "and_then (on_ret f x) g = and_then x (\<lambda>y. g (f y))"
  by (cases x) simp_all

lemma of_opt_map: "of_opt (map_option f x) = on_ret f (of_opt x)"
  by (cases x) simp_all

lemmas on_ret_simps = on_ret_and_then and_then_on_ret of_opt_map

lemma command_role: "L_executeCommand K u msg (flw s) = on_ret flw (L_executeCommand K u msg s)"
proof -
  have d: "L_duplicateRequest c r (flw s) = L_duplicateRequest c r s" for c r by (simp add: L_duplicateRequest_def)
  have g: "(if b then L_executePutOp c (flw s) else Some (flw s)) = map_option flw (if b then L_executePutOp c s else Some s)"
    for b c by (simp add: put_op_role)
  show ?thesis
    unfolding L_executeCommand_def d g flw_fields
    by (cases "op_load (in_op (ser K)) u (command msg)")
      (simp_all add: on_ret_simps snapshot_role push_role case_prod_beta)
qed

lemma handle_role: "handle_message K u msg (flw s) = on_ret flw (handle_message K u msg s)"
  by (simp add: handle_message_def command_role on_ret_simps kv_L_installSnapshot_def load_role flw_updates)

lemma get_op_role: "L_executeGetOp c (flw s) = map_option (\<lambda>(v, t). (v, flw t)) (L_executeGetOp c s)"
proof (cases "find_kv (table_data s) (okey c)")
  case (Some it)
  then show ?thesis
    by (cases it; cases "iter_deref (table_data s) (the it)")
      (auto simp: L_executeGetOp_def Let_def end_kv_def flw_updates)
qed (simp add: L_executeGetOp_def)

lemma get_role: "L_get args r obs (flw s) = map_option (\<lambda>(y, b, t). (y, b, flw t)) (L_get args r obs s)"
  by (cases "L_executeGetOp (get_op args) s") (auto simp: L_get_def get_op_role Let_def)

lemma put_role:
  assumes "\<And>args. c \<noteq> PutCalled args"
  shows "put_step K timeout c (flw s) = map_option (\<lambda>(d, t). (d, flw t)) (put_step K timeout c s)"
proof (cases c)
  case (PutExecuted args i)
  then show ?thesis by (cases "appliedChan s i") (simp_all add: Let_def flw_updates)
next
  case (PutWaiting args i p)
  then show ?thesis by (cases "queues s p") (auto simp: flw_updates split: option.splits)
next
  case (PutPopped args i r)
  then show ?thesis by (simp add: decide_put_def L_duplicateRequest_def)
next
  case (PutDecided y i)
  then show ?thesis
    by (cases "appliedChan s i"; cases "queues s (the (appliedChan s i))") (simp_all add: flw_updates)
qed (use assms in auto)

section \<open>Calls and commands return\<close>

lemma handle_frame:
  assumes "kv_inv (flw s)" "handle_message K u msg s = Ret t"
  shows "chan_frame (flw s) (flw t)"
  by (rule frame_message [OF assms(1), of K u msg]) (simp add: handle_role assms(2))

lemma get_frame:
  assumes "kv_inv (flw s)" "L_get args r obs s = Some (reply, b, t)"
  shows "chan_frame (flw s) (flw t)"
  by (rule frame_get [OF assms(1), of args r obs reply b]) (simp add: get_role assms(2))

lemma get_returns:
  assumes "kv_inv (flw s)"
  shows "\<exists>reply b t. L_get args r obs s = Some (reply, b, t)"
proof -
  have "L_get args r obs (flw s) \<noteq> None"
    by (auto simp: L_get_def L_executeGetOp_ok [OF assms] Let_def split: option.splits)
  then show ?thesis by (auto simp: get_role)
qed

lemma command_returns:
  assumes "kv_inv (flw s)" "kv_serial_ok K" "msg_carries (put_command K A) Q msg" "validCommand msg"
  shows "\<exists>t. handle_message K u msg s = Ret t"
proof -
  have m: "\<not> validSnapshot msg" "put_command K A (command msg)" using assms(3,4) by (auto simp: msg_carries_def)
  then obtain a where a: "command msg = op_dump (out_op (ser K)) (put_op a)" by (auto simp: put_command_def)
  have "\<exists>t. L_executeCommand K u msg (flw s) = Ret t"
  proof (cases "commandIndex msg \<le> word_of_int (lastSnapshotCommandIndex s)")
    case True
    then show ?thesis by (simp add: L_executeCommand_def)
  next
    case False
    then have "\<not> commandIndex msg \<le> word_of_int (lastSnapshotCommandIndex (flw s))" by simp
    from L_executeCommand_ok [OF assms(1) kv_serial_okD(1) [OF assms(2)] a this] show ?thesis by metis
  qed
  then have "\<exists>t. handle_message K u msg (flw s) = Ret t" using m(1) assms(4) by (simp add: handle_message_def and_then_Ret)
  then show ?thesis by (auto simp: handle_role on_ret_Ret)
qed

lemma put_moves:
  assumes I: "kv_inv (flw s)" and C: "call_ok (flw s) c"
  shows "\<exists>d t. put_step K timeout c s = Some (d, t) \<and> call_moves (flw s) c (flw t) d"
proof (cases "\<exists>args. c = PutCalled args")
  case True
  then obtain args where c: "c = PutCalled args" by blast
  obtain index tm r where e: "raft_execute (ser K) (put_op args) (raftNode s) = ((index, tm), r)" by (metis prod.collapse)
  have core: "core (raftNode s)" using I by (simp add: kv_inv_flw)
  have r: "core r \<and> M_getLastLogIndex (raftNode s) \<le> M_getLastLogIndex r"
  proof (cases "identity (raftNode s) = LEADER")
    case True
    from execute_grows [OF core True, of "ser K" "put_op args"] e show ?thesis by (auto simp: grows_def)
  next
    case False
    then show ?thesis using e core by (auto simp: raft_execute_def)
  qed
  have i: "index = - 1 \<or> index = M_getLastLogIndex r \<and> M_getLastLogIndex (raftNode s) < index"
    using execute_log [of "ser K" "put_op args" "raftNode s"] e by (auto split: if_splits)
  have k: "kv_inv (flw (s\<lparr>raftNode := r\<rparr>))" using I r by (simp add: kv_inv_flw)
  have l: "M_getLastLogIndex (raftNode (flw (s\<lparr>raftNode := r\<rparr>))) = M_getLastLogIndex r"
    "M_getLastLogIndex (raftNode (flw s)) = M_getLastLogIndex (raftNode s)" by (simp_all add: follower_reads)
  show ?thesis
    using e k r i by (auto simp: c call_moves_def call_ok_def l follower_reads)
next
  case False
  then obtain d t where "put_step K timeout c (flw s) = Some (d, t)" "call_moves (flw s) c t d"
    using put_step_moves [OF I C] by blast
  with put_role [of c K timeout s] False show ?thesis by (cases "put_step K timeout c s") auto
qed

section \<open>All calls of all servers\<close>

text \<open>\<open>z\<close> are the servers, each seen as a follower, \<open>cs\<close> the put calls with the server each is at.\<close>

definition all_ok :: "nat \<Rightarrow> (nat \<Rightarrow> kv_server) \<Rightarrow> (nat \<times> put_call) list \<Rightarrow> bool" where
  "all_ok n z cs \<longleftrightarrow> (\<forall>i < n. kv_inv (z i)) \<and> (\<forall>k < length cs. fst (cs ! k) < n \<and> call_ok (z (fst (cs ! k))) (snd (cs ! k)))
     \<and> (\<forall>k < length cs. \<forall>l < length cs. fst (cs ! k) = fst (cs ! l) \<and> holds (snd (cs ! k)) \<noteq> None
          \<and> holds (snd (cs ! k)) = holds (snd (cs ! l)) \<longrightarrow> k = l)"

lemma all_okD:
  assumes "all_ok n z cs"
  shows "i < n \<Longrightarrow> kv_inv (z i)" "k < length cs \<Longrightarrow> fst (cs ! k) < n"
    "k < length cs \<Longrightarrow> call_ok (z (fst (cs ! k))) (snd (cs ! k))"
    "k < length cs \<Longrightarrow> l < length cs \<Longrightarrow> fst (cs ! k) = fst (cs ! l) \<Longrightarrow> holds (snd (cs ! k)) \<noteq> None \<Longrightarrow>
       holds (snd (cs ! k)) = holds (snd (cs ! l)) \<Longrightarrow> k = l"
  using assms unfolding all_ok_def by blast+

lemma all_ok_frames:
  assumes "all_ok n z cs" "\<And>i. i < n \<Longrightarrow> chan_frame (z i) (z' i)"
  shows "all_ok n z' cs"
  using assms(1) call_ok_frame [OF _ assms(2)] frame_kv_inv [OF assms(2)] unfolding all_ok_def by blast

lemma all_ok_new:
  assumes "all_ok n z cs" "i < n"
  shows "all_ok n z (cs @ [(i, PutCalled args)])"
proof -
  let ?cs = "cs @ [(i, PutCalled args)]"
  note D = all_okD [OF assms(1)]
  have old: "?cs ! k = cs ! k" if "k < length cs" for k using that by (simp add: nth_append)
  have last: "k < length ?cs \<Longrightarrow> \<not> k < length cs \<Longrightarrow> ?cs ! k = (i, PutCalled args)" for k
    by (simp add: nth_append less_Suc_eq)
  show ?thesis
    unfolding all_ok_def
  proof (intro conjI allI impI)
    fix j assume "j < n"
    then show "kv_inv (z j)" by (rule D(1))
  next
    fix k assume "k < length ?cs"
    then show "fst (?cs ! k) < n" using old [of k] last [of k] D(2) [of k] assms(2) by (cases "k < length cs") simp_all
  next
    fix k assume "k < length ?cs"
    then show "call_ok (z (fst (?cs ! k))) (snd (?cs ! k))"
      using old [of k] last [of k] D(3) [of k] by (cases "k < length cs") (simp_all add: call_ok_def)
  next
    fix k l assume l: "k < length ?cs" "l < length ?cs" and e: "fst (?cs ! k) = fst (?cs ! l)
      \<and> holds (snd (?cs ! k)) \<noteq> None \<and> holds (snd (?cs ! k)) = holds (snd (?cs ! l))"
    have kl: "k < length cs"
    proof (rule ccontr)
      assume "\<not> k < length cs"
      from last [OF l(1) this] e show False by simp
    qed
    have ll: "l < length cs"
    proof (rule ccontr)
      assume "\<not> l < length cs"
      from last [OF l(2) this] e show False by auto
    qed
    show "k = l" using e unfolding old [OF kl] old [OF ll] by (intro D(4) [OF kl ll]) blast+
  qed
qed

text \<open>A call at one server concerns the calls at that server only.\<close>

lemma all_ok_move:
  assumes "all_ok n z cs" "k < length cs" "cs ! k = (i, c)" "call_moves (z i) c t d"
  shows "all_ok n (z(i := t)) (cs[k := (i, d)])"
proof -
  let ?z = "z(i := t)" and ?cs = "cs[k := (i, d)]"
  note D = all_okD [OF assms(1)]
  have i: "i < n" using D(2) [OF assms(2)] assms(3) by simp
  have new: "kv_inv t" "call_ok t d" "M_getLastLogIndex (raftNode (z i)) \<le> M_getLastLogIndex (raftNode t)"
    "\<And>x. holds c \<noteq> Some x \<Longrightarrow> appliedChan t x = appliedChan (z i) x"
    "holds d = holds c \<or> holds d = None \<or> (\<exists>x. holds d = Some x \<and> M_getLastLogIndex (raftNode (z i)) < x)"
    using assms(4) unfolding call_moves_def by blast+
  have apart: "holds (snd (cs ! l)) \<noteq> holds c" if "l < length cs" "l \<noteq> k" "fst (cs ! l) = i" "holds (snd (cs ! l)) \<noteq> None" for l
  proof
    assume "holds (snd (cs ! l)) = holds c"
    with D(4) [OF that(1) assms(2)] that(2-4) assms(3) show False by simp
  qed
  have other: "call_ok (?z (fst (cs ! l))) (snd (cs ! l))" if "l < length cs" "l \<noteq> k" for l
  proof (cases "fst (cs ! l) = i")
    case True
    have ok: "call_ok (z i) (snd (cs ! l))" using D(3) [OF that(1)] True by simp
    have "appliedChan t x = Some p" if "snd (cs ! l) = PutWaiting a x p" for a x p
    proof -
      have "holds c \<noteq> Some x" using apart [OF \<open>l < length cs\<close> \<open>l \<noteq> k\<close> True] that by auto
      then show ?thesis using new(4) ok that by (simp add: call_ok_def)
    qed
    moreover have "x \<le> M_getLastLogIndex (raftNode t)" if "holds (snd (cs ! l)) = Some x" for x
      using ok that new(3) by (fastforce simp: call_ok_def)
    ultimately show ?thesis using True by (simp add: call_ok_def)
  qed (use D(3) [OF that(1)] in simp)
  have fresh: "holds (snd (cs ! l)) \<noteq> holds d" if "l < length cs" "l \<noteq> k" "fst (cs ! l) = i" "holds d \<noteq> None" for l
  proof
    assume e: "holds (snd (cs ! l)) = holds d"
    with that(4) have "holds (snd (cs ! l)) \<noteq> None" by simp
    from apart [OF that(1-3) this] e new(5) that(4) obtain x where x: "holds d = Some x" "M_getLastLogIndex (raftNode (z i)) < x"
      by auto
    have "call_ok (z i) (snd (cs ! l))" using D(3) [OF that(1)] that(3) by simp
    with e x show False by (auto simp: call_ok_def)
  qed
  show ?thesis
    unfolding all_ok_def
  proof (intro conjI allI impI)
    fix j assume "j < n"
    then show "kv_inv (?z j)" using D(1) new(1) by simp
  next
    fix l assume "l < length ?cs"
    then show "fst (?cs ! l) < n" using D(2) i by (cases "l = k") simp_all
  next
    fix l assume "l < length ?cs"
    then show "call_ok (?z (fst (?cs ! l))) (snd (?cs ! l))" using other new(2) by (cases "l = k") simp_all
  next
    fix l m assume l: "l < length ?cs" "m < length ?cs" and "fst (?cs ! l) = fst (?cs ! m)
      \<and> holds (snd (?cs ! l)) \<noteq> None \<and> holds (snd (?cs ! l)) = holds (snd (?cs ! m))"
    then show "l = m" using fresh [of l] fresh [of m] D(4) [of l m] by (cases "l = k"; cases "m = k") auto
  qed
qed

section \<open>The cluster below\<close>

lemma outcome_case_Some:
  "(case x of Ret y \<Rightarrow> f y | Throw e \<Rightarrow> None | Undef \<Rightarrow> None) = Some z \<longleftrightarrow> (\<exists>y. x = Ret y \<and> f y = Some z)"
  by (cases x) auto

lemma cluster_lengths:
  assumes "cluster_step S now a c = Some c'"
  shows "length (chans c') = length (chans c)" "length (nodes c') = length (nodes c)"
proof -
  have T: "length (chans d') = length (chans d) \<and> length (nodes d') = length (nodes d)"
    if "thread_step S now k ok th d = Some d'" for k ok th d d'
    using that
    by (cases th) (auto simp: bind_eq_Some_conv proceed_def begin_round_def case_prod_beta Let_def outcome_case_Some
        split: if_splits)
  show "length (chans c') = length (chans c)" "length (nodes c') = length (nodes c)"
    using assms T
    by (cases a; fastforce simp: bind_eq_Some_conv begin_round_def case_prod_beta Let_def neq_Nil_conv outcome_case_Some
        split: if_splits list.splits)+
qed

section \<open>The invariant of a run\<close>

definition shown :: "store \<Rightarrow> nat \<Rightarrow> kv_server" where
  "shown st i = flw (the (view i st))"

definition store_ok :: "nat \<Rightarrow> store \<Rightarrow> bool" where
  "store_ok n st \<longleftrightarrow> length (servers st) = n \<and> length (nodes (net st)) = n \<and> length (chans (net st)) = n
     \<and> all_ok n (shown st) (puts st) \<and> (\<forall>x \<in> set (gets st). fst x < n)"

lemma all_ok_cong:
  assumes "all_ok n z cs" "\<And>i. i < n \<Longrightarrow> z' i = z i"
  shows "all_ok n z' cs"
proof (rule all_ok_frames [OF assms(1)])
  fix i assume "i < n"
  with assms(2) all_okD(1) [OF assms(1)] show "chan_frame (z i) (z' i)" by (simp add: frame_refl)
qed

lemma store_ok_view:
  assumes "store_ok n st" "i < n"
  shows "view i st = Some ((servers st ! i)\<lparr>raftNode := nodes (net st) ! i, applyChan := chans (net st) ! i\<rparr>)"
  using assms by (simp add: store_ok_def view_def arr_get_def)

lemma view_shown: "view i st = Some s \<Longrightarrow> shown st i = flw s"
  by (simp add: shown_def)

lemma view_set:
  assumes "view i st = Some s"
  shows "view j (set_server i t st) = (if j = i then Some t else view j st)"
  using view_Some(1-3) [OF assms] by (auto simp: view_def set_server_def arr_get_def)

lemma view_calls [simp]: "view i (st\<lparr>puts := ps\<rparr>) = view i st" "view i (st\<lparr>gets := gs\<rparr>) = view i st"
  "view i (st\<lparr>issued := xs\<rparr>) = view i st"
  by (simp_all add: view_def)

lemma shown_set: "view i st = Some s \<Longrightarrow> shown (set_server i t st) = (shown st)(i := flw t)"
  by (rule ext) (simp add: shown_def view_set)

lemma shown_calls [simp]: "shown (st\<lparr>puts := ps\<rparr>) = shown st" "shown (st\<lparr>gets := gs\<rparr>) = shown st"
  "shown (st\<lparr>issued := xs\<rparr>) = shown st"
  by (rule ext, simp add: shown_def)+

lemma set_server_lengths:
  "length (nodes (net (set_server i t st))) = length (nodes (net st))"
  "length (chans (net (set_server i t st))) = length (chans (net st))"
  by (simp_all add: set_server_def)

lemma store_ok_server:
  assumes "store_ok n st" "view i st = Some s"
  shows "i < n" "kv_inv (flw s)"
proof -
  show "i < n" using view_Some(1) [OF assms(2)] assms(1) by (simp add: store_ok_def)
  then have "kv_inv (shown st i)" using assms(1) by (simp add: store_ok_def all_ok_def)
  with view_shown [OF assms(2)] show "kv_inv (flw s)" by simp
qed

text \<open>One server moves and no put call does.\<close>

lemma store_ok_frame:
  assumes "store_ok n st" "view i st = Some s" "chan_frame (flw s) (flw t)"
  shows "store_ok n (set_server i t st)"
proof -
  have "all_ok n (shown st) (puts st)" using assms(1) by (simp add: store_ok_def)
  then have "all_ok n (shown (set_server i t st)) (puts st)"
  proof (rule all_ok_frames)
    fix j assume "j < n"
    then have "kv_inv (shown st j)" using assms(1) by (simp add: store_ok_def all_ok_def)
    then show "chan_frame (shown st j) (shown (set_server i t st) j)"
      using assms(3) view_shown [OF assms(2)] by (simp add: shown_set [OF assms(2)] frame_refl)
  qed
  with assms(1) show ?thesis by (simp add: store_ok_def set_server_lengths)
qed

lemma step_store_ok:
  assumes I: "store_ok n st" and step: "store_step K u now a st = Some st'"
    and L: "log_inv n (B, net st)" and L': "log_inv n (B', net st')"
  shows "store_ok n st'"
proof (cases a)
  case (Node b)
  with step obtain c where c: "cluster_step (ser K) now b (net st) = Some c" "st' = st\<lparr>net := c\<rparr>"
    by (auto simp: bind_eq_Some_conv split: if_splits)
  have len: "length (servers st) = n" "length (nodes (net st)) = n" "length (chans (net st)) = n" "length (nodes c) = n"
    "length (chans c) = n" using I cluster_lengths [OF c(1)] by (simp_all add: store_ok_def)
  have "all_ok n (shown st') (puts st)"
  proof (rule all_ok_frames)
    show "all_ok n (shown st) (puts st)" using I by (simp add: store_ok_def)
    fix i assume i: "i < n"
    let ?s = "(servers st ! i)\<lparr>raftNode := nodes (net st) ! i, applyChan := chans (net st) ! i\<rparr>"
    let ?t = "(servers st ! i)\<lparr>raftNode := nodes c ! i, applyChan := chans c ! i\<rparr>"
    have v: "view i st = Some ?s" "view i st' = Some ?t" using i len by (simp_all add: view_def arr_get_def c(2))
    have "kv_inv (flw ?s)" by (rule store_ok_server(2) [OF I v(1)])
    moreover have "core (nodes c ! i)" using L' i by (simp add: log_inv_def c(2))
    ultimately have "chan_frame (flw ?s) (flw ?t)"
      using cluster_step_last [OF L len(2) c(1) i] by (simp add: chan_frame_def kv_inv_flw follower_reads)
    then show "chan_frame (shown st i) (shown st' i)" by (simp only: view_shown [OF v(1)] view_shown [OF v(2)])
  qed
  with len c(2) I show ?thesis by (simp add: store_ok_def)
next
  case (CallPut i args)
  with step obtain s where s: "view i st = Some s" "st' = st\<lparr>puts := puts st @ [(i, PutCalled args)], issued := issued st @ [args]\<rparr>"
    by (auto simp: bind_eq_Some_conv)
  with all_ok_new [of n "shown st" "puts st" i args] store_ok_server(1) [OF I s(1)] I show ?thesis
    by (simp add: store_ok_def)
next
  case (StepPut k timeout)
  obtain i c d s t where x: "k < length (puts st)" "puts st ! k = (i, c)" "view i st = Some s"
    "put_step K timeout c s = Some (d, t)" "st' = (set_server i t st)\<lparr>puts := (puts st)[k := (i, d)]\<rparr>"
    by (rule step_StepPut [OF step [unfolded StepPut]])
  have ok: "all_ok n (shown st) (puts st)" using I by (simp add: store_ok_def)
  have "call_ok (shown st i) c" using all_okD(3) [OF ok x(1)] x(2) by simp
  then have "call_moves (flw s) c (flw t) d"
    using put_moves [OF store_ok_server(2) [OF I x(3)], of c K timeout] x(4) view_shown [OF x(3)] by auto
  then have "all_ok n ((shown st)(i := flw t)) ((puts st)[k := (i, d)])"
    using all_ok_move [OF ok x(1,2)] view_shown [OF x(3)] by simp
  with I show ?thesis by (simp add: store_ok_def x(5) shown_set [OF x(3)] set_server_lengths)
next
  case (CallGet i args)
  with step obtain s where s: "view i st = Some s" "st' = st\<lparr>gets := gets st @ [(i, GetWaiting args (raftNode s) [])]\<rparr>"
    by (auto simp: bind_eq_Some_conv)
  with store_ok_server(1) [OF I s(1)] I show ?thesis by (simp add: store_ok_def)
next
  case (WakeGet k)
  obtain i g s where x: "view i st = Some s" "st' = st\<lparr>gets := (gets st)[k := (i, g)]\<rparr>"
    by (rule step_WakeGet [OF step [unfolded WakeGet]])
  with store_ok_server(1) [OF I x(1)] I show ?thesis by (auto simp: store_ok_def dest!: in_update)
next
  case (RunGet k)
  obtain i args r obs s reply sent t where x: "view i st = Some s" "L_get args r obs s = Some (reply, sent, t)"
    "st' = (set_server i t st)\<lparr>gets := (gets st)[k := (i, GetReplied args reply sent)]\<rparr>"
    by (rule step_RunGet [OF step [unfolded RunGet]])
  have "store_ok n (set_server i t st)"
    by (rule store_ok_frame [OF I x(1) get_frame [OF store_ok_server(2) [OF I x(1)] x(2)]])
  then show ?thesis using store_ok_server(1) [OF I x(1)] by (auto simp: store_ok_def x(3) dest!: in_update)
next
  case (NextMessage i)
  obtain s m q t where x: "view i st = Some s" "handle_message K u m (s\<lparr>applyChan := q\<rparr>) = Ret t" "st' = set_server i t st"
    by (rule step_NextMessage [OF step [unfolded NextMessage]])
  have "kv_inv (flw (s\<lparr>applyChan := q\<rparr>))" using store_ok_server(2) [OF I x(1)] by (simp add: flw_updates)
  from handle_frame [OF this x(2)] have "chan_frame (flw s) (flw t)" by (simp add: chan_frame_def)
  then show ?thesis unfolding x(3) by (rule store_ok_frame [OF I x(1)])
qed

section \<open>Runs\<close>

lemma start_store_ok:
  assumes "store_start K n st"
  shows "store_ok n st"
proof -
  have st: "length (servers st) = n" "nodes (net st) = map raftNode (servers st)" "chans (net st) = replicate n []" "puts st = []"
    and gs: "gets st = []" using assms by (simp_all add: store_start_def)
  have inv: "kv_inv (shown st i)" if i: "i < n" for i
  proof -
    have f: "server_start K n i (servers st ! i)" using assms i by (simp add: store_start_def)
    have v: "view i st = Some ((servers st ! i)\<lparr>raftNode := raftNode (servers st ! i), applyChan := []\<rparr>)"
      using st i by (simp add: view_def arr_get_def)
    have "core (raftNode (servers st ! i))"
      by (rule node_inv_core [OF node_start_fields(1) [OF server_start_fields(1) [OF f]]])
    with server_start_fields(2,6) [OF f] show ?thesis by (simp add: view_shown [OF v] kv_inv_flw)
  qed
  show ?thesis using inv by (simp add: store_ok_def all_ok_def st gs)
qed

lemma run_store_ok:
  assumes "store_start K n st0" "(sstep K u)\<^sup>*\<^sup>* st0 st"
  shows "store_ok n st"
  using assms(2)
proof (induction rule: rtranclp_induct)
  case base
  then show ?case by (rule start_store_ok [OF assms(1)])
next
  case (step y z)
  obtain now a where a: "store_step K u now a y = Some z" using step(2) by (elim sstepE)
  note c = start_cluster [OF assms(1)]
  obtain B where B: "log_inv n (B, net y)" using cluster_log_inv [OF c run_projects [OF step(1)]] by blast
  have "(sstep K u)\<^sup>*\<^sup>* st0 z" using step(1,2) by (rule rtranclp.rtrancl_into_rtrancl)
  then obtain B' where "log_inv n (B', net z)" using cluster_log_inv [OF c run_projects] by blast
  from step_store_ok [OF step(3) a B this] show ?case .
qed

text \<open>Every call can go on, and every command at the head of a channel is handled.\<close>

lemma put_goes_on:
  assumes "store_ok n st" "k < length (puts st)"
  shows "\<exists>st'. store_step K u now (StepPut k timeout) st = Some st'"
proof -
  obtain i c where ic: "puts st ! k = (i, c)" by fastforce
  have ok: "all_ok n (shown st) (puts st)" using assms(1) by (simp add: store_ok_def)
  have i: "i < n" using all_okD(2) [OF ok assms(2)] ic by simp
  obtain s where v: "view i st = Some s" using store_ok_view [OF assms(1) i] by blast
  have "call_ok (flw s) c" using all_okD(3) [OF ok assms(2)] ic view_shown [OF v] by simp
  from put_moves [OF store_ok_server(2) [OF assms(1) v] this, of K timeout]
  obtain d t where "put_step K timeout c s = Some (d, t)" by blast
  with v ic assms(2) show ?thesis by (simp add: arr_get_def)
qed

lemma waiting_channel:
  assumes "store_ok n st" "(i, PutWaiting args index que) \<in> set (puts st)" "view i st = Some s"
  shows "appliedChan s index = Some que" "queues s que \<noteq> None"
proof -
  obtain k where k: "k < length (puts st)" "puts st ! k = (i, PutWaiting args index que)"
    using assms(2) by (auto simp: in_set_conv_nth)
  have "all_ok n (shown st) (puts st)" using assms(1) by (simp add: store_ok_def)
  from all_okD(3) [OF this k(1)] k(2) view_shown [OF assms(3)] show q: "appliedChan s index = Some que"
    by (simp add: call_ok_def)
  with store_ok_server(2) [OF assms(1,3)] show "queues s que \<noteq> None" by (auto simp: kv_inv_flw)
qed

lemma get_goes_on:
  assumes "store_ok n st" "k < length (gets st)" "gets st ! k = (i, GetWaiting args r obs)"
  shows "\<exists>st'. store_step K u now (RunGet k) st = Some st'"
proof -
  have "gets st ! k \<in> set (gets st)" using assms(2) by simp
  with assms(1,3) have i: "i < n" unfolding store_ok_def by (metis fst_conv)
  obtain s where v: "view i st = Some s" using store_ok_view [OF assms(1) i] by blast
  from get_returns [OF store_ok_server(2) [OF assms(1) v]] obtain reply b t
    where "L_get args r obs s = Some (reply, b, t)" by blast
  with v assms(2,3) show ?thesis by (simp add: arr_get_def)
qed

lemma command_goes_on:
  assumes "kv_serial_ok K" "store_ok n st" "store_carries K A st" "view i st = Some s"
    "sq_pop (applyChan s) = Some (m, q)" "validCommand m"
  shows "\<exists>st'. store_step K u now (NextMessage i) st = Some st'"
proof -
  have "kv_inv (flw (s\<lparr>applyChan := q\<rparr>))" using store_ok_server(2) [OF assms(2,4)] by (simp add: flw_updates)
  from command_returns [OF this assms(1) next_good(1) [OF assms(3-5)] assms(6), of u]
  obtain t where "handle_message K u m (s\<lparr>applyChan := q\<rparr>) = Ret t" by blast
  with assms(4,5) show ?thesis by simp
qed

end
