(* ===== verification/StoreProps.thy ===== *)
theory StoreProps
  imports StoreCalls
begin

text \<open>
  What holds of the whole store, and two runs of three servers: one in which a get call is
  answered with a value that an acknowledged put has replaced, and one in which the snapshot
  of the leader stops the message loop of a server that lags behind.
\<close>

section \<open>Three servers\<close>

text \<open>
  Serialisation as Boost's text archives do it: a word, a blank, the data. \<open>in_server\<close> wants
  that first word and blank.
\<close>

definition archive_kv :: kv_serial where
  "archive_kv = demo_kv\<lparr>out_server := (\<lambda>x. ''22 '' @ out_server demo_kv x),
     in_server := (\<lambda>w. if take 3 w = ''22 '' then in_server demo_kv (drop 3 w) else None)\<rparr>"

lemma archive_fields [simp]:
  "ser archive_kv = demo_serial" "out_table archive_kv = out_table demo_kv" "in_table archive_kv = in_table demo_kv"
  "out_server archive_kv x = ''22 '' @ out_server demo_kv x"
  "in_server archive_kv w = (if take 3 w = ''22 '' then in_server demo_kv (drop 3 w) else None)"
  by (simp_all add: archive_kv_def demo_kv_def)

lemma archive_kv_ok: "kv_serial_ok archive_kv"
  using demo_kv_ok by (simp add: kv_serial_ok_def codec_def demo_serial_ok)

lemma archive_first_word: "read_back (out_server archive_kv x) = ''22''"
proof -
  have "one_word ''22''" by (simp add: one_word_def is_space_def)
  moreover have "is_space CHR '' ''" by (simp add: is_space_def)
  ultimately show ?thesis using extract_first_word [of "''22''" "CHR '' ''" "out_server demo_kv x" "[]"]
    by (simp add: read_back_def)
qed

lemma archive_rejects: "first_word_rejected archive_kv"
  unfolding first_word_rejected_def archive_first_word by simp

lemma rejected_reads: "first_word_rejected K \<Longrightarrow> snapshot_reads K"
  by (simp add: first_word_rejected_def snapshot_reads_def)

definition boot_server :: "int \<Rightarrow> nat \<Rightarrow> kv_server" where
  "boot_server maxSize i = \<lparr>table_data = demo_table, lastRequestId = [], appliedChan = Map.empty,
     queues = Map.empty, nextQueue = 0, raftNode = boot demo_serial 3 i, applyChan = [], server_id = int i,
     maxRaftStateSize = maxSize, lastSnapshotCommandIndex = 0\<rparr>"

definition boot_store :: "int \<Rightarrow> store" where
  "boot_store maxSize = (let ss = map (boot_server maxSize) [0..<3] in
     \<lparr>net = \<lparr>nodes = map raftNode ss, applying = replicate 3 [], chans = replicate 3 [], threads = [],
         voteNum = (\<lambda>_. 0), appendNum = (\<lambda>_. 0), rounds = 0\<rparr>,
      servers = ss, puts = [], gets = [], issued = []\<rparr>)"

lemma boot_server_start:
  assumes "i < 3"
  shows "server_start archive_kv 3 i (boot_server maxSize i)"
proof -
  let ?w = "\<lambda>_ :: string. True"
  let ?p = "persister_ctor Map.empty ?w i"
  define c where "c = nodes_text 0 [(''a'', 1), (''b'', 2), (''c'', 3)]"
  have len: "length (read_nodes (load_config c Map.empty) 0) = 3"
    unfolding c_def using nodes_read_back [of "[(''a'', 1), (''b'', 2), (''c'', 3)]"] by (simp add: plain_def)
  obtain d :: table where d: "kvskiplist 32 [] [] even = Some d" by (rule kvskiplist_repr [of 32 "[]" "[]" even]) auto
  have r: "raft_ctor demo_serial 0 (int i) ?p 3 = Ret (boot demo_serial 3 i)" "pstr (boot demo_serial 3 i) = ?p"
    using ctor_empties(2) [where w = ?w and me = i and fs = Map.empty]
    by (simp_all add: boot_def raft_ctor_def Let_def M_load_def)
  have l: "loadSnapshot ?p [] = (False, [])" by (rule ctor_empties(3)) simp_all
  have "kvServer_ctor archive_kv 0 even Map.empty ?w (int i) maxSize c = Ret (boot_server maxSize i)"
    using assms by (simp add: kvServer_ctor_def len d r l and_then_Ret of_opt_def Let_def boot_server_def demo_table_def)
  then show ?thesis
    unfolding server_start_def
    by (intro conjI assms exI [of _ 0] exI [of _ even] exI [of _ Map.empty] exI [of _ ?w] exI [of _ maxSize] exI [of _ c])
      (simp_all add: len)
qed

lemma boot_store_start: "store_start archive_kv 3 (boot_store maxSize)"
  using boot_server_start by (auto simp: store_start_def boot_store_def Let_def nth_map_upt)

text \<open>The parts of a state the runs below end with.\<close>

fun answer :: "get_call \<Rightarrow> (get_args \<times> get_reply \<times> bool) option" where
  "answer (GetReplied args reply sent) = Some (args, reply, sent)"
| "answer (GetWaiting args r obs) = None"

definition calls_seen :: "store \<Rightarrow> (nat \<times> put_call) list \<times> (nat \<times> (get_args \<times> get_reply \<times> bool) option) list" where
  "calls_seen st = (puts st, map (\<lambda>(i, g). (i, answer g)) (gets st))"

lemma answer_Some: "answer g = Some (args, reply, sent) \<longleftrightarrow> g = GetReplied args reply sent"
  by (cases g) auto

section \<open>A stale answer\<close>

text \<open>
  Server 0 leads. The put of \<open>x\<close> reaches servers 0 and 1 and is acknowledged, then the put of
  \<open>y\<close> is appended on both, committed and acknowledged by server 0. Server 1 does not know yet
  that it is committed and answers a get with \<open>x\<close>.
\<close>

definition put_k :: "string \<Rightarrow> int \<Rightarrow> put_args" where
  "put_k v r = \<lparr>pa_key = ''k'', pa_value = v, pa_clientid = ''c'', pa_requestid = r\<rparr>"

definition get_k :: get_args where
  "get_k = \<lparr>ga_key = ''k'', ga_clientid = ''d'', ga_requestid = 1\<rparr>"

definition twice :: "nat \<Rightarrow> store_action list" where
  "twice k = [Node (RunThread k True), Node (RunThread k True)]"

definition apply_one :: "nat \<Rightarrow> store_action list" where
  "apply_one i = [Node (ApplyMsgs i), Node (PushMsg i), NextMessage i]"

definition put_steps :: "nat \<Rightarrow> nat \<Rightarrow> store_action list" where
  "put_steps k n = replicate n (StepPut k False)"

definition two_puts :: "store_action list" where
  "two_puts = [Node (Elect 0)] @ twice 0 @ [CallPut 0 (put_k ''x'' 1)] @ put_steps 0 2 @ [Node (Tick 0)] @ twice 3
     @ apply_one 0 @ put_steps 0 3 @ [Node (Tick 0), Node (RunThread 5 True)] @ apply_one 1
     @ [CallPut 0 (put_k ''y'' 2)] @ put_steps 1 2 @ [Node (Tick 0)] @ twice 7 @ apply_one 0 @ put_steps 1 3"

lemma two_puts_run:
  "map_option (\<lambda>st. (calls_seen st, issued st)) (run_store archive_kv no_op two_puts (boot_store (- 1)))
    = Some (([(0, PutReplied \<lparr>pr_err = RAFT_OK\<rparr>), (0, PutReplied \<lparr>pr_err = RAFT_OK\<rparr>)], []), [put_k ''x'' 1, put_k ''y'' 2])"
  by code_simp

lemma stale_get_run:
  "map_option (\<lambda>st. (calls_seen st, issued st)) (run_store archive_kv no_op (two_puts @ [CallGet 1 get_k, RunGet 0]) (boot_store (- 1)))
    = Some (([(0, PutReplied \<lparr>pr_err = RAFT_OK\<rparr>), (0, PutReplied \<lparr>pr_err = RAFT_OK\<rparr>)],
        [(1, Some (get_k, \<lparr>gr_err = RAFT_OK, gr_value = ''x''\<rparr>, True))]), [put_k ''x'' 1, put_k ''y'' 2])"
  by code_simp

section \<open>A snapshot for a server that lags behind\<close>

text \<open>
  The servers cut their logs as soon as the state file is not empty. The put reaches servers
  0 and 1, server 0 applies it and takes a snapshot; its next heartbeat sends the snapshot to
  server 2, which pushes it to its message loop.
\<close>

definition lagging :: "store_action list" where
  "lagging = [Node (Elect 0)] @ twice 0 @ [CallPut 0 (put_k ''x'' 1)] @ put_steps 0 2 @ [Node (Tick 0)] @ twice 3
     @ apply_one 0 @ [Node (Tick 0)] @ twice 6 @ [Node (RunThread 7 True)]"

definition waiting_messages :: "nat \<Rightarrow> store \<Rightarrow> (bool \<times> string) list" where
  "waiting_messages i st = map (\<lambda>m. (validSnapshot m, snapshot m)) (chans (net st) ! i)"

lemma lagging_run:
  "map_option (\<lambda>st. (waiting_messages 2 st, map length [chans (net st)], map length [nodes (net st)], map length [servers st]))
      (run_store archive_kv no_op lagging (boot_store 0)) = Some ([(True, ''22'')], [3], [3], [3])"
  by code_simp

lemma run_store_append: "run_store K u (as @ bs) st = Option.bind (run_store K u as st) (run_store K u bs)"
  by (induction as arbitrary: st) (auto simp: bind_assoc split: Option.bind_splits)

text \<open>A put that waits for its channel while the message of its command is in the queue.\<close>

definition one_waiting :: "store_action list" where
  "one_waiting = [Node (Elect 0)] @ twice 0 @ [CallPut 0 (put_k ''x'' 1)] @ put_steps 0 2 @ [Node (Tick 0)] @ twice 3
     @ [Node (ApplyMsgs 0), Node (PushMsg 0), CallGet 0 get_k]"

lemma one_waiting_run:
  "map_option (\<lambda>st. (calls_seen st, map_option (\<lambda>s. map validCommand (applyChan s)) (view 0 st)))
      (run_store archive_kv no_op one_waiting (boot_store (- 1)))
    = Some (([(0, PutWaiting (put_k ''x'' 1) 1 0)], [(0, None)]), Some [True])"
  by code_simp

section \<open>Properties\<close>



text \<open>
  C8. No value out of thin air. In every run of the store, with any interleaving of elections,
  lost and delayed calls, snapshots and calls of clients: every value a
  server holds under a key, and every value a get call is answered with, was put under that
  key by a put call issued before. The one thing asked of the serialisation beyond reading
  back what it wrote is that the first word of an archive is not taken for another archive.
\<close>
theorem values_were_put:
  assumes "kv_serial_ok K" "snapshot_reads K" "store_start K n st0" "(sstep K u)\<^sup>*\<^sup>* st0 st"
  shows "(\<forall>s \<in> set (servers st). \<forall>k v. abs_kv (table_data s) k = Some v \<longrightarrow>
      (\<exists>a \<in> set (issued st). pa_key a = k \<and> pa_value a = v))
    \<and> (\<forall>i args reply. (i, GetReplied args reply True) \<in> set (gets st) \<longrightarrow>
      (\<exists>a \<in> set (issued st). pa_key a = ga_key args \<and> pa_value a = gr_value reply))"
  using run_carries [OF assms order.refl] by (auto simp: store_carries_def server_good_def from_puts_def)

theorem values_were_put_witness:
  "\<exists>st. (sstep archive_kv no_op)\<^sup>*\<^sup>* (boot_store (- 1)) st
    \<and> (1, GetReplied get_k \<lparr>gr_err = RAFT_OK, gr_value = ''x''\<rparr> True) \<in> set (gets st)
    \<and> (\<exists>a \<in> set (issued st). pa_key a = ''k'' \<and> pa_value a = ''x'')"
proof -
  obtain st where st: "run_store archive_kv no_op (two_puts @ [CallGet 1 get_k, RunGet 0]) (boot_store (- 1)) = Some st"
    "map (\<lambda>(i, g). (i, answer g)) (gets st) = [(1, Some (get_k, \<lparr>gr_err = RAFT_OK, gr_value = ''x''\<rparr>, True))]"
    using stale_get_run by (auto simp: calls_seen_def)
  then have g: "(1, GetReplied get_k \<lparr>gr_err = RAFT_OK, gr_value = ''x''\<rparr> True) \<in> set (gets st)"
    by (auto simp: answer_Some)
  note r = run_store_reaches [OF st(1)]
  have "\<exists>a \<in> set (issued st). pa_key a = ga_key get_k \<and> pa_value a = gr_value \<lparr>gr_err = RAFT_OK, gr_value = ''x''\<rparr>"
    using values_were_put [OF archive_kv_ok rejected_reads [OF archive_rejects] boot_store_start r] g by blast
  with r g show ?thesis by (auto simp: get_k_def)
qed

text \<open>
  C35. Reads are not linearizable. In some run of three servers without any failure, a client
  whose put of \<open>x\<close> and then whose put of \<open>y\<close> under the same key were both answered OK is
  followed by a get, called only after those answers, that is answered OK with \<open>x\<close>: a server
  answers from its own table and waits only for what it knows to be committed.
\<close>
theorem stale_read:
  "\<exists>K st0 st1 st2. kv_serial_ok K \<and> store_start K 3 st0 \<and> (sstep K no_op)\<^sup>*\<^sup>* st0 st1 \<and> (sstep K no_op)\<^sup>*\<^sup>* st1 st2
    \<and> puts st1 = [(0, PutReplied \<lparr>pr_err = RAFT_OK\<rparr>), (0, PutReplied \<lparr>pr_err = RAFT_OK\<rparr>)]
    \<and> issued st1 = [put_k ''x'' 1, put_k ''y'' 2] \<and> gets st1 = []
    \<and> issued st2 = issued st1 \<and> gets st2 = [(1, GetReplied get_k \<lparr>gr_err = RAFT_OK, gr_value = ''x''\<rparr> True)]"
proof -
  obtain st1 where st1: "run_store archive_kv no_op two_puts (boot_store (- 1)) = Some st1"
    "puts st1 = [(0, PutReplied \<lparr>pr_err = RAFT_OK\<rparr>), (0, PutReplied \<lparr>pr_err = RAFT_OK\<rparr>)]"
    "issued st1 = [put_k ''x'' 1, put_k ''y'' 2]" "gets st1 = []"
    using two_puts_run by (auto simp: calls_seen_def)
  obtain st2 where st2: "run_store archive_kv no_op (two_puts @ [CallGet 1 get_k, RunGet 0]) (boot_store (- 1)) = Some st2"
    "map (\<lambda>(i, g). (i, answer g)) (gets st2) = [(1, Some (get_k, \<lparr>gr_err = RAFT_OK, gr_value = ''x''\<rparr>, True))]"
    "issued st2 = [put_k ''x'' 1, put_k ''y'' 2]" using stale_get_run by (auto simp: calls_seen_def)
  have "run_store archive_kv no_op [CallGet 1 get_k, RunGet 0] st1 = Some st2"
    using st2(1) run_store_append [of archive_kv no_op two_puts "[CallGet 1 get_k, RunGet 0]" "boot_store (- 1)"] st1(1)
    by simp
  then have "(sstep archive_kv no_op)\<^sup>*\<^sup>* st1 st2" by (rule run_store_reaches)
  moreover have "gets st2 = [(1, GetReplied get_k \<lparr>gr_err = RAFT_OK, gr_value = ''x''\<rparr> True)]"
    using st2(2) by (auto simp: answer_Some)
  ultimately show ?thesis
    using archive_kv_ok boot_store_start [of "- 1"] run_store_reaches [OF st1(1)] st1(2-4) st2(3) by fastforce
qed

text \<open>
  C36. With text archives, no snapshot ever reaches a lagging server. A snapshot is read from
  its file by the word, so what is sent is the first word of the archive; where the reader of
  archives rejects that word, as Boost's does, then in every run of the store every snapshot
  that is not empty and comes to the message loop of a server makes it throw: the loop has no
  next step and the server executes nothing any more.
\<close>
theorem snapshots_never_load:
  assumes "kv_serial_ok K" "first_word_rejected K" "store_start K n st0" "(sstep K u)\<^sup>*\<^sup>* st0 st"
    and "view i st = Some s" "sq_pop (applyChan s) = Some (m, q)" "validSnapshot m" "snapshot m \<noteq> []"
  shows "handle_message K u m (s\<lparr>applyChan := q\<rparr>) = Throw ''archive_exception''
    \<and> store_step K u now (NextMessage i) st = None"
proof -
  have C: "store_carries K (set (issued st)) st"
    by (rule run_carries [OF assms(1) rejected_reads [OF assms(2)] assms(3,4) order.refl])
  have "\<not> validCommand m" "put_snapshot K (set (issued st)) (snapshot m)"
    using next_good(1) [OF C assms(5,6)] assms(7) by (simp_all add: msg_carries_def)
  then have "\<not> validCommand m" "in_server K (snapshot m) = None"
    using assms(2,8) by (auto simp: put_snapshot_def first_word_rejected_def)
  then have "handle_message K u m (s\<lparr>applyChan := q\<rparr>) = Throw ''archive_exception''"
    using assms(7,8) by (simp add: handle_message_def kv_L_installSnapshot_def kv_M_load_def)
  with assms(5,6) show ?thesis by simp
qed

theorem snapshots_never_load_witness:
  "\<exists>st s m. (sstep archive_kv no_op)\<^sup>*\<^sup>* (boot_store 0) st \<and> view 2 st = Some s \<and> applyChan s = [m]
    \<and> handle_message archive_kv no_op m (s\<lparr>applyChan := []\<rparr>) = Throw ''archive_exception''"
proof -
  obtain st where st: "run_store archive_kv no_op lagging (boot_store 0) = Some st"
    "waiting_messages 2 st = [(True, ''22'')]" "length (chans (net st)) = 3" "length (nodes (net st)) = 3"
    "length (servers st) = 3" using lagging_run by auto
  obtain m where m: "chans (net st) ! 2 = [m]" "validSnapshot m" "snapshot m = ''22''"
    using st(2) by (auto simp: waiting_messages_def)
  note r = run_store_reaches [OF st(1)]
  obtain s where s: "view 2 st = Some s" using st(3-5) by (simp add: view_def arr_get_def)
  have q: "sq_pop (applyChan s) = Some (m, [])" "applyChan s = [m]"
    using view_Some(4) [OF s] m(1) by (simp_all add: sq_pop_def)
  from snapshots_never_load [OF archive_kv_ok archive_rejects boot_store_start r s q(1) m(2)] m(3) q(2) r s
  show ?thesis by auto
qed



end
