(* ===== verification/Spec2Isabelle.thy ===== *)
theory Spec2Isabelle
  imports Prelude Archive KvSkipList KvTable KvRuns Utils Persister RaftNode RaftHandlers RaftProps RaftLeader
    ClusterProps Config KvServerProps KvCalls Clerk TimerProps Coroutine IomanProps SetSkipList Rpc HookProps Threads ThreadPool
    StoreProps
begin

text \<open>
  RaftKVStorage: a replicated key-value store in C++. This development models the program
  under \<open>src/src\<close> as functions and step relations and proves what makes its parts correct; where
  the code does not do what it means to, a theorem shows what it does instead.

  \<^bold>\<open>The program.\<close> A client (\<open>raft/src/clerk\<close>) sends \<open>get\<close> and \<open>put\<close> requests over a small RPC
  framework (\<open>rpc\<close>) to key-value servers (\<open>raft/src/core/kvServer.cpp\<close>). Each server owns a
  Raft node (\<open>raft/src/core/raft.cpp\<close>), which replicates the commands in a log, calls the
  other nodes through \<open>raftHelper.cpp\<close>, keeps its state and the server's snapshots in two files
  (\<open>persister.cpp\<close>), and hands committed commands back over a queue (\<open>utils.h\<close>). The server
  applies them to a skip list (\<open>kvSkipList.h\<close>). A coroutine runtime (\<open>cort\<close>: coroutines,
  scheduler, timers, io manager, hooked system calls) lets a thread give up a call that would
  block; the directory \<open>skipList\<close> holds a second skip list.

  \<^bold>\<open>Theories.\<close>
  \<^item> \<open>Prelude\<close>: checked access to arrays, calls that may throw (\<open>Throw\<close>) or run into
    undefined behaviour (\<open>Undef\<close>), chains of pointers. \<open>Archive\<close>: what a serialisation library
    promises, and one concrete library for the witnesses. \<open>Steps\<close>: the contracts
    \<open>step_invariant\<close> and \<open>monotone_steps\<close> for runs of a step relation.
  \<^item> \<open>KvSkipList\<close> (definitions), \<open>KvSkipListInv\<close>, \<open>KvSkipListUpd\<close>, \<open>KvSkipListCorrect\<close>,
    \<open>KvSkipListRemove\<close>, \<open>KvTable\<close>: \<open>kvSkipList.h\<close> on a heap of nodes with their forward arrays.
    \<open>repr\<close> relates the heap to the sorted list of nodes and \<open>abs_kv\<close> to a map; every operation
    returns, keeps the invariant and is the operation of the map (locale \<open>kv_table\<close>).
    \<open>KvRuns\<close>: the memory of the list over any sequence of operations.
    \<open>SetSkipList\<close>: \<open>skipList.h\<close> over the same heap, equivalent where it stays in its arrays.
  \<^item> \<open>Utils\<close>: commands and their archive form, \<open>safequeue\<close> (locale \<open>fifo\<close>), the
    critical sections of \<open>threadPool\<close>, the search for a port. \<open>ThreadPool\<close>: the pool with its threads and
    notifications under any interleaving. \<open>Persister\<close>: the two files. \<open>Config\<close>: \<open>mprpcConfig.cpp\<close>.
  \<^item> \<open>RaftNode\<close>, \<open>RaftHandlers\<close> (definitions): one Raft node, one definition per critical
    section; threads the code starts are the \<open>task\<close>s a step returns. \<open>RaftInv\<close>, \<open>RaftProto\<close>,
    \<open>RaftAppend\<close>: the invariant \<open>node_inv\<close> and what the steps do to the log. \<open>RaftStep\<close>: all steps
    of a node as a relation. \<open>RaftProps\<close>, \<open>RaftLeader\<close>: the properties of a node. \<open>RaftDemo\<close>:
    concrete nodes for the witnesses.
  \<^item> \<open>Cluster\<close>: nodes, threads and remote calls that may fail before or after the peer has
    handled them, under any interleaving. \<open>Election\<close> (locale \<open>voting\<close>), \<open>ElectionSafety\<close>: at most
    one leader per term. \<open>LogGrowth\<close>, \<open>LogIdentity\<close>: logs never get shorter, and an entry is
    determined by its index and term in the whole cluster. \<open>ClusterProps\<close>: these theorems, and a
    run in which logs diverge. The round of \<open>_L_applierTicker\<close> is cut where the code lets go of
    the mutex: collecting the messages is one action, pushing each of them another;
    \<open>applier_round\<close> puts them together again.
  \<^item> \<open>KvServer\<close>, \<open>KvServerProps\<close>: the server's message loop refines the state machine of the
    log; snapshots; the replies of \<open>get\<close>. \<open>KvCalls\<close>: any number of put calls beside the loop.
    \<open>Clerk\<close>: the client.
  \<^item> \<open>Store\<close>: the whole store, that is the cluster with a server on every node, the put and get
    calls of clients in flight and the message loops; \<open>step_actions\<close> gives the actions of the cluster
    behind each of its steps. \<open>StoreCarry\<close>: what the commands and snapshots in a cluster carry (in
    logs, files, calls under way, queues) is what was put into it. \<open>StoreInv\<close>: the same of the
    servers' tables, so values come from puts. \<open>StoreCalls\<close>: the channels of the put calls of all
    servers, beside elections and snapshots; nothing gets stuck. \<open>StoreProps\<close>: the theorems, a stale
    read, and a snapshot that no server can load.
  \<^item> \<open>Timer\<close>, \<open>TimerProps\<close>; \<open>Coroutine\<close>; \<open>Scheduler\<close>; \<open>Ioman\<close>, \<open>IomanProps\<close>; \<open>FdMan\<close> (\<open>fdman.h\<close>,
    \<open>faman.cpp\<close>); \<open>Hook\<close>, \<open>HookProps\<close> (\<open>hook.cpp\<close>); \<open>Threads\<close> (\<open>mutex.h\<close>, \<open>thread.cpp\<close>): the coroutine
    runtime, each part with its invariant over every run of its steps.
  \<^item> \<open>Rpc\<close>: channel, controller and provider of the RPC framework, and a call's round trip.

  \<^bold>\<open>Conventions.\<close> A definition has the name of the code it models, with the prefixes \<open>_M_\<close> and
  \<open>_L_\<close> written \<open>M_\<close> and \<open>L_\<close>, and with the class in front where names clash. A class is a record,
  its objects live on explicit heaps (maps from addresses) where the code shares or deletes
  them. \<open>None\<close> as the result of a step is undefined behaviour (an access out of bounds, a
  dangling pointer) or, where the text of the definition says so, a loop that does not return; so a
  theorem that says \<open>\<exists>t. step s = Some t\<close> says that neither happens. A function that holds a
  mutex throughout is one step; a function that lets go of it is cut there. Clock readings,
  random numbers, and the answers of the operating system and of remote calls are arguments.

  \<^bold>\<open>Loops.\<close> Loops over pointers are \<open>partial_function (option)\<close> and proved to return under the
  invariant. The message loop of the server (\<open>L_popMessageLoop\<close>) runs for ever in the code; here
  it makes at most a given number of rounds, and \<open>server_refines_log\<close> uses the length of the queue,
  which empties it. Retry loops
  (\<open>clerk\<close>, \<open>connect_loop\<close>, \<open>send_loop\<close>, \<open>call_retry\<close>, \<open>wait_loop\<close>) take the answers of the attempts;
  \<open>None\<close> is a list that ends before the loop does.

  \<^bold>\<open>What is assumed.\<close> Serialisation (\<open>serial_ok\<close>, \<open>prefix_codec\<close>, \<open>parses\<close>): parsing inverts
  writing; nothing else is used of Boost and protobuf, and each hypothesis has an instance
  in a witness. \<open>epoll_laws\<close> and \<open>epoll_succeeds\<close>: \<open>epoll_ctl\<close> changes the interest list as its
  manual says. \<open>lock_step\<close>: the locks of pthread.

  \<^bold>\<open>Not modelled.\<close> \<open>int\<close>s of the Raft messages are mathematical integers (the code never
  guards them; the \<open>size_t\<close>, time and port fields are words). Generated protobuf code and
  muduo are libraries. Logging, printing (\<open>operator<<\<close>, \<open>dprintf\<close>) and the example programs
  are left out. Critical sections of one command that follow one another in the message loop
  are taken together in \<open>server_refines_log\<close>; \<open>KvCalls\<close> has them apart from the put calls. Of
  \<open>rpcProvider::run\<close> only the choice of address and port is modelled, and \<open>getsockopt\<close>, which is
  passed on unchanged, has no definition. Stacks and machine contexts of coroutines belong to the
  C library: a context switch is the pair of coroutines. In the store a round of a message loop
  is one step beside the steps of the other servers, and servers are not restarted (a restart of
  one node is \<open>restart_forgets\<close>).
\<close>

end
